theory Spec2Isabelle
  imports Main "HOL-Library.Multiset"
begin

section \<open>The constraint graph of the type checker (lib/Sema/ConstraintGraph.cpp)\<close>

text \<open>
  A shallow embedding of \<^verbatim>\<open>ConstraintGraph\<close>, \<^verbatim>\<open>ConstraintGraphNode\<close>,
  \<^verbatim>\<open>ConstraintGraphScope\<close> and the connected-components algorithm.

  Conventions of the embedding.
  \<^item> A type variable is identified with its ID (\<^verbatim>\<open>getID()\<close>), a natural number; IDs
    are unique within a constraint system.
  \<^item> A constraint is a value; pointer equality of \<^verbatim>\<open>Constraint *\<close> is equality of
    the value, and the field \<open>cid\<close> lets two constraints with the same contents differ.
  \<^item> Every mutating member function takes the graph and returns the new graph.
  \<^item> A failed \<^verbatim>\<open>assert\<close>, an out-of-range access or a \<^verbatim>\<open>pop_back\<close> on an empty
    vector is the result \<open>None\<close>.
  \<^item> \<^verbatim>\<open>lookupNode\<close>, \<^verbatim>\<open>mergeNodes\<close> and \<^verbatim>\<open>bindTypeVariable\<close> call one another;
    the recursion is bounded by a fuel argument that is consumed whenever a node is
    created, and running out of fuel is \<open>None\<close> as well.
\<close>

subsection \<open>Types, constraints and the constraint system\<close>

type_synonym tvar = nat

text \<open>
  The type representation is declared outside this file. Only what the graph uses
  is modelled: type variables, \<^verbatim>\<open>InOutType\<close>, sugar (removed by
  \<^verbatim>\<open>getDesugaredType\<close>) and a constructor with children.
\<close>

datatype ty =
    TypeVariableType tvar
  | InOutType ty
  | SugarType ty
  | NominalType nat "ty list"

fun getTypeVariables :: "ty \<Rightarrow> tvar list" where
  "getTypeVariables (TypeVariableType v) = [v]"
| "getTypeVariables (InOutType t) = getTypeVariables t"
| "getTypeVariables (SugarType t) = getTypeVariables t"
| "getTypeVariables (NominalType n ts) = concat (map getTypeVariables ts)"

definition hasTypeVariable :: "ty \<Rightarrow> bool" where
  "hasTypeVariable t = (getTypeVariables t \<noteq> [])"

fun getDesugaredType :: "ty \<Rightarrow> ty" where
  "getDesugaredType (SugarType t) = getDesugaredType t"
| "getDesugaredType t = t"

definition getAsTypeVariableType :: "ty \<Rightarrow> tvar option" where
  "getAsTypeVariableType t =
     (case getDesugaredType t of TypeVariableType v \<Rightarrow> Some v | _ \<Rightarrow> None)"

definition isInOutType :: "ty \<Rightarrow> bool" where
  "isInOutType t = (case getDesugaredType t of InOutType _ \<Rightarrow> True | _ \<Rightarrow> False)"

fun findIf :: "(ty \<Rightarrow> bool) \<Rightarrow> ty \<Rightarrow> bool" where
  "findIf p (TypeVariableType v) = p (TypeVariableType v)"
| "findIf p (InOutType t) = (p (InOutType t) \<or> findIf p t)"
| "findIf p (SugarType t) = (p (SugarType t) \<or> findIf p t)"
| "findIf p (NominalType n ts) = (p (NominalType n ts) \<or> list_ex (findIf p) ts)"

datatype ConstraintKind =
    Bind | BindParam | BindToPointerType | Equal | OneWayBind | OneWayBindParam
  | OtherKind nat

record Constraint =
  cid :: nat
  getKind :: ConstraintKind
  getFirstType :: ty
  getSecondType :: ty
  constraintTypeVariables :: "tvar list"

text \<open>
  What the graph reads from the constraint system: the representative of a type
  variable in the solver's own union-find, and its fixed type if it has one.
\<close>

record ConstraintSystem =
  getRepresentative :: "tvar \<Rightarrow> tvar"
  getFixedType :: "tvar \<Rightarrow> ty option"

subsection \<open>Nodes\<close>

record ConstraintGraphNode =
  TypeVar :: tvar
  Constraints :: "Constraint list"
  ConstraintIndex :: "Constraint \<rightharpoonup> nat"
  EquivalenceClass :: "tvar list"
  FixedBindings :: "tvar list"

definition newNode :: "tvar \<Rightarrow> ConstraintGraphNode" where
  "newNode tv = \<lparr>TypeVar = tv, Constraints = [], ConstraintIndex = Map.empty,
     EquivalenceClass = [], FixedBindings = []\<rparr>"

text \<open>\<^verbatim>\<open>getEquivalenceClassUnsafe\<close>: the class is created on first use (the field is
  \<^verbatim>\<open>mutable\<close>), so the node is returned with it.\<close>

definition materialize :: "ConstraintGraphNode \<Rightarrow> ConstraintGraphNode" where
  "materialize n =
     (if EquivalenceClass n = [] then n\<lparr>EquivalenceClass := [TypeVar n]\<rparr> else n)"

definition getEquivalenceClassUnsafe :: "ConstraintGraphNode \<Rightarrow> tvar list" where
  "getEquivalenceClassUnsafe n = EquivalenceClass (materialize n)"

definition nodeAddConstraint :: "Constraint \<Rightarrow> ConstraintGraphNode \<Rightarrow> ConstraintGraphNode option" where
  "nodeAddConstraint c n =
     (if ConstraintIndex n c \<noteq> None then None
      else Some (n\<lparr>ConstraintIndex := (ConstraintIndex n)(c \<mapsto> length (Constraints n)),
                    Constraints := Constraints n @ [c]\<rparr>))"

definition nodeRemoveConstraint :: "Constraint \<Rightarrow> ConstraintGraphNode \<Rightarrow> ConstraintGraphNode option" where
  "nodeRemoveConstraint c n =
     (case ConstraintIndex n c of
        None \<Rightarrow> None
      | Some index \<Rightarrow>
          if \<not> index < length (Constraints n) then None
          else if Constraints n ! index \<noteq> c then None
          else
            let erased = (ConstraintIndex n)(c := None);
                lastIndex = length (Constraints n) - 1
            in if index = lastIndex
               then Some (n\<lparr>ConstraintIndex := erased, Constraints := butlast (Constraints n)\<rparr>)
               else
                 let lastConstraint = Constraints n ! lastIndex
                 in Some (n\<lparr>ConstraintIndex := erased(lastConstraint \<mapsto> index),
                             Constraints := butlast ((Constraints n)[index := lastConstraint])\<rparr>))"

definition addToEquivalenceClass ::
  "ConstraintSystem \<Rightarrow> tvar list \<Rightarrow> ConstraintGraphNode \<Rightarrow> ConstraintGraphNode option" where
  "addToEquivalenceClass cs typeVars n =
     (if TypeVar n \<noteq> getRepresentative cs (TypeVar n) then None
      else Some ((materialize n)\<lparr>EquivalenceClass := EquivalenceClass (materialize n) @ typeVars\<rparr>))"

definition addFixedBinding :: "tvar \<Rightarrow> ConstraintGraphNode \<Rightarrow> ConstraintGraphNode" where
  "addFixedBinding typeVar n = n\<lparr>FixedBindings := FixedBindings n @ [typeVar]\<rparr>"

text \<open>\<^verbatim>\<open>removeFixedBinding\<close> ignores its argument and pops the last entry.\<close>

definition removeFixedBinding :: "tvar \<Rightarrow> ConstraintGraphNode \<Rightarrow> ConstraintGraphNode option" where
  "removeFixedBinding typeVar n =
     (if FixedBindings n = [] then None
      else Some (n\<lparr>FixedBindings := butlast (FixedBindings n)\<rparr>))"

subsection \<open>The graph\<close>

datatype Change =
    AddedTypeVariable tvar
  | AddedConstraint Constraint
  | RemovedConstraint Constraint
  | ExtendedEquivalenceClass tvar nat
  | BoundTypeVariable tvar ty

text \<open>
  \<open>graphNode\<close> and \<open>graphIndex\<close> are the two slots the graph keeps in each type
  variable's implementation. \<open>ActiveScope\<close> is the chain of open scopes, innermost
  first, each with its \<^verbatim>\<open>NumChanges\<close>; the empty list is the null pointer.
\<close>

record ConstraintGraph =
  graphNode :: "tvar \<rightharpoonup> ConstraintGraphNode"
  graphIndex :: "tvar \<Rightarrow> nat"
  TypeVariables :: "tvar list"
  OrphanedConstraints :: "Constraint list"
  Changes :: "Change list"
  ActiveScope :: "nat list"

definition emptyGraph :: ConstraintGraph where
  "emptyGraph = \<lparr>graphNode = Map.empty, graphIndex = (\<lambda>_. 0), TypeVariables = [],
     OrphanedConstraints = [], Changes = [], ActiveScope = []\<rparr>"

definition recordChange :: "Change \<Rightarrow> ConstraintGraph \<Rightarrow> ConstraintGraph" where
  "recordChange ch g = (if ActiveScope g \<noteq> [] then g\<lparr>Changes := Changes g @ [ch]\<rparr> else g)"

definition setNode :: "tvar \<Rightarrow> ConstraintGraphNode \<Rightarrow> ConstraintGraph \<Rightarrow> ConstraintGraph" where
  "setNode tv n g = g\<lparr>graphNode := (graphNode g)(tv \<mapsto> n)\<rparr>"

text \<open>Apply a node member function to the node of \<open>tv\<close>, which must exist.\<close>

definition onNode ::
  "tvar \<Rightarrow> (ConstraintGraphNode \<Rightarrow> ConstraintGraphNode option) \<Rightarrow> ConstraintGraph \<Rightarrow> ConstraintGraph option" where
  "onNode tv f g =
     (case graphNode g tv of
        None \<Rightarrow> None
      | Some n \<Rightarrow> (case f n of None \<Rightarrow> None | Some n' \<Rightarrow> Some (setNode tv n' g)))"

definition createNode :: "tvar \<Rightarrow> ConstraintGraph \<Rightarrow> ConstraintGraph" where
  "createNode tv g =
     recordChange (AddedTypeVariable tv)
       (g\<lparr>graphNode := (graphNode g)(tv \<mapsto> newNode tv),
          graphIndex := (graphIndex g)(tv := length (TypeVariables g)),
          TypeVariables := TypeVariables g @ [tv]\<rparr>)"

text \<open>
  Two steps of \<^verbatim>\<open>mergeNodes\<close>. The first is the body of \<^verbatim>\<open>if (ActiveScope)\<close>:
  \<^verbatim>\<open>getEquivalenceClass()\<close> asserts that the variable is its own representative,
  creates the class if it is empty, and its size is journalled. The second is
  \<^verbatim>\<open>repNode.addToEquivalenceClass(nonRepNode.getEquivalenceClassUnsafe())\<close>.
\<close>

definition recordExtendedEquivalenceClass ::
  "ConstraintSystem \<Rightarrow> tvar \<Rightarrow> ConstraintGraph \<Rightarrow> ConstraintGraph option" where
  "recordExtendedEquivalenceClass cs typeVarRep g =
     (if ActiveScope g = [] then Some g
      else if typeVarRep \<noteq> getRepresentative cs typeVarRep then None
      else
        case onNode typeVarRep (\<lambda>n. Some (materialize n)) g of
          None \<Rightarrow> None
        | Some g' \<Rightarrow>
            Some (recordChange
                    (ExtendedEquivalenceClass typeVarRep
                       (length (EquivalenceClass (the (graphNode g' typeVarRep))))) g'))"

definition mergeEquivalenceClass ::
  "ConstraintSystem \<Rightarrow> tvar \<Rightarrow> tvar \<Rightarrow> ConstraintGraph \<Rightarrow> ConstraintGraph option" where
  "mergeEquivalenceClass cs typeVarRep typeVarNonRep g =
     (case onNode typeVarNonRep (\<lambda>n. Some (materialize n)) g of
        None \<Rightarrow> None
      | Some g1 \<Rightarrow>
          onNode typeVarRep
            (addToEquivalenceClass cs (EquivalenceClass (the (graphNode g1 typeVarNonRep)))) g1)"

text \<open>The two \<^verbatim>\<open>addFixedBinding\<close> calls of one iteration of \<^verbatim>\<open>bindTypeVariable\<close>.\<close>

definition addFixedBindingPair :: "tvar \<Rightarrow> tvar \<Rightarrow> ConstraintGraph \<Rightarrow> ConstraintGraph option" where
  "addFixedBindingPair typeVar otherTypeVar g =
     (case onNode otherTypeVar (\<lambda>n. Some (addFixedBinding typeVar n)) g of
        None \<Rightarrow> None
      | Some g1 \<Rightarrow> onNode typeVar (\<lambda>n. Some (addFixedBinding otherTypeVar n)) g1)"

text \<open>
  \<^verbatim>\<open>lookupNode\<close> (also \<^verbatim>\<open>operator[]\<close>), \<^verbatim>\<open>mergeNodes\<close>, \<^verbatim>\<open>bindTypeVariable\<close> and the
  loop of \<^verbatim>\<open>bindTypeVariable\<close> over the type variables of the fixed type, with the
  set \<^verbatim>\<open>knownTypeVars\<close> as a list.
\<close>

function lookupNode :: "nat \<Rightarrow> ConstraintSystem \<Rightarrow> tvar \<Rightarrow> ConstraintGraph \<Rightarrow> ConstraintGraph option"
  and mergeNodes :: "nat \<Rightarrow> ConstraintSystem \<Rightarrow> tvar \<Rightarrow> tvar \<Rightarrow> ConstraintGraph \<Rightarrow> ConstraintGraph option"
  and bindTypeVariable :: "nat \<Rightarrow> ConstraintSystem \<Rightarrow> tvar \<Rightarrow> ty \<Rightarrow> ConstraintGraph \<Rightarrow> ConstraintGraph option"
  and bindLoop :: "nat \<Rightarrow> ConstraintSystem \<Rightarrow> tvar \<Rightarrow> tvar list \<Rightarrow> tvar list \<Rightarrow> ConstraintGraph \<Rightarrow> ConstraintGraph option"
where
  "lookupNode fuel cs typeVar g =
     (case graphNode g typeVar of
        Some nodePtr \<Rightarrow>
          if \<not> graphIndex g typeVar < length (TypeVariables g) then None
          else if TypeVariables g ! graphIndex g typeVar \<noteq> typeVar then None
          else Some g
      | None \<Rightarrow>
          (case fuel of
             0 \<Rightarrow> None
           | Suc fuel' \<Rightarrow>
               let g1 = createNode typeVar g;
                   typeVarRep = getRepresentative cs typeVar
               in if typeVar \<noteq> typeVarRep then mergeNodes fuel' cs typeVar typeVarRep g1
                  else (case getFixedType cs typeVarRep of
                          Some fixed \<Rightarrow> bindTypeVariable fuel' cs typeVar fixed g1
                        | None \<Rightarrow> Some g1)))"
| "mergeNodes fuel cs typeVar1 typeVar2 g =
     (if getRepresentative cs typeVar1 \<noteq> getRepresentative cs typeVar2 then None
      else
        let typeVarRep = getRepresentative cs typeVar1
        in case lookupNode fuel cs typeVarRep g of
             None \<Rightarrow> None
           | Some g1 \<Rightarrow>
               if \<not> (typeVar1 = typeVarRep \<or> typeVar2 = typeVarRep) then None
               else
                 let typeVarNonRep = (if typeVar1 = typeVarRep then typeVar2 else typeVar1)
                 in case recordExtendedEquivalenceClass cs typeVarRep g1 of
                      None \<Rightarrow> None
                    | Some g2 \<Rightarrow>
                        (case lookupNode fuel cs typeVarNonRep g2 of
                           None \<Rightarrow> None
                         | Some g3 \<Rightarrow> mergeEquivalenceClass cs typeVarRep typeVarNonRep g3))"
| "bindTypeVariable fuel cs typeVar fixed g =
     (if \<not> hasTypeVariable fixed then Some g
      else
        case lookupNode fuel cs typeVar g of
          None \<Rightarrow> None
        | Some g1 \<Rightarrow>
            (case bindLoop fuel cs typeVar (getTypeVariables fixed) [] g1 of
               None \<Rightarrow> None
             | Some g2 \<Rightarrow> Some (recordChange (BoundTypeVariable typeVar fixed) g2)))"
| "bindLoop fuel cs typeVar [] knownTypeVars g = Some g"
| "bindLoop fuel cs typeVar (otherTypeVar # rest) knownTypeVars g =
     (if otherTypeVar \<in> set knownTypeVars then bindLoop fuel cs typeVar rest knownTypeVars g
      else if typeVar = otherTypeVar
      then bindLoop fuel cs typeVar rest (otherTypeVar # knownTypeVars) g
      else
        case lookupNode fuel cs otherTypeVar g of
          None \<Rightarrow> None
        | Some g1 \<Rightarrow>
            (case addFixedBindingPair typeVar otherTypeVar g1 of
               None \<Rightarrow> None
             | Some g2 \<Rightarrow> bindLoop fuel cs typeVar rest (otherTypeVar # knownTypeVars) g2))"
  by pat_completeness auto
termination
  by (relation "measures
        [\<lambda>x. case x of Inl (Inl (f, _)) \<Rightarrow> f | Inl (Inr (f, _)) \<Rightarrow> f
                      | Inr (Inl (f, _)) \<Rightarrow> f | Inr (Inr (f, _)) \<Rightarrow> f,
         \<lambda>x. case x of Inl (Inl _) \<Rightarrow> 0 | Inl (Inr _) \<Rightarrow> 1
                      | Inr (Inl _) \<Rightarrow> 2 | Inr (Inr _) \<Rightarrow> 1,
         \<lambda>x. case x of Inr (Inr (_, _, _, tvs, _)) \<Rightarrow> length tvs | _ \<Rightarrow> 0]")
     auto

declare lookupNode.simps [simp del] mergeNodes.simps [simp del]
  bindTypeVariable.simps [simp del] bindLoop.simps [simp del]

text \<open>\<^verbatim>\<open>removeNode\<close>: the stored index of the variable that is moved into the freed
  slot is not updated.\<close>

definition removeNode :: "tvar \<Rightarrow> ConstraintGraph \<Rightarrow> ConstraintGraph option" where
  "removeNode typeVar g =
     (let index = graphIndex g typeVar;
          g1 = g\<lparr>graphNode := (graphNode g)(typeVar := None)\<rparr>
      in if TypeVariables g1 = [] then None
         else
           let lastIndex = length (TypeVariables g1) - 1;
               tvs = (if index < lastIndex
                      then (TypeVariables g1)[index := TypeVariables g1 ! lastIndex]
                      else TypeVariables g1)
           in Some (g1\<lparr>TypeVariables := butlast tvs\<rparr>))"

fun addConstraintLoop ::
  "nat \<Rightarrow> ConstraintSystem \<Rightarrow> Constraint \<Rightarrow> tvar list \<Rightarrow> ConstraintGraph \<Rightarrow> ConstraintGraph option" where
  "addConstraintLoop fuel cs c [] g = Some g"
| "addConstraintLoop fuel cs c (typeVar # rest) g =
     (case lookupNode fuel cs typeVar g of
        None \<Rightarrow> None
      | Some g1 \<Rightarrow>
          (case onNode typeVar (nodeAddConstraint c) g1 of
             None \<Rightarrow> None
           | Some g2 \<Rightarrow> addConstraintLoop fuel cs c rest g2))"

definition addConstraint ::
  "nat \<Rightarrow> ConstraintSystem \<Rightarrow> Constraint \<Rightarrow> ConstraintGraph \<Rightarrow> ConstraintGraph option" where
  "addConstraint fuel cs c g =
     (case addConstraintLoop fuel cs c (constraintTypeVariables c) g of
        None \<Rightarrow> None
      | Some g1 \<Rightarrow>
          let g2 = (if constraintTypeVariables c = []
                    then g1\<lparr>OrphanedConstraints := OrphanedConstraints g1 @ [c]\<rparr>
                    else g1)
          in Some (recordChange (AddedConstraint c) g2))"

fun removeConstraintLoop ::
  "nat \<Rightarrow> ConstraintSystem \<Rightarrow> Constraint \<Rightarrow> tvar list \<Rightarrow> ConstraintGraph \<Rightarrow> ConstraintGraph option" where
  "removeConstraintLoop fuel cs c [] g = Some g"
| "removeConstraintLoop fuel cs c (typeVar # rest) g =
     (case lookupNode fuel cs typeVar g of
        None \<Rightarrow> None
      | Some g1 \<Rightarrow>
          (case onNode typeVar (nodeRemoveConstraint c) g1 of
             None \<Rightarrow> None
           | Some g2 \<Rightarrow> removeConstraintLoop fuel cs c rest g2))"

text \<open>Removal of an orphaned constraint: \<^verbatim>\<open>std::find\<close>, overwrite with the last
  element, \<^verbatim>\<open>pop_back\<close>.\<close>

definition removeOrphaned :: "Constraint \<Rightarrow> Constraint list \<Rightarrow> Constraint list option" where
  "removeOrphaned c orphans =
     (if c \<notin> set orphans then None
      else
        let known = length (takeWhile (\<lambda>x. x \<noteq> c) orphans)
        in Some (butlast (orphans[known := last orphans])))"

definition removeConstraint ::
  "nat \<Rightarrow> ConstraintSystem \<Rightarrow> Constraint \<Rightarrow> ConstraintGraph \<Rightarrow> ConstraintGraph option" where
  "removeConstraint fuel cs c g =
     (case removeConstraintLoop fuel cs c (constraintTypeVariables c) g of
        None \<Rightarrow> None
      | Some g1 \<Rightarrow>
          (case (if constraintTypeVariables c = []
                 then map_option (\<lambda>os. g1\<lparr>OrphanedConstraints := os\<rparr>)
                        (removeOrphaned c (OrphanedConstraints g1))
                 else Some g1) of
             None \<Rightarrow> None
           | Some g2 \<Rightarrow> Some (recordChange (RemovedConstraint c) g2)))"

fun unbindLoop ::
  "nat \<Rightarrow> ConstraintSystem \<Rightarrow> tvar \<Rightarrow> tvar list \<Rightarrow> tvar list \<Rightarrow> ConstraintGraph \<Rightarrow> ConstraintGraph option" where
  "unbindLoop fuel cs typeVar [] knownTypeVars g = Some g"
| "unbindLoop fuel cs typeVar (otherTypeVar # rest) knownTypeVars g =
     (if otherTypeVar \<in> set knownTypeVars then unbindLoop fuel cs typeVar rest knownTypeVars g
      else
        case lookupNode fuel cs otherTypeVar g of
          None \<Rightarrow> None
        | Some g1 \<Rightarrow>
            (case onNode otherTypeVar (removeFixedBinding typeVar) g1 of
               None \<Rightarrow> None
             | Some g2 \<Rightarrow>
                 (case onNode typeVar (removeFixedBinding otherTypeVar) g2 of
                    None \<Rightarrow> None
                  | Some g3 \<Rightarrow> unbindLoop fuel cs typeVar rest (otherTypeVar # knownTypeVars) g3)))"

definition unbindTypeVariable ::
  "nat \<Rightarrow> ConstraintSystem \<Rightarrow> tvar \<Rightarrow> ty \<Rightarrow> ConstraintGraph \<Rightarrow> ConstraintGraph option" where
  "unbindTypeVariable fuel cs typeVar fixed g =
     (if \<not> hasTypeVariable fixed then Some g
      else
        case lookupNode fuel cs typeVar g of
          None \<Rightarrow> None
        | Some g1 \<Rightarrow> unbindLoop fuel cs typeVar (getTypeVariables fixed) [] g1)"

subsection \<open>Scopes and the journal\<close>

definition eraseEquivalenceClass :: "nat \<Rightarrow> ConstraintGraphNode \<Rightarrow> ConstraintGraphNode option" where
  "eraseEquivalenceClass prevSize n =
     (if prevSize \<le> length (EquivalenceClass n)
      then Some (n\<lparr>EquivalenceClass := take prevSize (EquivalenceClass n)\<rparr>)
      else None)"

text \<open>\<^verbatim>\<open>Change::undo\<close>: the active scope is null while the change is undone and is
  restored afterwards.\<close>

definition undo ::
  "nat \<Rightarrow> ConstraintSystem \<Rightarrow> Change \<Rightarrow> ConstraintGraph \<Rightarrow> ConstraintGraph option" where
  "undo fuel cs ch g =
     (let prevActiveScope = ActiveScope g;
          g0 = g\<lparr>ActiveScope := []\<rparr>
      in map_option (\<lambda>g'. g'\<lparr>ActiveScope := prevActiveScope\<rparr>)
           (case ch of
              AddedTypeVariable typeVar \<Rightarrow> removeNode typeVar g0
            | AddedConstraint c \<Rightarrow> removeConstraint fuel cs c g0
            | RemovedConstraint c \<Rightarrow> addConstraint fuel cs c g0
            | ExtendedEquivalenceClass typeVar prevSize \<Rightarrow>
                (case lookupNode fuel cs typeVar g0 of
                   None \<Rightarrow> None
                 | Some g1 \<Rightarrow> onNode typeVar (eraseEquivalenceClass prevSize) g1)
            | BoundTypeVariable typeVar fixed \<Rightarrow> unbindTypeVariable fuel cs typeVar fixed g0))"

definition openScope :: "ConstraintGraph \<Rightarrow> ConstraintGraph" where
  "openScope g = g\<lparr>ActiveScope := length (Changes g) # ActiveScope g\<rparr>"

subsection \<open>The journal grows only while a scope is active\<close>

lemma recordChange_frame [simp]:
  "ActiveScope (recordChange ch g) = ActiveScope g"
  "graphNode (recordChange ch g) = graphNode g"
  "graphIndex (recordChange ch g) = graphIndex g"
  "TypeVariables (recordChange ch g) = TypeVariables g"
  "OrphanedConstraints (recordChange ch g) = OrphanedConstraints g"
  by (simp_all add: recordChange_def)

lemma recordChange_Changes:
  "Changes (recordChange ch g) = (if ActiveScope g \<noteq> [] then Changes g @ [ch] else Changes g)"
  by (simp add: recordChange_def)

lemma onNode_frame:
  assumes "onNode tv f g = Some g'"
  shows "ActiveScope g' = ActiveScope g" "Changes g' = Changes g"
    "TypeVariables g' = TypeVariables g" "graphIndex g' = graphIndex g"
    "OrphanedConstraints g' = OrphanedConstraints g"
    "dom (graphNode g') = dom (graphNode g)"
  using assms by (auto simp: onNode_def setNode_def split: option.splits if_splits)

lemma createNode_frame [simp]:
  "ActiveScope (createNode tv g) = ActiveScope g"
  "OrphanedConstraints (createNode tv g) = OrphanedConstraints g"
  "TypeVariables (createNode tv g) = TypeVariables g @ [tv]"
  by (simp_all add: createNode_def)

subsection \<open>Unfolding the mutually recursive operations\<close>

lemma lookupNode_existing:
  "graphNode g tv = Some n \<Longrightarrow> lookupNode fuel cs tv g =
     (if graphIndex g tv < length (TypeVariables g) \<and> TypeVariables g ! graphIndex g tv = tv
      then Some g else None)"
  by (subst lookupNode.simps) simp

lemma lookupNode_new_0: "graphNode g tv = None \<Longrightarrow> lookupNode 0 cs tv g = None"
  by (subst lookupNode.simps) simp

lemma lookupNode_new_Suc:
  "graphNode g tv = None \<Longrightarrow> lookupNode (Suc fuel) cs tv g =
     (if tv \<noteq> getRepresentative cs tv
      then mergeNodes fuel cs tv (getRepresentative cs tv) (createNode tv g)
      else (case getFixedType cs tv of
              Some fixed \<Rightarrow> bindTypeVariable fuel cs tv fixed (createNode tv g)
            | None \<Rightarrow> Some (createNode tv g)))"
  by (subst lookupNode.simps) (simp add: Let_def)

text \<open>
  An induction principle for the four operations, read as a big-step relation: one
  case for each way a call can return.
\<close>

lemma graph_ops_induct:
  fixes PL :: "nat \<Rightarrow> ConstraintSystem \<Rightarrow> tvar \<Rightarrow> ConstraintGraph \<Rightarrow> ConstraintGraph \<Rightarrow> bool"
    and PM :: "nat \<Rightarrow> ConstraintSystem \<Rightarrow> tvar \<Rightarrow> tvar \<Rightarrow> ConstraintGraph \<Rightarrow> ConstraintGraph \<Rightarrow> bool"
    and PB :: "nat \<Rightarrow> ConstraintSystem \<Rightarrow> tvar \<Rightarrow> ty \<Rightarrow> ConstraintGraph \<Rightarrow> ConstraintGraph \<Rightarrow> bool"
    and PBL :: "nat \<Rightarrow> ConstraintSystem \<Rightarrow> tvar \<Rightarrow> tvar list \<Rightarrow> tvar list \<Rightarrow> ConstraintGraph \<Rightarrow> ConstraintGraph \<Rightarrow> bool"
  assumes existing: "\<And>fuel cs tv g n. graphNode g tv = Some n \<Longrightarrow>
        graphIndex g tv < length (TypeVariables g) \<Longrightarrow>
        TypeVariables g ! graphIndex g tv = tv \<Longrightarrow> PL fuel cs tv g g"
    and createMerge: "\<And>fuel cs tv g g'. graphNode g tv = None \<Longrightarrow>
        tv \<noteq> getRepresentative cs tv \<Longrightarrow>
        mergeNodes fuel cs tv (getRepresentative cs tv) (createNode tv g) = Some g' \<Longrightarrow>
        PM fuel cs tv (getRepresentative cs tv) (createNode tv g) g' \<Longrightarrow>
        PL (Suc fuel) cs tv g g'"
    and createBind: "\<And>fuel cs tv g fixed g'. graphNode g tv = None \<Longrightarrow>
        tv = getRepresentative cs tv \<Longrightarrow> getFixedType cs tv = Some fixed \<Longrightarrow>
        bindTypeVariable fuel cs tv fixed (createNode tv g) = Some g' \<Longrightarrow>
        PB fuel cs tv fixed (createNode tv g) g' \<Longrightarrow>
        PL (Suc fuel) cs tv g g'"
    and createPlain: "\<And>fuel cs tv g. graphNode g tv = None \<Longrightarrow>
        tv = getRepresentative cs tv \<Longrightarrow> getFixedType cs tv = None \<Longrightarrow>
        PL (Suc fuel) cs tv g (createNode tv g)"
    and merge: "\<And>fuel cs tv1 tv2 g g1 g2 g3 g' r nr.
        getRepresentative cs tv1 = getRepresentative cs tv2 \<Longrightarrow>
        r = getRepresentative cs tv1 \<Longrightarrow>
        lookupNode fuel cs r g = Some g1 \<Longrightarrow> PL fuel cs r g g1 \<Longrightarrow>
        tv1 = r \<or> tv2 = r \<Longrightarrow> nr = (if tv1 = r then tv2 else tv1) \<Longrightarrow>
        recordExtendedEquivalenceClass cs r g1 = Some g2 \<Longrightarrow>
        lookupNode fuel cs nr g2 = Some g3 \<Longrightarrow> PL fuel cs nr g2 g3 \<Longrightarrow>
        mergeEquivalenceClass cs r nr g3 = Some g' \<Longrightarrow>
        PM fuel cs tv1 tv2 g g'"
    and bindNone: "\<And>fuel cs tv fixed g. \<not> hasTypeVariable fixed \<Longrightarrow> PB fuel cs tv fixed g g"
    and bind: "\<And>fuel cs tv fixed g g1 g2. hasTypeVariable fixed \<Longrightarrow>
        lookupNode fuel cs tv g = Some g1 \<Longrightarrow> PL fuel cs tv g g1 \<Longrightarrow>
        bindLoop fuel cs tv (getTypeVariables fixed) [] g1 = Some g2 \<Longrightarrow>
        PBL fuel cs tv (getTypeVariables fixed) [] g1 g2 \<Longrightarrow>
        PB fuel cs tv fixed g (recordChange (BoundTypeVariable tv fixed) g2)"
    and loopNil: "\<And>fuel cs tv known g. PBL fuel cs tv [] known g g"
    and loopKnown: "\<And>fuel cs tv other rest known g g'. other \<in> set known \<Longrightarrow>
        bindLoop fuel cs tv rest known g = Some g' \<Longrightarrow> PBL fuel cs tv rest known g g' \<Longrightarrow>
        PBL fuel cs tv (other # rest) known g g'"
    and loopSelf: "\<And>fuel cs tv rest known g g'. tv \<notin> set known \<Longrightarrow>
        bindLoop fuel cs tv rest (tv # known) g = Some g' \<Longrightarrow>
        PBL fuel cs tv rest (tv # known) g g' \<Longrightarrow>
        PBL fuel cs tv (tv # rest) known g g'"
    and loopStep: "\<And>fuel cs tv other rest known g g1 g2 g'. other \<notin> set known \<Longrightarrow>
        tv \<noteq> other \<Longrightarrow> lookupNode fuel cs other g = Some g1 \<Longrightarrow> PL fuel cs other g g1 \<Longrightarrow>
        addFixedBindingPair tv other g1 = Some g2 \<Longrightarrow>
        bindLoop fuel cs tv rest (other # known) g2 = Some g' \<Longrightarrow>
        PBL fuel cs tv rest (other # known) g2 g' \<Longrightarrow>
        PBL fuel cs tv (other # rest) known g g'"
  shows "lookupNode fuel cs tv g = Some g' \<Longrightarrow> PL fuel cs tv g g'"
    and "mergeNodes fuel cs tv1 tv2 g = Some g' \<Longrightarrow> PM fuel cs tv1 tv2 g g'"
    and "bindTypeVariable fuel cs tv fixed g = Some g' \<Longrightarrow> PB fuel cs tv fixed g g'"
    and "bindLoop fuel cs tv tvs known g = Some g' \<Longrightarrow> PBL fuel cs tv tvs known g g'"
proof (induction fuel cs tv g and fuel cs tv1 tv2 g and fuel cs tv fixed g
    and fuel cs tv tvs known g arbitrary: g' and g' and g' and g'
    rule: lookupNode_mergeNodes_bindTypeVariable_bindLoop.induct)
  case (1 fuel cs typeVar g)
  show ?case
  proof (cases "graphNode g typeVar")
    case (Some n)
    with "1.prems" show ?thesis
      by (auto simp: lookupNode_existing split: if_splits intro: existing)
  next
    case None
    show ?thesis
    proof (cases fuel)
      case 0
      with None "1.prems" show ?thesis by (simp add: lookupNode_new_0)
    next
      case (Suc fuel')
      note unf = "1.prems"[unfolded Suc lookupNode_new_Suc[OF None]]
      show ?thesis
      proof (cases "typeVar \<noteq> getRepresentative cs typeVar")
        case True
        with unf have m: "mergeNodes fuel' cs typeVar (getRepresentative cs typeVar) (createNode typeVar g) = Some g'"
          by simp
        have "PM fuel' cs typeVar (getRepresentative cs typeVar) (createNode typeVar g) g'"
          by (rule "1.IH"(1)[OF None Suc refl refl True m])
        with None True m show ?thesis unfolding Suc by (rule createMerge)
      next
        case False
        show ?thesis
        proof (cases "getFixedType cs typeVar")
          case NoneF: None
          with unf False have "g' = createNode typeVar g" by simp
          with None False NoneF show ?thesis unfolding Suc by (simp add: createPlain)
        next
          case (Some fixed)
          with unf False have b: "bindTypeVariable fuel' cs typeVar fixed (createNode typeVar g) = Some g'"
            by simp
          from False have eq: "typeVar = getRepresentative cs typeVar" by simp
          have "PB fuel' cs typeVar fixed (createNode typeVar g) g'"
            using "1.IH"(2)[OF None Suc refl refl False _ b] Some eq by simp
          with None eq Some b show ?thesis unfolding Suc by (rule createBind)
        qed
      qed
    qed
  qed
next
  case (2 fuel cs typeVar1 typeVar2 g)
  define r where "r = getRepresentative cs typeVar1"
  define nr where "nr = (if typeVar1 = r then typeVar2 else typeVar1)"
  from "2.prems" have req: "getRepresentative cs typeVar1 = getRepresentative cs typeVar2"
    by (subst (asm) mergeNodes.simps) (simp split: if_splits)
  from "2.prems" req obtain g1 where l1: "lookupNode fuel cs r g = Some g1"
    by (subst (asm) mergeNodes.simps) (auto simp: r_def Let_def split: option.splits)
  from "2.prems" req l1 have isrep: "typeVar1 = r \<or> typeVar2 = r"
    by (subst (asm) mergeNodes.simps) (auto simp: r_def Let_def split: option.splits if_splits)
  from "2.prems" req l1 isrep obtain g2 where
    rec: "recordExtendedEquivalenceClass cs r g1 = Some g2"
    by (subst (asm) mergeNodes.simps) (auto simp: r_def Let_def split: option.splits if_splits)
  from "2.prems" req l1 isrep rec obtain g3 where l3: "lookupNode fuel cs nr g2 = Some g3"
    by (subst (asm) mergeNodes.simps)
      (auto simp: r_def nr_def Let_def split: option.splits if_splits)
  from "2.prems" req l1 isrep rec l3 have fin: "mergeEquivalenceClass cs r nr g3 = Some g'"
    by (subst (asm) mergeNodes.simps)
      (auto simp: r_def nr_def Let_def split: option.splits if_splits)
  have p1: "PL fuel cs r g g1"
    using "2.IH"(1)[OF _ r_def] req l1 by simp
  have p3: "PL fuel cs nr g2 g3"
    using "2.IH"(2)[OF _ r_def l1 _ nr_def rec l3] req isrep by simp
  show ?case
    by (rule merge[OF req r_def l1 p1 isrep nr_def rec l3 p3 fin])
next
  case (3 fuel cs typeVar fixed g)
  show ?case
  proof (cases "hasTypeVariable fixed")
    case False
    with "3.prems" have "g' = g" by (subst (asm) bindTypeVariable.simps) simp
    with False show ?thesis by (simp add: bindNone)
  next
    case True
    from "3.prems" True obtain g1 where l1: "lookupNode fuel cs typeVar g = Some g1"
      by (subst (asm) bindTypeVariable.simps) (auto split: option.splits)
    from "3.prems" True l1 obtain g2 where
      l2: "bindLoop fuel cs typeVar (getTypeVariables fixed) [] g1 = Some g2"
      by (subst (asm) bindTypeVariable.simps) (auto split: option.splits)
    from "3.prems" True l1 l2 have g': "g' = recordChange (BoundTypeVariable typeVar fixed) g2"
      by (subst (asm) bindTypeVariable.simps) (auto split: option.splits)
    have p1: "PL fuel cs typeVar g g1" using "3.IH"(1)[OF _ l1] True by simp
    have p2: "PBL fuel cs typeVar (getTypeVariables fixed) [] g1 g2"
      using "3.IH"(2)[OF _ l1 l2] True by simp
    show ?thesis unfolding g' by (rule bind[OF True l1 p1 l2 p2])
  qed
next
  case (4 fuel cs typeVar knownTypeVars g)
  then show ?case by (simp add: bindLoop.simps loopNil)
next
  case (5 fuel cs typeVar otherTypeVar rest knownTypeVars g)
  note unf = "5.prems"[unfolded bindLoop.simps(2)[of fuel cs typeVar otherTypeVar rest knownTypeVars g]]
  show ?case
  proof (cases "otherTypeVar \<in> set knownTypeVars")
    case True
    with unf have b: "bindLoop fuel cs typeVar rest knownTypeVars g = Some g'" by simp
    from "5.IH"(1)[OF True b] True b show ?thesis by (rule loopKnown[rotated 2])
  next
    case False
    show ?thesis
    proof (cases "typeVar = otherTypeVar")
      case True
      with unf False have b: "bindLoop fuel cs typeVar rest (otherTypeVar # knownTypeVars) g = Some g'"
        by simp
      have "PBL fuel cs typeVar rest (otherTypeVar # knownTypeVars) g g'"
        by (rule "5.IH"(2)[OF False True b])
      with False b True show ?thesis by (simp add: loopSelf)
    next
      case ne: False
      from unf False ne obtain g1 where l1: "lookupNode fuel cs otherTypeVar g = Some g1"
        by (auto split: option.splits)
      from unf False ne l1 obtain g2 where a: "addFixedBindingPair typeVar otherTypeVar g1 = Some g2"
        by (auto split: option.splits)
      from unf False ne l1 a have b: "bindLoop fuel cs typeVar rest (otherTypeVar # knownTypeVars) g2 = Some g'"
        by (auto split: option.splits)
      have p1: "PL fuel cs otherTypeVar g g1" by (rule "5.IH"(3)[OF False ne l1])
      have p2: "PBL fuel cs typeVar rest (otherTypeVar # knownTypeVars) g2 g'"
        by (rule "5.IH"(4)[OF False ne l1 a b])
      show ?thesis by (rule loopStep[OF False ne l1 p1 a b p2])
    qed
  qed
qed

text \<open>The same principle for a reflexive and transitive relation between the graph
  before and after: it is enough to check the primitive steps.\<close>

lemma graph_ops_rel:
  fixes R :: "ConstraintGraph \<Rightarrow> ConstraintGraph \<Rightarrow> bool"
  assumes rfl: "\<And>g. R g g"
    and trn: "\<And>a b c. R a b \<Longrightarrow> R b c \<Longrightarrow> R a c"
    and create: "\<And>tv g. graphNode g tv = None \<Longrightarrow> R g (createNode tv g)"
    and recExt: "\<And>cs r g g'. recordExtendedEquivalenceClass cs r g = Some g' \<Longrightarrow> R g g'"
    and mergeEC: "\<And>cs r nr g g'. mergeEquivalenceClass cs r nr g = Some g' \<Longrightarrow> R g g'"
    and pair: "\<And>tv other g g'. tv \<noteq> other \<Longrightarrow> addFixedBindingPair tv other g = Some g' \<Longrightarrow> R g g'"
    and recBound: "\<And>tv fixed g. hasTypeVariable fixed \<Longrightarrow>
        R g (recordChange (BoundTypeVariable tv fixed) g)"
  shows "lookupNode fuel cs tv g = Some g' \<Longrightarrow> R g g'"
    and "mergeNodes fuel cs tv1 tv2 g = Some g' \<Longrightarrow> R g g'"
    and "bindTypeVariable fuel cs tv fixed g = Some g' \<Longrightarrow> R g g'"
    and "bindLoop fuel cs tv tvs known g = Some g' \<Longrightarrow> R g g'"
proof -
  have A1: "\<And>fuel cs tv g n. graphNode g tv = Some n \<Longrightarrow>
        graphIndex g tv < length (TypeVariables g) \<Longrightarrow>
        TypeVariables g ! graphIndex g tv = tv \<Longrightarrow> R g g"
    by (rule rfl)
  have A2: "\<And>fuel cs tv g g'. graphNode g tv = None \<Longrightarrow>
        tv \<noteq> getRepresentative cs tv \<Longrightarrow>
        mergeNodes fuel cs tv (getRepresentative cs tv) (createNode tv g) = Some g' \<Longrightarrow>
        R (createNode tv g) g' \<Longrightarrow> R g g'"
    by (metis create trn)
  have A3: "\<And>fuel cs tv g fixed g'. graphNode g tv = None \<Longrightarrow>
        tv = getRepresentative cs tv \<Longrightarrow> getFixedType cs tv = Some fixed \<Longrightarrow>
        bindTypeVariable fuel cs tv fixed (createNode tv g) = Some g' \<Longrightarrow>
        R (createNode tv g) g' \<Longrightarrow> R g g'"
    by (metis create trn)
  have A4: "\<And>fuel cs tv g. graphNode g tv = None \<Longrightarrow>
        tv = getRepresentative cs tv \<Longrightarrow> getFixedType cs tv = None \<Longrightarrow>
        R g (createNode tv g)"
    using create by blast
  have A5: "\<And>fuel cs tv1 tv2 g g1 g2 g3 g' r nr.
        getRepresentative cs tv1 = getRepresentative cs tv2 \<Longrightarrow>
        r = getRepresentative cs tv1 \<Longrightarrow>
        lookupNode fuel cs r g = Some g1 \<Longrightarrow> R g g1 \<Longrightarrow>
        tv1 = r \<or> tv2 = r \<Longrightarrow> nr = (if tv1 = r then tv2 else tv1) \<Longrightarrow>
        recordExtendedEquivalenceClass cs r g1 = Some g2 \<Longrightarrow>
        lookupNode fuel cs nr g2 = Some g3 \<Longrightarrow> R g2 g3 \<Longrightarrow>
        mergeEquivalenceClass cs r nr g3 = Some g' \<Longrightarrow> R g g'"
    by (metis recExt mergeEC trn)
  have A6: "\<And>fuel cs tv fixed g. \<not> hasTypeVariable fixed \<Longrightarrow> R g g"
    by (rule rfl)
  have A7: "\<And>fuel cs tv fixed g g1 g2. hasTypeVariable fixed \<Longrightarrow>
        lookupNode fuel cs tv g = Some g1 \<Longrightarrow> R g g1 \<Longrightarrow>
        bindLoop fuel cs tv (getTypeVariables fixed) [] g1 = Some g2 \<Longrightarrow>
        R g1 g2 \<Longrightarrow> R g (recordChange (BoundTypeVariable tv fixed) g2)"
    by (metis recBound trn)
  have A8: "\<And>fuel cs tv known g. R g g"
    by (rule rfl)
  have A9: "\<And>fuel cs tv other rest known g g'. other \<in> set known \<Longrightarrow>
        bindLoop fuel cs tv rest known g = Some g' \<Longrightarrow> R g g' \<Longrightarrow> R g g'"
    by assumption
  have A10: "\<And>fuel cs tv rest known g g'. tv \<notin> set known \<Longrightarrow>
        bindLoop fuel cs tv rest (tv # known) g = Some g' \<Longrightarrow> R g g' \<Longrightarrow> R g g'"
    by assumption
  have A11: "\<And>fuel cs tv other rest known g g1 g2 g'. other \<notin> set known \<Longrightarrow>
        tv \<noteq> other \<Longrightarrow> lookupNode fuel cs other g = Some g1 \<Longrightarrow> R g g1 \<Longrightarrow>
        addFixedBindingPair tv other g1 = Some g2 \<Longrightarrow>
        bindLoop fuel cs tv rest (other # known) g2 = Some g' \<Longrightarrow> R g2 g' \<Longrightarrow> R g g'"
    by (metis pair trn)
  note ind = graph_ops_induct[where PL = "\<lambda>_ _ _. R" and PM = "\<lambda>_ _ _ _. R"
      and PB = "\<lambda>_ _ _ _. R" and PBL = "\<lambda>_ _ _ _ _. R",
      OF A1 A2 A3 A4 A5 A6 A7 A8 A9 A10 A11]
  show "lookupNode fuel cs tv g = Some g' \<Longrightarrow> R g g'" by (rule ind(1))
  show "mergeNodes fuel cs tv1 tv2 g = Some g' \<Longrightarrow> R g g'" by (rule ind(2))
  show "bindTypeVariable fuel cs tv fixed g = Some g' \<Longrightarrow> R g g'" by (rule ind(3))
  show "bindLoop fuel cs tv tvs known g = Some g' \<Longrightarrow> R g g'" by (rule ind(4))
qed

subsection \<open>Frame properties of the primitive steps\<close>

lemma createNode_Changes:
  "Changes (createNode tv g) =
     (if ActiveScope g \<noteq> [] then Changes g @ [AddedTypeVariable tv] else Changes g)"
  by (simp add: createNode_def recordChange_def)

lemma createNode_graphNode [simp]:
  "graphNode (createNode tv g) = (graphNode g)(tv \<mapsto> newNode tv)"
  by (simp add: createNode_def)

lemma createNode_graphIndex [simp]:
  "graphIndex (createNode tv g) = (graphIndex g)(tv := length (TypeVariables g))"
  by (simp add: createNode_def)

lemma recordExtended_frame:
  assumes "recordExtendedEquivalenceClass cs r g = Some g'"
  shows "ActiveScope g' = ActiveScope g" "TypeVariables g' = TypeVariables g"
    "graphIndex g' = graphIndex g" "OrphanedConstraints g' = OrphanedConstraints g"
    "dom (graphNode g') = dom (graphNode g)"
    "ActiveScope g = [] \<Longrightarrow> g' = g"
proof -
  show "ActiveScope g = [] \<Longrightarrow> g' = g"
    using assms by (simp add: recordExtendedEquivalenceClass_def)
  show "ActiveScope g' = ActiveScope g" "TypeVariables g' = TypeVariables g"
    "graphIndex g' = graphIndex g" "OrphanedConstraints g' = OrphanedConstraints g"
    "dom (graphNode g') = dom (graphNode g)"
  proof -
    consider "g' = g" | g1 ch where "onNode r (\<lambda>n. Some (materialize n)) g = Some g1"
      "g' = recordChange ch g1"
      using assms
      by (auto simp: recordExtendedEquivalenceClass_def split: if_splits option.splits)
    then have "ActiveScope g' = ActiveScope g \<and> TypeVariables g' = TypeVariables g \<and>
      graphIndex g' = graphIndex g \<and> OrphanedConstraints g' = OrphanedConstraints g \<and>
      dom (graphNode g') = dom (graphNode g)"
    proof cases
      case 1
      then show ?thesis by simp
    next
      case 2
      from onNode_frame[OF 2(1)] 2(2) show ?thesis by simp
    qed
    then show "ActiveScope g' = ActiveScope g" "TypeVariables g' = TypeVariables g"
      "graphIndex g' = graphIndex g" "OrphanedConstraints g' = OrphanedConstraints g"
      "dom (graphNode g') = dom (graphNode g)" by simp_all
  qed
qed

lemma mergeEquivalenceClass_frame:
  assumes "mergeEquivalenceClass cs r nr g = Some g'"
  shows "ActiveScope g' = ActiveScope g" "TypeVariables g' = TypeVariables g"
    "graphIndex g' = graphIndex g" "OrphanedConstraints g' = OrphanedConstraints g"
    "dom (graphNode g') = dom (graphNode g)" "Changes g' = Changes g"
proof -
  from assms obtain g1 where
    a: "onNode nr (\<lambda>n. Some (materialize n)) g = Some g1" and
    b: "onNode r (addToEquivalenceClass cs (EquivalenceClass (the (graphNode g1 nr)))) g1 = Some g'"
    by (auto simp: mergeEquivalenceClass_def split: option.splits)
  show "ActiveScope g' = ActiveScope g" "TypeVariables g' = TypeVariables g"
    "graphIndex g' = graphIndex g" "OrphanedConstraints g' = OrphanedConstraints g"
    "dom (graphNode g') = dom (graphNode g)" "Changes g' = Changes g"
    using onNode_frame[OF a] onNode_frame[OF b] by simp_all
qed

lemma addFixedBindingPair_frame:
  assumes "addFixedBindingPair tv other g = Some g'"
  shows "ActiveScope g' = ActiveScope g" "TypeVariables g' = TypeVariables g"
    "graphIndex g' = graphIndex g" "OrphanedConstraints g' = OrphanedConstraints g"
    "dom (graphNode g') = dom (graphNode g)" "Changes g' = Changes g"
proof -
  from assms obtain g1 where
    a: "onNode other (\<lambda>n. Some (addFixedBinding tv n)) g = Some g1" and
    b: "onNode tv (\<lambda>n. Some (addFixedBinding other n)) g1 = Some g'"
    by (auto simp: addFixedBindingPair_def split: option.splits)
  show "ActiveScope g' = ActiveScope g" "TypeVariables g' = TypeVariables g"
    "graphIndex g' = graphIndex g" "OrphanedConstraints g' = OrphanedConstraints g"
    "dom (graphNode g') = dom (graphNode g)" "Changes g' = Changes g"
    using onNode_frame[OF a] onNode_frame[OF b] by simp_all
qed

text \<open>What no operation of the mutual block changes: the active scope and the
  orphaned constraints; nodes are never removed; and without an active scope the
  journal is left alone.\<close>

definition opFrame :: "ConstraintGraph \<Rightarrow> ConstraintGraph \<Rightarrow> bool" where
  "opFrame g g' \<longleftrightarrow>
     ActiveScope g' = ActiveScope g \<and>
     OrphanedConstraints g' = OrphanedConstraints g \<and>
     dom (graphNode g) \<subseteq> dom (graphNode g') \<and>
     (ActiveScope g = [] \<longrightarrow> Changes g' = Changes g) \<and>
     (\<exists>new. Changes g' = Changes g @ new)"

lemma opFrame_ops:
  "lookupNode fuel cs tv g = Some g' \<Longrightarrow> opFrame g g'"
  "mergeNodes fuel cs tv1 tv2 g = Some g' \<Longrightarrow> opFrame g g'"
  "bindTypeVariable fuel cs tv fixed g = Some g' \<Longrightarrow> opFrame g g'"
  "bindLoop fuel cs tv tvs known g = Some g' \<Longrightarrow> opFrame g g'"
proof -
  have rfl: "\<And>g. opFrame g g" by (simp add: opFrame_def)
  have trn: "\<And>a b c. opFrame a b \<Longrightarrow> opFrame b c \<Longrightarrow> opFrame a c"
    by (auto simp: opFrame_def)
  have create: "\<And>tv g. graphNode g tv = None \<Longrightarrow> opFrame g (createNode tv g)"
    by (auto simp: opFrame_def createNode_Changes)
  have recExt: "\<And>cs r g g'. recordExtendedEquivalenceClass cs r g = Some g' \<Longrightarrow> opFrame g g'"
  proof -
    fix cs r g g' assume a: "recordExtendedEquivalenceClass cs r g = Some g'"
    have "\<exists>new. Changes g' = Changes g @ new"
      using a by (auto simp: recordExtendedEquivalenceClass_def recordChange_Changes
          split: if_splits option.splits dest: onNode_frame(2))
    with recordExtended_frame[OF a] show "opFrame g g'" by (auto simp: opFrame_def)
  qed
  have mergeEC: "\<And>cs r nr g g'. mergeEquivalenceClass cs r nr g = Some g' \<Longrightarrow> opFrame g g'"
    by (auto simp: opFrame_def dest: mergeEquivalenceClass_frame)
  have pair: "\<And>tv other g g'. tv \<noteq> other \<Longrightarrow> addFixedBindingPair tv other g = Some g' \<Longrightarrow> opFrame g g'"
    by (auto simp: opFrame_def dest: addFixedBindingPair_frame)
  have recBound: "\<And>tv fixed g. hasTypeVariable fixed \<Longrightarrow>
        opFrame g (recordChange (BoundTypeVariable tv fixed) g)"
    by (auto simp: opFrame_def recordChange_Changes)
  note r = graph_ops_rel[where R = opFrame, OF rfl trn create recExt mergeEC pair recBound]
  show "lookupNode fuel cs tv g = Some g' \<Longrightarrow> opFrame g g'" by (rule r(1))
  show "mergeNodes fuel cs tv1 tv2 g = Some g' \<Longrightarrow> opFrame g g'" by (rule r(2))
  show "bindTypeVariable fuel cs tv fixed g = Some g' \<Longrightarrow> opFrame g g'" by (rule r(3))
  show "bindLoop fuel cs tv tvs known g = Some g' \<Longrightarrow> opFrame g g'" by (rule r(4))
qed

lemma opFrame_refl: "opFrame g g"
  by (simp add: opFrame_def)

lemma opFrame_trans: "opFrame a b \<Longrightarrow> opFrame b c \<Longrightarrow> opFrame a c"
  by (auto simp: opFrame_def)

lemma opFrame_onNode: "onNode tv f g = Some g' \<Longrightarrow> opFrame g g'"
  by (auto simp: opFrame_def dest: onNode_frame)

lemma opFrame_recordChange: "opFrame g (recordChange ch g)"
  by (auto simp: opFrame_def recordChange_Changes)

lemma addConstraintLoop_opFrame:
  "addConstraintLoop fuel cs c tvs g = Some g' \<Longrightarrow> opFrame g g'"
proof (induction tvs arbitrary: g)
  case Nil
  then show ?case by (simp add: opFrame_refl)
next
  case (Cons tv tvs)
  from Cons.prems obtain g1 g2 where
    l: "lookupNode fuel cs tv g = Some g1" and
    a: "onNode tv (nodeAddConstraint c) g1 = Some g2" and
    r: "addConstraintLoop fuel cs c tvs g2 = Some g'"
    by (auto split: option.splits)
  from opFrame_ops(1)[OF l] opFrame_onNode[OF a] Cons.IH[OF r]
  show ?case by (blast intro: opFrame_trans)
qed

lemma removeConstraintLoop_opFrame:
  "removeConstraintLoop fuel cs c tvs g = Some g' \<Longrightarrow> opFrame g g'"
proof (induction tvs arbitrary: g)
  case Nil
  then show ?case by (simp add: opFrame_refl)
next
  case (Cons tv tvs)
  from Cons.prems obtain g1 g2 where
    l: "lookupNode fuel cs tv g = Some g1" and
    a: "onNode tv (nodeRemoveConstraint c) g1 = Some g2" and
    r: "removeConstraintLoop fuel cs c tvs g2 = Some g'"
    by (auto split: option.splits)
  from opFrame_ops(1)[OF l] opFrame_onNode[OF a] Cons.IH[OF r]
  show ?case by (blast intro: opFrame_trans)
qed

lemma unbindLoop_opFrame:
  "unbindLoop fuel cs tv tvs known g = Some g' \<Longrightarrow> opFrame g g'"
proof (induction tvs arbitrary: g known)
  case Nil
  then show ?case by (simp add: opFrame_refl)
next
  case (Cons other tvs)
  show ?case
  proof (cases "other \<in> set known")
    case True
    with Cons show ?thesis by simp
  next
    case False
    with Cons.prems obtain g1 g2 g3 where
      l: "lookupNode fuel cs other g = Some g1" and
      a: "onNode other (removeFixedBinding tv) g1 = Some g2" and
      b: "onNode tv (removeFixedBinding other) g2 = Some g3" and
      r: "unbindLoop fuel cs tv tvs (other # known) g3 = Some g'"
      by (auto split: option.splits)
    from opFrame_ops(1)[OF l] opFrame_onNode[OF a] opFrame_onNode[OF b] Cons.IH[OF r]
    show ?thesis by (blast intro: opFrame_trans)
  qed
qed

text \<open>The journal and the active scope across the operations on constraints.\<close>

lemma addConstraint_journal:
  assumes "addConstraint fuel cs c g = Some g'"
  shows "ActiveScope g' = ActiveScope g"
    and "ActiveScope g = [] \<Longrightarrow> Changes g' = Changes g"
    and "\<exists>new. Changes g' = Changes g @ new"
proof -
  from assms obtain g1 g2 where
    l: "addConstraintLoop fuel cs c (constraintTypeVariables c) g = Some g1" and
    g2: "g2 = (if constraintTypeVariables c = []
               then g1\<lparr>OrphanedConstraints := OrphanedConstraints g1 @ [c]\<rparr> else g1)" and
    g': "g' = recordChange (AddedConstraint c) g2"
    by (auto simp: addConstraint_def Let_def split: option.splits)
  from addConstraintLoop_opFrame[OF l] g2 g'
  show "ActiveScope g' = ActiveScope g" "ActiveScope g = [] \<Longrightarrow> Changes g' = Changes g"
    "\<exists>new. Changes g' = Changes g @ new"
    by (auto simp: opFrame_def recordChange_Changes)
qed

lemma removeConstraint_journal:
  assumes "removeConstraint fuel cs c g = Some g'"
  shows "ActiveScope g' = ActiveScope g"
    and "ActiveScope g = [] \<Longrightarrow> Changes g' = Changes g"
    and "\<exists>new. Changes g' = Changes g @ new"
proof -
  from assms obtain g1 g2 where
    l: "removeConstraintLoop fuel cs c (constraintTypeVariables c) g = Some g1" and
    g2: "ActiveScope g2 = ActiveScope g1 \<and> Changes g2 = Changes g1" and
    g': "g' = recordChange (RemovedConstraint c) g2"
  proof -
    from assms obtain g1 where
      l: "removeConstraintLoop fuel cs c (constraintTypeVariables c) g = Some g1"
      by (auto simp: removeConstraint_def split: option.splits)
    with assms obtain g2 where
      s: "(if constraintTypeVariables c = []
                 then map_option (\<lambda>os. g1\<lparr>OrphanedConstraints := os\<rparr>)
                        (removeOrphaned c (OrphanedConstraints g1))
                 else Some g1) = Some g2" and g': "g' = recordChange (RemovedConstraint c) g2"
      by (auto simp: removeConstraint_def split: option.splits)
    from s have "ActiveScope g2 = ActiveScope g1 \<and> Changes g2 = Changes g1"
      by (auto split: if_splits)
    with l g' show ?thesis using that by blast
  qed
  from removeConstraintLoop_opFrame[OF l] g2 g'
  show "ActiveScope g' = ActiveScope g" "ActiveScope g = [] \<Longrightarrow> Changes g' = Changes g"
    "\<exists>new. Changes g' = Changes g @ new"
    by (auto simp: opFrame_def recordChange_Changes)
qed

lemma unbindTypeVariable_opFrame:
  "unbindTypeVariable fuel cs tv fixed g = Some g' \<Longrightarrow> opFrame g g'"
  by (auto simp: unbindTypeVariable_def opFrame_refl split: if_splits option.splits
      intro: opFrame_trans[OF opFrame_ops(1) unbindLoop_opFrame])

lemma removeNode_frame:
  assumes "removeNode tv g = Some g'"
  shows "ActiveScope g' = ActiveScope g" "Changes g' = Changes g"
    "OrphanedConstraints g' = OrphanedConstraints g" "graphIndex g' = graphIndex g"
    "graphNode g' = (graphNode g)(tv := None)"
  using assms by (auto simp: removeNode_def Let_def split: if_splits)

lemma undo_journal:
  assumes "undo fuel cs ch g = Some g'"
  shows "Changes g' = Changes g" and "ActiveScope g' = ActiveScope g"
proof -
  let ?g0 = "g\<lparr>ActiveScope := []\<rparr>"
  obtain g1 where g1: "g' = g1\<lparr>ActiveScope := ActiveScope g\<rparr>" and
    step: "(case ch of
              AddedTypeVariable typeVar \<Rightarrow> removeNode typeVar ?g0
            | AddedConstraint c \<Rightarrow> removeConstraint fuel cs c ?g0
            | RemovedConstraint c \<Rightarrow> addConstraint fuel cs c ?g0
            | ExtendedEquivalenceClass typeVar prevSize \<Rightarrow>
                (case lookupNode fuel cs typeVar ?g0 of
                   None \<Rightarrow> None
                 | Some g1 \<Rightarrow> onNode typeVar (eraseEquivalenceClass prevSize) g1)
            | BoundTypeVariable typeVar fixed \<Rightarrow> unbindTypeVariable fuel cs typeVar fixed ?g0) = Some g1"
    using assms by (auto simp: undo_def Let_def)
  have "Changes g1 = Changes ?g0"
  proof (cases ch)
    case (AddedTypeVariable tv)
    with step show ?thesis by (auto dest: removeNode_frame(2))
  next
    case (AddedConstraint c)
    with step removeConstraint_journal(2)[of fuel cs c ?g0 g1] show ?thesis by simp
  next
    case (RemovedConstraint c)
    with step addConstraint_journal(2)[of fuel cs c ?g0 g1] show ?thesis by simp
  next
    case (ExtendedEquivalenceClass tv n)
    with step obtain g2 where l: "lookupNode fuel cs tv ?g0 = Some g2"
      and e: "onNode tv (eraseEquivalenceClass n) g2 = Some g1"
      by (auto split: option.splits)
    from opFrame_ops(1)[OF l] onNode_frame(2)[OF e] show ?thesis
      by (simp add: opFrame_def)
  next
    case (BoundTypeVariable tv fixed)
    with step unbindTypeVariable_opFrame[of fuel cs tv fixed ?g0 g1] show ?thesis
      by (simp add: opFrame_def)
  qed
  with g1 show "Changes g' = Changes g" "ActiveScope g' = ActiveScope g" by simp_all
qed

text \<open>
  \<^verbatim>\<open>~ConstraintGraphScope\<close>: the loop that undoes and pops the changes made since
  the scope was opened, then the step back to the parent scope. The scope that is
  destroyed is the active one.
\<close>

function unwindChanges ::
  "nat \<Rightarrow> ConstraintSystem \<Rightarrow> nat \<Rightarrow> ConstraintGraph \<Rightarrow> ConstraintGraph option" where
  "unwindChanges fuel cs numChanges g =
     (if numChanges < length (Changes g)
      then (case undo fuel cs (last (Changes g)) g of
              None \<Rightarrow> None
            | Some g1 \<Rightarrow> unwindChanges fuel cs numChanges (g1\<lparr>Changes := butlast (Changes g1)\<rparr>))
      else Some g)"
  by pat_completeness auto
termination
  by (relation "measure (\<lambda>(fuel, cs, numChanges, g). length (Changes g))")
     (auto dest: undo_journal(1))

declare unwindChanges.simps [simp del]

definition closeScope ::
  "nat \<Rightarrow> ConstraintSystem \<Rightarrow> ConstraintGraph \<Rightarrow> ConstraintGraph option" where
  "closeScope fuel cs g =
     (case ActiveScope g of
        [] \<Rightarrow> None
      | numChanges # parentScope \<Rightarrow>
          if length (Changes g) < numChanges then None
          else map_option (\<lambda>g'. g'\<lparr>ActiveScope := parentScope\<rparr>)
                 (unwindChanges fuel cs numChanges g))"

subsection \<open>Calls of the mutation interface\<close>

datatype Mutation =
    LookupNodeCall tvar
  | AddConstraintCall Constraint
  | RemoveConstraintCall Constraint
  | MergeNodesCall tvar tvar
  | BindTypeVariableCall tvar ty

fun applyMutation ::
  "nat \<Rightarrow> ConstraintSystem \<Rightarrow> Mutation \<Rightarrow> ConstraintGraph \<Rightarrow> ConstraintGraph option" where
  "applyMutation fuel cs (LookupNodeCall tv) g = lookupNode fuel cs tv g"
| "applyMutation fuel cs (AddConstraintCall c) g = addConstraint fuel cs c g"
| "applyMutation fuel cs (RemoveConstraintCall c) g = removeConstraint fuel cs c g"
| "applyMutation fuel cs (MergeNodesCall tv1 tv2) g = mergeNodes fuel cs tv1 tv2 g"
| "applyMutation fuel cs (BindTypeVariableCall tv fixed) g = bindTypeVariable fuel cs tv fixed g"


subsection \<open>How many journal entries a call appends\<close>



lemma lookupNode_hasNode:
  "lookupNode fuel cs tv g = Some g' \<Longrightarrow> graphNode g tv \<noteq> None \<Longrightarrow> g' = g"
  by (auto simp: lookupNode_existing split: if_splits)






subsection \<open>Concrete graphs\<close>

text \<open>A constraint system in which every type variable is its own representative
  and none has a fixed type.\<close>

definition unboundSystem :: ConstraintSystem where
  "unboundSystem = \<lparr>getRepresentative = (\<lambda>tv. tv), getFixedType = (\<lambda>tv. None)\<rparr>"

definition fixedBindingsOf :: "ConstraintGraph \<Rightarrow> tvar \<Rightarrow> tvar list" where
  "fixedBindingsOf g tv = (case graphNode g tv of None \<Rightarrow> [] | Some n \<Rightarrow> FixedBindings n)"

definition constraintsOf :: "ConstraintGraph \<Rightarrow> tvar \<Rightarrow> Constraint list" where
  "constraintsOf g tv = (case graphNode g tv of None \<Rightarrow> [] | Some n \<Rightarrow> Constraints n)"

text \<open>The class as \<^verbatim>\<open>getEquivalenceClassUnsafe\<close> returns it.\<close>

definition equivalenceClassOf :: "ConstraintGraph \<Rightarrow> tvar \<Rightarrow> tvar list" where
  "equivalenceClassOf g tv =
     (case graphNode g tv of None \<Rightarrow> [] | Some n \<Rightarrow> getEquivalenceClassUnsafe n)"

definition bind01 :: Constraint where
  "bind01 = \<lparr>cid = 1, getKind = Bind, getFirstType = TypeVariableType 0,
     getSecondType = TypeVariableType 1, constraintTypeVariables = [0, 1]\<rparr>"

definition twoNodeGraph :: ConstraintGraph where
  "twoNodeGraph = \<lparr>graphNode = [0 \<mapsto> newNode 0, 1 \<mapsto> newNode 1],
     graphIndex = (\<lambda>_. 0)(1 := 1), TypeVariables = [0, 1],
     OrphanedConstraints = [], Changes = [], ActiveScope = []\<rparr>"

text \<open>Type variable 0 occurs in the fixed types of 1 and of 2.\<close>

definition starGraph :: ConstraintGraph where
  "starGraph = \<lparr>graphNode =
       [1 \<mapsto> (newNode 1)\<lparr>FixedBindings := [0]\<rparr>,
        0 \<mapsto> (newNode 0)\<lparr>FixedBindings := [1, 2]\<rparr>,
        2 \<mapsto> (newNode 2)\<lparr>FixedBindings := [0]\<rparr>],
     graphIndex = (\<lambda>_. 0)(0 := 1, 2 := 2), TypeVariables = [1, 0, 2],
     OrphanedConstraints = [], Changes = [], ActiveScope = []\<rparr>"

text \<open>A fixed type for type variable 0 that mentions 0 itself, and type variable 3.\<close>

definition selfType :: ty where
  "selfType = NominalType 0 [TypeVariableType 0, TypeVariableType 3]"

lemmas graph_eval = lookupNode.simps mergeNodes.simps bindTypeVariable.simps bindLoop.simps
  unwindChanges.simps createNode_def recordChange_def onNode_def setNode_def newNode_def
  addFixedBindingPair_def addFixedBinding_def removeFixedBinding_def hasTypeVariable_def
  unbindTypeVariable_def emptyGraph_def unboundSystem_def openScope_def closeScope_def
  undo_def removeNode_def Let_def fixedBindingsOf_def constraintsOf_def
  equivalenceClassOf_def recordExtendedEquivalenceClass_def mergeEquivalenceClass_def
  materialize_def getEquivalenceClassUnsafe_def addToEquivalenceClass_def
  eraseEquivalenceClass_def addConstraint_def removeConstraint_def removeOrphaned_def
  nodeAddConstraint_def nodeRemoveConstraint_def

lemma twoNodeGraph_reached:
  "Option.bind (lookupNode 1 unboundSystem 0 emptyGraph) (lookupNode 1 unboundSystem 1)
     = Some twoNodeGraph"
  by (simp add: graph_eval twoNodeGraph_def fun_eq_iff)

lemma starGraph_reached:
  "Option.bind (bindTypeVariable 1 unboundSystem 1 (TypeVariableType 0) emptyGraph)
     (bindTypeVariable 1 unboundSystem 2 (TypeVariableType 0)) = Some starGraph"
  by (simp add: graph_eval starGraph_def fun_eq_iff)

text \<open>
  Claim C5. \<^verbatim>\<open>bindTypeVariable\<close> skips the bound variable itself when it occurs in the
  fixed type; \<^verbatim>\<open>unbindTypeVariable\<close> does not, and pops two entries of the variable's
  own node for it. Binding 0 to a type over 0 and 1 in a graph without fixed bindings
  and unbinding it again pops from an empty vector. In \<open>starGraph\<close>, where node 0 has
  the fixed bindings 1 and 2, binding 0 to \<open>selfType\<close> adds the one entry 3 and
  unbinding removes all three.
\<close>

theorem unbind_self_mention_evaluation:
  "Option.bind
     (bindTypeVariable 0 unboundSystem 0
        (NominalType 0 [TypeVariableType 0, TypeVariableType 1]) twoNodeGraph)
     (unbindTypeVariable 0 unboundSystem 0
        (NominalType 0 [TypeVariableType 0, TypeVariableType 1])) = None \<and>
   fixedBindingsOf starGraph 0 = [1, 2] \<and>
   map_option (\<lambda>g. fixedBindingsOf g 0) (bindTypeVariable 1 unboundSystem 0 selfType starGraph)
     = Some [1, 2, 3] \<and>
   map_option (\<lambda>g. fixedBindingsOf g 0)
     (Option.bind (bindTypeVariable 1 unboundSystem 0 selfType starGraph)
        (unbindTypeVariable 0 unboundSystem 0 selfType)) = Some []"
  by (simp add: graph_eval twoNodeGraph_def starGraph_def selfType_def)

text \<open>
  Claim C9. In \<open>starGraph\<close> the fixed bindings are symmetric. A scope is opened, 0 is
  bound to \<open>selfType\<close> and the scope is destroyed: node 0 has lost its fixed bindings
  1 and 2, while the nodes of 1 and 2 still hold 0.
\<close>

theorem scope_unwinding_fixed_bindings_evaluation:
  "map (fixedBindingsOf starGraph) [0, 1, 2] = [[1, 2], [0], [0]] \<and>
   map_option (\<lambda>g. (map (fixedBindingsOf g) [0, 1, 2], TypeVariables g, Changes g, ActiveScope g))
     (Option.bind (bindTypeVariable 1 unboundSystem 0 selfType (openScope starGraph))
        (closeScope 0 unboundSystem))
     = Some ([[], [0], [0]], [1, 0, 2], [], [])"
  by (simp add: graph_eval starGraph_def selfType_def)

subsection \<open>The constraint list of a node and its index\<close>

text \<open>The index map is the inverse of the constraint vector (what
  \<^verbatim>\<open>ConstraintGraphNode::verify\<close> checks).\<close>

definition nodeOK :: "ConstraintGraphNode \<Rightarrow> bool" where
  "nodeOK n \<longleftrightarrow>
     (\<forall>c i. ConstraintIndex n c = Some i \<longleftrightarrow> i < length (Constraints n) \<and> Constraints n ! i = c)"

definition allNodesOK :: "ConstraintGraph \<Rightarrow> bool" where
  "allNodesOK g \<longleftrightarrow> (\<forall>tv n. graphNode g tv = Some n \<longrightarrow> nodeOK n)"

lemma nodeOK_newNode [simp]: "nodeOK (newNode tv)"
  by (simp add: nodeOK_def newNode_def)

lemma nodeOK_distinct: "nodeOK n \<Longrightarrow> distinct (Constraints n)"
  unfolding nodeOK_def distinct_conv_nth
  by (metis option.inject)

lemma nodeOK_index_iff: "nodeOK n \<Longrightarrow> ConstraintIndex n c \<noteq> None \<longleftrightarrow> c \<in> set (Constraints n)"
  unfolding nodeOK_def by (metis in_set_conv_nth not_None_eq)

lemma nodeOK_cong:
  "nodeOK n \<Longrightarrow> Constraints n' = Constraints n \<Longrightarrow> ConstraintIndex n' = ConstraintIndex n \<Longrightarrow>
   nodeOK n'"
  by (simp add: nodeOK_def)

lemma nodeAddConstraint_OK:
  assumes ok: "nodeOK n" and a: "nodeAddConstraint c n = Some n'"
  shows "nodeOK n'" and "Constraints n' = Constraints n @ [c]" and "c \<notin> set (Constraints n)"
proof -
  from a have none: "ConstraintIndex n c = None"
    and n': "n' = n\<lparr>ConstraintIndex := (ConstraintIndex n)(c \<mapsto> length (Constraints n)),
                    Constraints := Constraints n @ [c]\<rparr>"
    by (auto simp: nodeAddConstraint_def split: if_splits)
  from n' show "Constraints n' = Constraints n @ [c]" by simp
  from none ok show notin: "c \<notin> set (Constraints n)" by (simp add: nodeOK_index_iff[symmetric])
  show "nodeOK n'"
    unfolding nodeOK_def
  proof (intro allI)
    fix d i
    show "ConstraintIndex n' d = Some i \<longleftrightarrow> i < length (Constraints n') \<and> Constraints n' ! i = d"
    proof (cases "d = c")
      case True
      with n' notin show ?thesis
        by (auto simp: nth_append in_set_conv_nth)
    next
      case False
      with n' ok show ?thesis
        by (auto simp: nth_append nodeOK_def)
    qed
  qed
qed

lemma mset_swap_remove:
  assumes "i < length xs"
  shows "mset (butlast (xs[i := last xs])) = mset xs - {#xs ! i#}"
proof -
  from assms have ne: "xs \<noteq> []" by auto
  then obtain ys l where xs: "xs = ys @ [l]" by (metis rev_exhaust)
  show ?thesis
  proof (cases "i = length ys")
    case True
    with xs show ?thesis by simp
  next
    case False
    with assms xs have i: "i < length ys" by simp
    with xs have "butlast (xs[i := last xs]) = ys[i := l]" by (simp add: list_update_append)
    moreover from i have "mset (ys[i := l]) = add_mset l (mset ys - {#ys ! i#})"
      by (rule mset_update)
    moreover from i have "ys ! i \<in># mset ys" by simp
    ultimately show ?thesis using xs i
      by (simp add: nth_append)
  qed
qed

lemma nodeRemoveConstraint_OK:
  assumes ok: "nodeOK n" and a: "nodeRemoveConstraint c n = Some n'"
  shows "nodeOK n'" and "c \<in> set (Constraints n)"
    and "mset (Constraints n') = mset (Constraints n) - {#c#}"
proof -
  from a obtain index where ix: "ConstraintIndex n c = Some index"
    by (auto simp: nodeRemoveConstraint_def split: option.splits)
  with ok have lt: "index < length (Constraints n)" and at: "Constraints n ! index = c"
    by (auto simp: nodeOK_def)
  from lt at show cin: "c \<in> set (Constraints n)" by (auto simp: in_set_conv_nth)
  define xs where "xs = Constraints n"
  from lt have ne: "xs \<noteq> []" by (auto simp: xs_def)
  have dist: "distinct xs" using ok by (simp add: xs_def nodeOK_distinct)
  have cons': "Constraints n' = butlast (xs[index := last xs])"
   and idx': "ConstraintIndex n' =
      (if index = length xs - 1 then (ConstraintIndex n)(c := None)
       else ((ConstraintIndex n)(c := None))(last xs \<mapsto> index))"
    using a ix lt at ne
    by (auto simp: nodeRemoveConstraint_def Let_def xs_def last_conv_nth split: if_splits)
  from cons' lt at show "mset (Constraints n') = mset (Constraints n) - {#c#}"
    by (simp add: xs_def mset_swap_remove)
  obtain ys l where xs: "xs = ys @ [l]" using ne by (metis rev_exhaust)
  show "nodeOK n'"
  proof (cases "index = length ys")
    case True
    with cons' idx' xs have c': "Constraints n' = ys" "ConstraintIndex n' = (ConstraintIndex n)(c := None)"
      by simp_all
    from True at xs have cl: "c = l" by (simp add: xs_def[symmetric])
    from dist xs cl have notin: "c \<notin> set ys" by simp
    show ?thesis
      unfolding nodeOK_def c'
    proof (intro allI)
      fix d i
      show "((ConstraintIndex n)(c := None)) d = Some i \<longleftrightarrow> i < length ys \<and> ys ! i = d"
      proof (cases "d = c")
        case True
        with notin show ?thesis by (auto simp: in_set_conv_nth)
      next
        case False
        have "ConstraintIndex n d = Some i \<longleftrightarrow> i < length (ys @ [l]) \<and> (ys @ [l]) ! i = d"
          using ok by (simp add: nodeOK_def xs_def[symmetric] xs)
        with False cl show ?thesis by (auto simp: nth_append split: if_splits)
      qed
    qed
  next
    case False
    with lt xs have i: "index < length ys" by (simp add: xs_def[symmetric])
    with cons' idx' xs False have c': "Constraints n' = ys[index := l]"
      "ConstraintIndex n' = ((ConstraintIndex n)(c := None))(l \<mapsto> index)"
      by (simp_all add: list_update_append)
    from at xs i have cy: "ys ! index = c" by (simp add: xs_def[symmetric] nth_append)
    from dist xs have lnotin: "l \<notin> set ys" and dys: "distinct ys" by simp_all
    from cy i lnotin have cl: "c \<noteq> l" by auto
    show ?thesis
      unfolding nodeOK_def c'
    proof (intro allI)
      fix d i
      have base: "ConstraintIndex n d = Some i \<longleftrightarrow> i < length (ys @ [l]) \<and> (ys @ [l]) ! i = d"
        using ok by (simp add: nodeOK_def xs_def[symmetric] xs)
      show "(((ConstraintIndex n)(c := None))(l \<mapsto> index)) d = Some i \<longleftrightarrow>
            i < length (ys[index := l]) \<and> ys[index := l] ! i = d"
      proof (cases "d = l")
        case True
        with lnotin i show ?thesis
          by (auto simp: nth_list_update in_set_conv_nth split: if_splits)
      next
        case dl: False
        show ?thesis
        proof (cases "d = c")
          case True
          with dl cl dys cy i show ?thesis
            by (auto simp: nth_list_update distinct_conv_nth split: if_splits)
        next
          case False
          show ?thesis
          proof (cases "i = index")
            case True
            with False dl base cy i show ?thesis
              by (auto simp: nth_append split: if_splits)
          next
            case ne: False
            with False dl base cy i show ?thesis
              by (auto simp: nth_append split: if_splits)
          qed
        qed
      qed
    qed
  qed
qed

subsection \<open>Incidence of constraints and nodes\<close>

text \<open>Lookups, merges and bindings leave every constraint list and index alone.\<close>

definition constraintFrame :: "ConstraintGraph \<Rightarrow> ConstraintGraph \<Rightarrow> bool" where
  "constraintFrame g g' \<longleftrightarrow>
     (\<forall>tv. constraintsOf g' tv = constraintsOf g tv) \<and>
     (allNodesOK g \<longrightarrow> allNodesOK g') \<and>
     OrphanedConstraints g' = OrphanedConstraints g"

lemma constraintFrame_onNode:
  assumes "onNode tv f g = Some g'"
    and "\<And>n n'. f n = Some n' \<Longrightarrow>
           Constraints n' = Constraints n \<and> ConstraintIndex n' = ConstraintIndex n"
  shows "constraintFrame g g'"
proof -
  from assms(1) obtain n n' where n: "graphNode g tv = Some n" "f n = Some n'"
    and g': "g' = setNode tv n' g"
    by (auto simp: onNode_def split: option.splits)
  from assms(2)[OF n(2)] have eq: "Constraints n' = Constraints n"
    "ConstraintIndex n' = ConstraintIndex n" by simp_all
  have "\<forall>v. constraintsOf g' v = constraintsOf g v"
    using n g' eq by (auto simp: constraintsOf_def setNode_def)
  moreover have "allNodesOK g \<longrightarrow> allNodesOK g'"
    using n g' eq by (auto simp: allNodesOK_def setNode_def intro: nodeOK_cong)
  moreover have "OrphanedConstraints g' = OrphanedConstraints g"
    using g' by (simp add: setNode_def)
  ultimately show ?thesis by (simp add: constraintFrame_def)
qed

lemma constraintFrame_refl: "constraintFrame g g"
  by (simp add: constraintFrame_def)

lemma constraintFrame_trans:
  "constraintFrame a b \<Longrightarrow> constraintFrame b c \<Longrightarrow> constraintFrame a c"
  by (simp add: constraintFrame_def)

lemma constraintFrame_recordChange: "constraintFrame g (recordChange ch g)"
  by (simp add: constraintFrame_def constraintsOf_def allNodesOK_def)

lemma newNode_fields [simp]:
  "Constraints (newNode tv) = []" "FixedBindings (newNode tv) = []"
  "EquivalenceClass (newNode tv) = []" "TypeVar (newNode tv) = tv"
  "ConstraintIndex (newNode tv) = Map.empty"
  by (simp_all add: newNode_def)

lemma constraintFrame_ops:
  "lookupNode fuel cs tv g = Some g' \<Longrightarrow> constraintFrame g g'"
  "mergeNodes fuel cs tv1 tv2 g = Some g' \<Longrightarrow> constraintFrame g g'"
  "bindTypeVariable fuel cs tv fixed g = Some g' \<Longrightarrow> constraintFrame g g'"
  "bindLoop fuel cs tv tvs known g = Some g' \<Longrightarrow> constraintFrame g g'"
proof -
  have create: "\<And>tv g. graphNode g tv = None \<Longrightarrow> constraintFrame g (createNode tv g)"
    by (auto simp: constraintFrame_def constraintsOf_def allNodesOK_def)
  have mat: "\<And>tv g g'. onNode tv (\<lambda>n. Some (materialize n)) g = Some g' \<Longrightarrow> constraintFrame g g'"
    by (erule constraintFrame_onNode) (auto simp: materialize_def)
  have recExt: "\<And>cs r g g'. recordExtendedEquivalenceClass cs r g = Some g' \<Longrightarrow> constraintFrame g g'"
    by (auto simp: recordExtendedEquivalenceClass_def split: if_splits option.splits
        intro: constraintFrame_refl constraintFrame_trans[OF mat constraintFrame_recordChange])
  have mergeEC: "\<And>cs r nr g g'. mergeEquivalenceClass cs r nr g = Some g' \<Longrightarrow> constraintFrame g g'"
  proof -
    fix cs r nr g g' assume "mergeEquivalenceClass cs r nr g = Some g'"
    then obtain g1 where a: "onNode nr (\<lambda>n. Some (materialize n)) g = Some g1" and
      b: "onNode r (addToEquivalenceClass cs (EquivalenceClass (the (graphNode g1 nr)))) g1 = Some g'"
      by (auto simp: mergeEquivalenceClass_def split: option.splits)
    have "constraintFrame g1 g'"
      by (rule constraintFrame_onNode[OF b])
        (auto simp: addToEquivalenceClass_def materialize_def split: if_splits)
    with mat[OF a] show "constraintFrame g g'" by (rule constraintFrame_trans)
  qed
  have pair: "\<And>tv other g g'. tv \<noteq> other \<Longrightarrow> addFixedBindingPair tv other g = Some g' \<Longrightarrow>
      constraintFrame g g'"
  proof -
    fix tv other g g' assume "addFixedBindingPair tv other g = Some g'"
    then obtain g1 where a: "onNode other (\<lambda>n. Some (addFixedBinding tv n)) g = Some g1" and
      b: "onNode tv (\<lambda>n. Some (addFixedBinding other n)) g1 = Some g'"
      by (auto simp: addFixedBindingPair_def split: option.splits)
    have "constraintFrame g g1" "constraintFrame g1 g'"
      by (rule constraintFrame_onNode[OF a], simp add: addFixedBinding_def,
          rule constraintFrame_onNode[OF b], simp add: addFixedBinding_def)
    then show "constraintFrame g g'" by (rule constraintFrame_trans)
  qed
  note r = graph_ops_rel[where R = constraintFrame, OF constraintFrame_refl constraintFrame_trans
      create recExt mergeEC pair constraintFrame_recordChange]
  show "lookupNode fuel cs tv g = Some g' \<Longrightarrow> constraintFrame g g'" by (rule r(1))
  show "mergeNodes fuel cs tv1 tv2 g = Some g' \<Longrightarrow> constraintFrame g g'" by (rule r(2))
  show "bindTypeVariable fuel cs tv fixed g = Some g' \<Longrightarrow> constraintFrame g g'" by (rule r(3))
  show "bindLoop fuel cs tv tvs known g = Some g' \<Longrightarrow> constraintFrame g g'" by (rule r(4))
qed

lemma onNode_nodeAddConstraint:
  assumes ok: "allNodesOK g" and a: "onNode tv (nodeAddConstraint c) g = Some g'"
  shows "allNodesOK g'"
    and "constraintsOf g' v = constraintsOf g v @ (if v = tv then [c] else [])"
    and "OrphanedConstraints g' = OrphanedConstraints g"
proof -
  from a obtain n n' where n: "graphNode g tv = Some n" "nodeAddConstraint c n = Some n'"
    and g': "g' = setNode tv n' g"
    by (auto simp: onNode_def split: option.splits)
  from ok n have "nodeOK n" by (auto simp: allNodesOK_def)
  note r = nodeAddConstraint_OK[OF this n(2)]
  from r(1) ok g' show "allNodesOK g'" by (auto simp: allNodesOK_def setNode_def)
  from r(2) n g' show "constraintsOf g' v = constraintsOf g v @ (if v = tv then [c] else [])"
    by (auto simp: constraintsOf_def setNode_def)
  from g' show "OrphanedConstraints g' = OrphanedConstraints g" by (simp add: setNode_def)
qed

lemma onNode_nodeRemoveConstraint:
  assumes ok: "allNodesOK g" and a: "onNode tv (nodeRemoveConstraint c) g = Some g'"
  shows "allNodesOK g'"
    and "mset (constraintsOf g v) = mset (constraintsOf g' v) + (if v = tv then {#c#} else {#})"
    and "OrphanedConstraints g' = OrphanedConstraints g"
proof -
  from a obtain n n' where n: "graphNode g tv = Some n" "nodeRemoveConstraint c n = Some n'"
    and g': "g' = setNode tv n' g"
    by (auto simp: onNode_def split: option.splits)
  from ok n have "nodeOK n" by (auto simp: allNodesOK_def)
  note r = nodeRemoveConstraint_OK[OF this n(2)]
  from r(1) ok g' show "allNodesOK g'" by (auto simp: allNodesOK_def setNode_def)
  from r(2,3) n g'
  show "mset (constraintsOf g v) = mset (constraintsOf g' v) + (if v = tv then {#c#} else {#})"
    by (auto simp: constraintsOf_def setNode_def)
  from g' show "OrphanedConstraints g' = OrphanedConstraints g" by (simp add: setNode_def)
qed

lemma addConstraintLoop_effect:
  "addConstraintLoop fuel cs c tvs g = Some g' \<Longrightarrow> allNodesOK g \<Longrightarrow>
   allNodesOK g' \<and> OrphanedConstraints g' = OrphanedConstraints g \<and>
   (\<forall>v. constraintsOf g' v = constraintsOf g v @ replicate (count_list tvs v) c)"
proof (induction tvs arbitrary: g)
  case Nil
  then show ?case by simp
next
  case (Cons tv tvs)
  from Cons.prems(1) obtain g1 g2 where
    l: "lookupNode fuel cs tv g = Some g1" and
    a: "onNode tv (nodeAddConstraint c) g1 = Some g2" and
    r: "addConstraintLoop fuel cs c tvs g2 = Some g'"
    by (auto split: option.splits)
  from constraintFrame_ops(1)[OF l] Cons.prems(2)
  have f1: "allNodesOK g1" "OrphanedConstraints g1 = OrphanedConstraints g"
    "\<And>v. constraintsOf g1 v = constraintsOf g v"
    by (simp_all add: constraintFrame_def)
  note f2 = onNode_nodeAddConstraint[OF f1(1) a]
  from Cons.IH[OF r f2(1)] f1 f2 show ?case
    by (auto simp: replicate_app_Cons_same)
qed

lemma removeConstraintLoop_effect:
  "removeConstraintLoop fuel cs c tvs g = Some g' \<Longrightarrow> allNodesOK g \<Longrightarrow>
   allNodesOK g' \<and> OrphanedConstraints g' = OrphanedConstraints g \<and>
   (\<forall>v. mset (constraintsOf g v) = mset (constraintsOf g' v) + replicate_mset (count_list tvs v) c)"
proof (induction tvs arbitrary: g)
  case Nil
  then show ?case by simp
next
  case (Cons tv tvs)
  from Cons.prems(1) obtain g1 g2 where
    l: "lookupNode fuel cs tv g = Some g1" and
    a: "onNode tv (nodeRemoveConstraint c) g1 = Some g2" and
    r: "removeConstraintLoop fuel cs c tvs g2 = Some g'"
    by (auto split: option.splits)
  from constraintFrame_ops(1)[OF l] Cons.prems(2)
  have f1: "allNodesOK g1" "OrphanedConstraints g1 = OrphanedConstraints g"
    "\<And>v. constraintsOf g1 v = constraintsOf g v"
    by (simp_all add: constraintFrame_def)
  note f2 = onNode_nodeRemoveConstraint[OF f1(1) a]
  from Cons.IH[OF r f2(1)] f1 f2(2,3) show ?case
    by auto
qed

lemma first_occurrence:
  "c \<in> set xs \<Longrightarrow> length (takeWhile (\<lambda>x. x \<noteq> c) xs) < length xs \<and>
     xs ! length (takeWhile (\<lambda>x. x \<noteq> c) xs) = c"
  by (induction xs) auto

lemma removeOrphaned_mset:
  assumes "removeOrphaned c orphans = Some os"
  shows "c \<in> set orphans" and "mset os = mset orphans - {#c#}"
proof -
  from assms show cin: "c \<in> set orphans"
    by (auto simp: removeOrphaned_def split: if_splits)
  define known where "known = length (takeWhile (\<lambda>x. x \<noteq> c) orphans)"
  from first_occurrence[OF cin] have lt: "known < length orphans" and at: "orphans ! known = c"
    by (simp_all add: known_def)
  from assms cin have "os = butlast (orphans[known := last orphans])"
    by (simp add: removeOrphaned_def known_def Let_def)
  with mset_swap_remove[OF lt] at show "mset os = mset orphans - {#c#}" by simp
qed

text \<open>Sequences of calls, each with the state of the constraint system at the
  time of the call, and the constraints registered by them: added and not removed
  since.\<close>

fun applyMutations ::
  "nat \<Rightarrow> (ConstraintSystem \<times> Mutation) list \<Rightarrow> ConstraintGraph \<Rightarrow> ConstraintGraph option" where
  "applyMutations fuel [] g = Some g"
| "applyMutations fuel ((cs, m) # ms) g =
     (case applyMutation fuel cs m g of
        None \<Rightarrow> None
      | Some g1 \<Rightarrow> applyMutations fuel ms g1)"

fun register :: "Mutation \<Rightarrow> Constraint multiset \<Rightarrow> Constraint multiset" where
  "register (AddConstraintCall c) M = add_mset c M"
| "register (RemoveConstraintCall c) M = M - {#c#}"
| "register _ M = M"

fun registeredFrom ::
  "Constraint multiset \<Rightarrow> (ConstraintSystem \<times> Mutation) list \<Rightarrow> Constraint multiset" where
  "registeredFrom M [] = M"
| "registeredFrom M ((cs, m) # ms) = registeredFrom (register m M) ms"

definition registered :: "(ConstraintSystem \<times> Mutation) list \<Rightarrow> Constraint multiset" where
  "registered ms = registeredFrom {#} ms"

definition incidence :: "Constraint multiset \<Rightarrow> ConstraintGraph \<Rightarrow> bool" where
  "incidence M g \<longleftrightarrow>
     allNodesOK g \<and>
     (\<forall>tv. mset (constraintsOf g tv) = filter_mset (\<lambda>c. tv \<in> set (constraintTypeVariables c)) M) \<and>
     mset (OrphanedConstraints g) = filter_mset (\<lambda>c. constraintTypeVariables c = []) M"

lemma constraintsOf_distinct: "allNodesOK g \<Longrightarrow> distinct (constraintsOf g tv)"
  by (auto simp: allNodesOK_def constraintsOf_def nodeOK_distinct split: option.splits)

lemma count_list_le1: "distinct (xs @ replicate n c) \<Longrightarrow> n \<le> Suc 0"
  by (cases n rule: nat.exhaust; cases "n - 1") auto

lemma count_list_01:
  "count_list tvs v \<le> Suc 0 \<Longrightarrow> count_list tvs v = (if v \<in> set tvs then 1 else 0)"
  using count_list_0_iff[of tvs v] by (cases "count_list tvs v") auto

lemma incidence_add:
  assumes inc: "incidence M g" and a: "addConstraint fuel cs c g = Some g'"
  shows "incidence (add_mset c M) g'"
proof -
  let ?tvs = "constraintTypeVariables c"
  from a obtain g1 where
    l: "addConstraintLoop fuel cs c ?tvs g = Some g1" and
    g': "g' = recordChange (AddedConstraint c)
      (if ?tvs = [] then g1\<lparr>OrphanedConstraints := OrphanedConstraints g1 @ [c]\<rparr> else g1)"
    by (auto simp: addConstraint_def Let_def split: option.splits)
  from inc have ok: "allNodesOK g" by (simp add: incidence_def)
  from addConstraintLoop_effect[OF l ok] have ok1: "allNodesOK g1"
    and orph: "OrphanedConstraints g1 = OrphanedConstraints g"
    and cons: "\<And>v. constraintsOf g1 v = constraintsOf g v @ replicate (count_list ?tvs v) c"
    by simp_all
  have cnt: "\<And>v. count_list ?tvs v = (if v \<in> set ?tvs then 1 else 0)"
  proof -
    fix v
    from constraintsOf_distinct[OF ok1, of v] cons[of v]
    have "distinct (constraintsOf g v @ replicate (count_list ?tvs v) c)" by simp
    then have "count_list ?tvs v \<le> Suc 0" by (rule count_list_le1)
    then show "count_list ?tvs v = (if v \<in> set ?tvs then 1 else 0)" by (rule count_list_01)
  qed
  have c1: "\<And>v. constraintsOf g' v = constraintsOf g1 v"
    using g' by (simp add: constraintsOf_def)
  have "allNodesOK g'" using ok1 g' by (simp add: allNodesOK_def)
  moreover have "\<forall>v. mset (constraintsOf g' v)
      = filter_mset (\<lambda>d. v \<in> set (constraintTypeVariables d)) (add_mset c M)"
    using inc cons cnt c1 by (simp add: incidence_def)
  moreover have "mset (OrphanedConstraints g')
      = filter_mset (\<lambda>d. constraintTypeVariables d = []) (add_mset c M)"
    using inc orph g' by (simp add: incidence_def)
  ultimately show ?thesis by (simp add: incidence_def)
qed

lemma incidence_remove:
  assumes inc: "incidence M g" and a: "removeConstraint fuel cs c g = Some g'"
  shows "incidence (M - {#c#}) g'"
proof -
  let ?tvs = "constraintTypeVariables c"
  from a obtain g1 where
    l: "removeConstraintLoop fuel cs c ?tvs g = Some g1"
    by (auto simp: removeConstraint_def split: option.splits)
  with a obtain g2 where
    s: "(if ?tvs = []
           then map_option (\<lambda>os. g1\<lparr>OrphanedConstraints := os\<rparr>)
                  (removeOrphaned c (OrphanedConstraints g1))
           else Some g1) = Some g2" and g': "g' = recordChange (RemovedConstraint c) g2"
    by (auto simp: removeConstraint_def split: option.splits)
  from inc have ok: "allNodesOK g" by (simp add: incidence_def)
  from removeConstraintLoop_effect[OF l ok] have ok1: "allNodesOK g1"
    and orph: "OrphanedConstraints g1 = OrphanedConstraints g"
    and cons: "\<And>v. mset (constraintsOf g v)
        = mset (constraintsOf g1 v) + replicate_mset (count_list ?tvs v) c"
    by simp_all
  have cnt: "\<And>v. count_list ?tvs v = (if v \<in> set ?tvs then 1 else 0)"
  proof -
    fix v
    have "count (mset (constraintsOf g v)) c \<le> 1"
      using constraintsOf_distinct[OF ok, of v] by (simp add: distinct_count_atmost_1)
    with cons[of v] have "count_list ?tvs v \<le> Suc 0" by simp
    then show "count_list ?tvs v = (if v \<in> set ?tvs then 1 else 0)" by (rule count_list_01)
  qed
  have c2: "\<And>v. constraintsOf g' v = constraintsOf g1 v" "allNodesOK g'"
    using s g' ok1 by (auto simp: constraintsOf_def allNodesOK_def split: if_splits)
  have nodes: "\<forall>v. mset (constraintsOf g' v)
      = filter_mset (\<lambda>d. v \<in> set (constraintTypeVariables d)) (M - {#c#})"
  proof
    fix v
    from inc have "mset (constraintsOf g v) = filter_mset (\<lambda>d. v \<in> set (constraintTypeVariables d)) M"
      by (simp add: incidence_def)
    with cons[of v] cnt[of v] c2(1)[of v] show "mset (constraintsOf g' v)
      = filter_mset (\<lambda>d. v \<in> set (constraintTypeVariables d)) (M - {#c#})"
      by (auto simp: filter_diff_mset split: if_splits)
  qed
  have orphans: "mset (OrphanedConstraints g')
      = filter_mset (\<lambda>d. constraintTypeVariables d = []) (M - {#c#})"
  proof (cases "?tvs = []")
    case True
    with s obtain os where os: "removeOrphaned c (OrphanedConstraints g1) = Some os"
      and g2: "g2 = g1\<lparr>OrphanedConstraints := os\<rparr>" by auto
    from removeOrphaned_mset(2)[OF os] g2 g' orph inc True show ?thesis
      by (simp add: incidence_def filter_diff_mset)
  next
    case False
    with s have "g2 = g1" by simp
    with g' orph inc False show ?thesis
      by (simp add: incidence_def filter_diff_mset)
  qed
  from c2(2) nodes orphans show ?thesis by (simp add: incidence_def)
qed

lemma incidence_frame:
  assumes inc: "incidence M g" and f: "constraintFrame g g'"
  shows "incidence M g'"
  using assms by (simp add: incidence_def constraintFrame_def)

lemma incidence_step:
  assumes "incidence M g" and "applyMutation fuel cs m g = Some g'"
  shows "incidence (register m M) g'"
proof (cases m)
  case (LookupNodeCall tv)
  with assms constraintFrame_ops(1)[of fuel cs tv g g'] show ?thesis
    by (auto intro: incidence_frame)
next
  case (AddConstraintCall c)
  with assms show ?thesis by (auto intro: incidence_add)
next
  case (RemoveConstraintCall c)
  with assms show ?thesis by (auto intro: incidence_remove)
next
  case (MergeNodesCall tv1 tv2)
  with assms constraintFrame_ops(2)[of fuel cs tv1 tv2 g g'] show ?thesis
    by (auto intro: incidence_frame)
next
  case (BindTypeVariableCall tv fixed)
  with assms constraintFrame_ops(3)[of fuel cs tv fixed g g'] show ?thesis
    by (auto intro: incidence_frame)
qed

lemma incidence_steps:
  "incidence M g \<Longrightarrow> applyMutations fuel ms g = Some g' \<Longrightarrow> incidence (registeredFrom M ms) g'"
proof (induction ms arbitrary: M g)
  case Nil
  then show ?case by simp
next
  case (Cons a ms)
  obtain cs m where a: "a = (cs, m)" by (cases a)
  from Cons.prems(2) a obtain g1 where s: "applyMutation fuel cs m g = Some g1"
    and r: "applyMutations fuel ms g1 = Some g'"
    by (auto split: option.splits)
  from Cons.IH[OF incidence_step[OF Cons.prems(1) s] r] a show ?case by simp
qed

lemma incidence_emptyGraph: "incidence {#} emptyGraph"
  by (simp add: incidence_def allNodesOK_def emptyGraph_def constraintsOf_def)

definition equal12 :: Constraint where
  "equal12 = \<lparr>cid = 2, getKind = Equal, getFirstType = TypeVariableType 1,
     getSecondType = TypeVariableType 2, constraintTypeVariables = [1, 2]\<rparr>"

definition orphanConstraint :: Constraint where
  "orphanConstraint = \<lparr>cid = 3, getKind = OtherKind 0, getFirstType = NominalType 0 [],
     getSecondType = NominalType 1 [], constraintTypeVariables = []\<rparr>"

definition exampleCalls :: "(ConstraintSystem \<times> Mutation) list" where
  "exampleCalls =
     [(unboundSystem, AddConstraintCall bind01), (unboundSystem, AddConstraintCall equal12),
      (unboundSystem, AddConstraintCall orphanConstraint),
      (unboundSystem, RemoveConstraintCall bind01)]"

lemma exampleCalls_result:
  "map_option (\<lambda>g. (map (constraintsOf g) [0, 1, 2], OrphanedConstraints g, TypeVariables g))
     (applyMutations 1 exampleCalls emptyGraph)
   = Some ([[], [equal12], [equal12]], [orphanConstraint], [0, 1, 2])"
  by (simp add: exampleCalls_def graph_eval bind01_def equal12_def orphanConstraint_def)



subsection \<open>Gathering constraints\<close>

datatype GatheringKind = EquivalenceClassKind | AllMentions

text \<open>\<^verbatim>\<open>getEquivalenceClass\<close> on the node of \<open>tv\<close>: the assertion that \<open>tv\<close> is its own
  representative, and the class, created if it was empty.\<close>

definition getEquivalenceClass ::
  "ConstraintSystem \<Rightarrow> tvar \<Rightarrow> ConstraintGraph \<Rightarrow> (ConstraintGraph \<times> tvar list) option" where
  "getEquivalenceClass cs tv g =
     (case graphNode g tv of
        None \<Rightarrow> None
      | Some n \<Rightarrow>
          if TypeVar n \<noteq> getRepresentative cs (TypeVar n) then None
          else Some (setNode tv (materialize n) g, EquivalenceClass (materialize n)))"

text \<open>
  The state of one call of \<^verbatim>\<open>gatherConstraints\<close>: the graph (a lookup may create
  a node), the sets \<^verbatim>\<open>typeVars\<close> and \<^verbatim>\<open>visitedConstraints\<close>, and the result vector.
  The vectors that are iterated are read when the loop starts.
\<close>

type_synonym gathering = "ConstraintGraph \<times> tvar list \<times> Constraint list \<times> Constraint list"

fun visitConstraints ::
  "(Constraint \<Rightarrow> bool) \<Rightarrow> Constraint list \<Rightarrow> Constraint list \<times> Constraint list
    \<Rightarrow> Constraint list \<times> Constraint list" where
  "visitConstraints acceptConstraint [] (visited, constraints) = (visited, constraints)"
| "visitConstraints acceptConstraint (c # rest) (visited, constraints) =
     (if c \<in> set visited then visitConstraints acceptConstraint rest (visited, constraints)
      else visitConstraints acceptConstraint rest
             (c # visited, if acceptConstraint c then constraints @ [c] else constraints))"

fun visitEquivalenceClass ::
  "nat \<Rightarrow> ConstraintSystem \<Rightarrow> (Constraint \<Rightarrow> bool) \<Rightarrow> tvar list \<Rightarrow> gathering \<Rightarrow> gathering option" where
  "visitEquivalenceClass fuel cs acceptConstraint [] st = Some st"
| "visitEquivalenceClass fuel cs acceptConstraint (adjTypeVarEquiv # rest) (g, typeVars, visited, constraints) =
     (if adjTypeVarEquiv \<in> set typeVars
      then visitEquivalenceClass fuel cs acceptConstraint rest (g, typeVars, visited, constraints)
      else
        case lookupNode fuel cs adjTypeVarEquiv g of
          None \<Rightarrow> None
        | Some g1 \<Rightarrow>
            (case visitConstraints acceptConstraint (constraintsOf g1 adjTypeVarEquiv)
                    (visited, constraints) of
               (visited', constraints') \<Rightarrow>
                 visitEquivalenceClass fuel cs acceptConstraint rest
                   (g1, adjTypeVarEquiv # typeVars, visited', constraints')))"

definition addAdjacentConstraints ::
  "nat \<Rightarrow> ConstraintSystem \<Rightarrow> (Constraint \<Rightarrow> bool) \<Rightarrow> tvar \<Rightarrow> gathering \<Rightarrow> gathering option" where
  "addAdjacentConstraints fuel cs acceptConstraint adjTypeVar st =
     (case st of (g, typeVars, visited, constraints) \<Rightarrow>
        case lookupNode fuel cs (getRepresentative cs adjTypeVar) g of
          None \<Rightarrow> None
        | Some g1 \<Rightarrow>
            (case getEquivalenceClass cs (getRepresentative cs adjTypeVar) g1 of
               None \<Rightarrow> None
             | Some (g2, adjTypeVarsToVisit) \<Rightarrow>
                 visitEquivalenceClass fuel cs acceptConstraint adjTypeVarsToVisit
                   (g2, typeVars, visited, constraints)))"

fun addAdjacentConstraintsAll ::
  "nat \<Rightarrow> ConstraintSystem \<Rightarrow> (Constraint \<Rightarrow> bool) \<Rightarrow> tvar list \<Rightarrow> gathering \<Rightarrow> gathering option" where
  "addAdjacentConstraintsAll fuel cs acceptConstraint [] st = Some st"
| "addAdjacentConstraintsAll fuel cs acceptConstraint (adjTypeVar # rest) st =
     (case addAdjacentConstraints fuel cs acceptConstraint adjTypeVar st of
        None \<Rightarrow> None
      | Some st1 \<Rightarrow> addAdjacentConstraintsAll fuel cs acceptConstraint rest st1)"

text \<open>The loop over the constraints of one member of the equivalence class of the
  representative of \<open>typeVar\<close>. Its first statement is
  \<^verbatim>\<open>if (visitedConstraints.insert(constraint).second && acceptConstraint(constraint))
  constraints.push_back(constraint)\<close>.\<close>

definition visitOwnConstraint :: "(Constraint \<Rightarrow> bool) \<Rightarrow> Constraint \<Rightarrow> gathering \<Rightarrow> gathering" where
  "visitOwnConstraint acceptConstraint c st =
     (case st of (g, typeVars, visited, constraints) \<Rightarrow>
        if c \<in> set visited then st
        else (g, typeVars, c # visited,
              if acceptConstraint c then constraints @ [c] else constraints))"

fun gatherNodeConstraints ::
  "nat \<Rightarrow> ConstraintSystem \<Rightarrow> GatheringKind \<Rightarrow> (Constraint \<Rightarrow> bool) \<Rightarrow> Constraint list
    \<Rightarrow> gathering \<Rightarrow> gathering option" where
  "gatherNodeConstraints fuel cs kind acceptConstraint [] st = Some st"
| "gatherNodeConstraints fuel cs kind acceptConstraint (c # rest) st =
     (let st1 = visitOwnConstraint acceptConstraint c st
      in case (if kind = AllMentions
               then addAdjacentConstraintsAll fuel cs acceptConstraint (constraintTypeVariables c) st1
               else Some st1) of
           None \<Rightarrow> None
         | Some st2 \<Rightarrow> gatherNodeConstraints fuel cs kind acceptConstraint rest st2)"

fun gatherEquivalenceClass ::
  "nat \<Rightarrow> ConstraintSystem \<Rightarrow> GatheringKind \<Rightarrow> (Constraint \<Rightarrow> bool) \<Rightarrow> tvar list
    \<Rightarrow> gathering \<Rightarrow> gathering option" where
  "gatherEquivalenceClass fuel cs kind acceptConstraint [] st = Some st"
| "gatherEquivalenceClass fuel cs kind acceptConstraint (typeVar # rest) (g, typeVars, visited, constraints) =
     (case lookupNode fuel cs typeVar g of
        None \<Rightarrow> None
      | Some g1 \<Rightarrow>
          (case gatherNodeConstraints fuel cs kind acceptConstraint (constraintsOf g1 typeVar)
                  (g1, typeVars, visited, constraints) of
             None \<Rightarrow> None
           | Some st2 \<Rightarrow>
               (case addAdjacentConstraintsAll fuel cs acceptConstraint (fixedBindingsOf g1 typeVar) st2 of
                  None \<Rightarrow> None
                | Some st3 \<Rightarrow> gatherEquivalenceClass fuel cs kind acceptConstraint rest st3)))"

definition gatherConstraints ::
  "nat \<Rightarrow> ConstraintSystem \<Rightarrow> tvar \<Rightarrow> GatheringKind \<Rightarrow> (Constraint \<Rightarrow> bool) \<Rightarrow> ConstraintGraph
    \<Rightarrow> (ConstraintGraph \<times> Constraint list) option" where
  "gatherConstraints fuel cs typeVar kind acceptConstraint g =
     (case lookupNode fuel cs (getRepresentative cs typeVar) g of
        None \<Rightarrow> None
      | Some g1 \<Rightarrow>
          (case getEquivalenceClass cs (getRepresentative cs typeVar) g1 of
             None \<Rightarrow> None
           | Some (g2, equivClass) \<Rightarrow>
               (case gatherEquivalenceClass fuel cs kind acceptConstraint equivClass (g2, [], [], []) of
                  None \<Rightarrow> None
                | Some (g3, typeVars, visited, constraints) \<Rightarrow> Some (g3, constraints))))"

text \<open>
  The reading of claim C7: the traversal in which the equivalence classes of the
  variables mentioned by a constraint are walked only for a constraint that satisfies
  the predicate.
\<close>

fun gatherNodeConstraintsAsClaimed ::
  "nat \<Rightarrow> ConstraintSystem \<Rightarrow> GatheringKind \<Rightarrow> (Constraint \<Rightarrow> bool) \<Rightarrow> Constraint list
    \<Rightarrow> gathering \<Rightarrow> gathering option" where
  "gatherNodeConstraintsAsClaimed fuel cs kind acceptConstraint [] st = Some st"
| "gatherNodeConstraintsAsClaimed fuel cs kind acceptConstraint (c # rest) st =
     (let st1 = visitOwnConstraint acceptConstraint c st
      in case (if kind = AllMentions \<and> acceptConstraint c
               then addAdjacentConstraintsAll fuel cs acceptConstraint (constraintTypeVariables c) st1
               else Some st1) of
           None \<Rightarrow> None
         | Some st2 \<Rightarrow> gatherNodeConstraintsAsClaimed fuel cs kind acceptConstraint rest st2)"

fun gatherEquivalenceClassAsClaimed ::
  "nat \<Rightarrow> ConstraintSystem \<Rightarrow> GatheringKind \<Rightarrow> (Constraint \<Rightarrow> bool) \<Rightarrow> tvar list
    \<Rightarrow> gathering \<Rightarrow> gathering option" where
  "gatherEquivalenceClassAsClaimed fuel cs kind acceptConstraint [] st = Some st"
| "gatherEquivalenceClassAsClaimed fuel cs kind acceptConstraint (typeVar # rest) (g, typeVars, visited, constraints) =
     (case lookupNode fuel cs typeVar g of
        None \<Rightarrow> None
      | Some g1 \<Rightarrow>
          (case gatherNodeConstraintsAsClaimed fuel cs kind acceptConstraint (constraintsOf g1 typeVar)
                  (g1, typeVars, visited, constraints) of
             None \<Rightarrow> None
           | Some st2 \<Rightarrow>
               (case addAdjacentConstraintsAll fuel cs acceptConstraint (fixedBindingsOf g1 typeVar) st2 of
                  None \<Rightarrow> None
                | Some st3 \<Rightarrow> gatherEquivalenceClassAsClaimed fuel cs kind acceptConstraint rest st3)))"

definition gatherConstraintsAsClaimed ::
  "nat \<Rightarrow> ConstraintSystem \<Rightarrow> tvar \<Rightarrow> GatheringKind \<Rightarrow> (Constraint \<Rightarrow> bool) \<Rightarrow> ConstraintGraph
    \<Rightarrow> (ConstraintGraph \<times> Constraint list) option" where
  "gatherConstraintsAsClaimed fuel cs typeVar kind acceptConstraint g =
     (case lookupNode fuel cs (getRepresentative cs typeVar) g of
        None \<Rightarrow> None
      | Some g1 \<Rightarrow>
          (case getEquivalenceClass cs (getRepresentative cs typeVar) g1 of
             None \<Rightarrow> None
           | Some (g2, equivClass) \<Rightarrow>
               (case gatherEquivalenceClassAsClaimed fuel cs kind acceptConstraint equivClass (g2, [], [], []) of
                  None \<Rightarrow> None
                | Some (g3, typeVars, visited, constraints) \<Rightarrow> Some (g3, constraints))))"

text \<open>The graph of the calls \<open>exampleCalls\<close> without the last: \<open>bind01\<close> on 0 and 1,
  \<open>equal12\<close> on 1 and 2.\<close>

definition chainCalls :: "(ConstraintSystem \<times> Mutation) list" where
  "chainCalls =
     [(unboundSystem, AddConstraintCall bind01), (unboundSystem, AddConstraintCall equal12)]"

definition isEqual :: "Constraint \<Rightarrow> bool" where
  "isEqual c \<longleftrightarrow> getKind c = Equal"

lemmas gather_eval = visitOwnConstraint_def gatherConstraints_def gatherConstraintsAsClaimed_def getEquivalenceClass_def
  addAdjacentConstraints_def chainCalls_def isEqual_def bind01_def equal12_def

theorem gather_walks_rejected_constraints_counterexample:
  "\<not> isEqual bind01 \<and>
   map_option snd
     (Option.bind (applyMutations 1 chainCalls emptyGraph)
        (gatherConstraints 0 unboundSystem 0 AllMentions isEqual)) = Some [equal12] \<and>
   map_option snd
     (Option.bind (applyMutations 1 chainCalls emptyGraph)
        (gatherConstraintsAsClaimed 0 unboundSystem 0 AllMentions isEqual)) = Some []"
  by (simp add: graph_eval gather_eval)

text \<open>Across lookups, merges and bindings the constraint lists stay as they are and
  an equivalence class, as \<^verbatim>\<open>getEquivalenceClassUnsafe\<close> returns it, is only
  extended at its end.\<close>

definition gatherFrame :: "ConstraintGraph \<Rightarrow> ConstraintGraph \<Rightarrow> bool" where
  "gatherFrame g g' \<longleftrightarrow>
     (\<forall>x. constraintsOf g' x = constraintsOf g x) \<and>
     (\<forall>x. \<exists>ext. equivalenceClassOf g' x = equivalenceClassOf g x @ ext)"

lemma gatherFrame_refl: "gatherFrame g g"
  by (simp add: gatherFrame_def)

lemma gatherFrame_trans: "gatherFrame a b \<Longrightarrow> gatherFrame b c \<Longrightarrow> gatherFrame a c"
  unfolding gatherFrame_def by (metis append.assoc)

lemma materialize_idem [simp]: "materialize (materialize n) = materialize n"
  by (simp add: materialize_def)

lemma materialize_fields [simp]:
  "Constraints (materialize n) = Constraints n"
  "ConstraintIndex (materialize n) = ConstraintIndex n"
  "FixedBindings (materialize n) = FixedBindings n"
  "TypeVar (materialize n) = TypeVar n"
  by (simp_all add: materialize_def)

lemma gatherFrame_setNode:
  assumes "graphNode g tv = Some n" and "Constraints n' = Constraints n"
    and "getEquivalenceClassUnsafe n' = getEquivalenceClassUnsafe n @ ext"
  shows "gatherFrame g (setNode tv n' g)"
  using assms
  by (auto simp: gatherFrame_def setNode_def constraintsOf_def equivalenceClassOf_def)

lemma gatherFrame_materialize:
  "onNode tv (\<lambda>n. Some (materialize n)) g = Some g' \<Longrightarrow> gatherFrame g g'"
  by (auto simp: onNode_def getEquivalenceClassUnsafe_def split: option.splits
      intro!: gatherFrame_setNode[where ext = "[]"])

lemma gatherFrame_ops:
  "lookupNode fuel cs tv g = Some g' \<Longrightarrow> gatherFrame g g'"
  "mergeNodes fuel cs tv1 tv2 g = Some g' \<Longrightarrow> gatherFrame g g'"
  "bindTypeVariable fuel cs tv fixed g = Some g' \<Longrightarrow> gatherFrame g g'"
  "bindLoop fuel cs tv tvs known g = Some g' \<Longrightarrow> gatherFrame g g'"
proof -
  have rc: "\<And>ch g. gatherFrame g (recordChange ch g)"
    by (simp add: gatherFrame_def constraintsOf_def equivalenceClassOf_def)
  have create: "\<And>tv g. graphNode g tv = None \<Longrightarrow> gatherFrame g (createNode tv g)"
    by (auto simp: gatherFrame_def constraintsOf_def equivalenceClassOf_def)
  have recExt: "\<And>cs r g g'. recordExtendedEquivalenceClass cs r g = Some g' \<Longrightarrow> gatherFrame g g'"
    by (auto simp: recordExtendedEquivalenceClass_def split: if_splits option.splits
        intro: gatherFrame_refl gatherFrame_trans[OF gatherFrame_materialize rc])
  have mergeEC: "\<And>cs r nr g g'. mergeEquivalenceClass cs r nr g = Some g' \<Longrightarrow> gatherFrame g g'"
  proof -
    fix cs r nr g g' assume "mergeEquivalenceClass cs r nr g = Some g'"
    then obtain g1 where a: "onNode nr (\<lambda>n. Some (materialize n)) g = Some g1" and
      b: "onNode r (addToEquivalenceClass cs (EquivalenceClass (the (graphNode g1 nr)))) g1 = Some g'"
      by (auto simp: mergeEquivalenceClass_def split: option.splits)
    from b obtain n n' where n: "graphNode g1 r = Some n"
      "addToEquivalenceClass cs (EquivalenceClass (the (graphNode g1 nr))) n = Some n'"
      "g' = setNode r n' g1"
      by (auto simp: onNode_def split: option.splits)
    from n(2) have "Constraints n' = Constraints n"
      "getEquivalenceClassUnsafe n' = getEquivalenceClassUnsafe n @ EquivalenceClass (the (graphNode g1 nr))"
      by (auto simp: addToEquivalenceClass_def getEquivalenceClassUnsafe_def materialize_def
          split: if_splits)
    from gatherFrame_setNode[OF n(1) this] n(3) have "gatherFrame g1 g'" by simp
    with gatherFrame_materialize[OF a] show "gatherFrame g g'" by (rule gatherFrame_trans)
  qed
  have fb: "\<And>tv v g g'. onNode tv (\<lambda>n. Some (addFixedBinding v n)) g = Some g' \<Longrightarrow> gatherFrame g g'"
    by (auto simp: onNode_def addFixedBinding_def getEquivalenceClassUnsafe_def materialize_def
        split: option.splits intro!: gatherFrame_setNode[where ext = "[]"])
  have pair: "\<And>tv other g g'. tv \<noteq> other \<Longrightarrow> addFixedBindingPair tv other g = Some g' \<Longrightarrow>
      gatherFrame g g'"
    by (auto simp: addFixedBindingPair_def split: option.splits
        intro: gatherFrame_trans[OF fb fb])
  note r = graph_ops_rel[where R = gatherFrame, OF gatherFrame_refl gatherFrame_trans
      create recExt mergeEC pair rc]
  show "lookupNode fuel cs tv g = Some g' \<Longrightarrow> gatherFrame g g'" by (rule r(1))
  show "mergeNodes fuel cs tv1 tv2 g = Some g' \<Longrightarrow> gatherFrame g g'" by (rule r(2))
  show "bindTypeVariable fuel cs tv fixed g = Some g' \<Longrightarrow> gatherFrame g g'" by (rule r(3))
  show "bindLoop fuel cs tv tvs known g = Some g' \<Longrightarrow> gatherFrame g g'" by (rule r(4))
qed

lemma getEquivalenceClass_frame:
  assumes "getEquivalenceClass cs tv g = Some (g', cls)"
  shows "gatherFrame g g'" and "cls = equivalenceClassOf g tv"
proof -
  from assms obtain n where n: "graphNode g tv = Some n"
    and g': "g' = setNode tv (materialize n) g" and cls: "cls = EquivalenceClass (materialize n)"
    by (auto simp: getEquivalenceClass_def split: option.splits if_splits)
  from n cls show "cls = equivalenceClassOf g tv"
    by (simp add: equivalenceClassOf_def getEquivalenceClassUnsafe_def)
  show "gatherFrame g g'" unfolding g'
    by (rule gatherFrame_setNode[OF n, where ext = "[]"])
       (simp_all add: getEquivalenceClassUnsafe_def)
qed

text \<open>The invariant of the traversal, relative to the graph \<open>g0\<close> of the call.\<close>

definition gatherInv :: "(Constraint \<Rightarrow> bool) \<Rightarrow> ConstraintGraph \<Rightarrow> gathering \<Rightarrow> bool" where
  "gatherInv acceptConstraint g0 st \<longleftrightarrow>
     (case st of (g, typeVars, visited, constraints) \<Rightarrow>
        gatherFrame g0 g \<and> distinct constraints \<and> set constraints \<subseteq> set visited \<and>
        (\<forall>c\<in>set visited. acceptConstraint c \<longleftrightarrow> c \<in> set constraints) \<and>
        (\<forall>m\<in>set typeVars. set (constraintsOf g0 m) \<subseteq> set visited))"

definition gatherMono :: "gathering \<Rightarrow> gathering \<Rightarrow> bool" where
  "gatherMono st st' \<longleftrightarrow>
     (case st of (g, typeVars, visited, constraints) \<Rightarrow>
      case st' of (g', typeVars', visited', constraints') \<Rightarrow>
        set typeVars \<subseteq> set typeVars' \<and> set visited \<subseteq> set visited')"

lemma gatherMono_refl: "gatherMono st st"
  by (auto simp: gatherMono_def split: prod.splits)

lemma gatherMono_trans: "gatherMono a b \<Longrightarrow> gatherMono b c \<Longrightarrow> gatherMono a c"
  by (auto simp: gatherMono_def split: prod.splits)

lemma visitConstraints_inv:
  assumes "visitConstraints acc cs (visited, out) = (visited', out')"
    and "distinct out" "set out \<subseteq> set visited"
    and "\<forall>c\<in>set visited. acc c \<longleftrightarrow> c \<in> set out"
  shows "distinct out' \<and> set out' \<subseteq> set visited' \<and>
         (\<forall>c\<in>set visited'. acc c \<longleftrightarrow> c \<in> set out') \<and>
         set visited \<subseteq> set visited' \<and> set cs \<subseteq> set visited'"
  using assms
proof (induction cs arbitrary: visited out)
  case Nil
  then show ?case by simp
next
  case (Cons c cs)
  show ?case
  proof (cases "c \<in> set visited")
    case True
    with Cons.prems have "visitConstraints acc cs (visited, out) = (visited', out')" by simp
    from Cons.IH[OF this Cons.prems(2,3,4)] True show ?thesis by auto
  next
    case False
    let ?out = "if acc c then out @ [c] else out"
    from False Cons.prems have r: "visitConstraints acc cs (c # visited, ?out) = (visited', out')"
      by simp
    have "distinct ?out" "set ?out \<subseteq> set (c # visited)"
      "\<forall>d\<in>set (c # visited). acc d \<longleftrightarrow> d \<in> set ?out"
      using Cons.prems(2,3,4) False by auto
    from Cons.IH[OF r this] show ?thesis by auto
  qed
qed

lemma gatherFrame_constraintsOf: "gatherFrame g0 g \<Longrightarrow> constraintsOf g x = constraintsOf g0 x"
  by (simp add: gatherFrame_def)

lemma gatherFrame_class:
  "gatherFrame g0 g \<Longrightarrow> set (equivalenceClassOf g0 x) \<subseteq> set (equivalenceClassOf g x)"
  unfolding gatherFrame_def by (metis set_append sup_ge1)

lemma visitEquivalenceClass_inv:
  "visitEquivalenceClass fuel cs acc ms st = Some st' \<Longrightarrow> gatherInv acc g0 st \<Longrightarrow>
   gatherInv acc g0 st' \<and> gatherMono st st' \<and> set ms \<subseteq> set (fst (snd st'))"
proof (induction ms arbitrary: st)
  case Nil
  then show ?case by (simp add: gatherMono_refl)
next
  case (Cons m ms)
  obtain g tvs vis out where st: "st = (g, tvs, vis, out)" by (cases st)
  show ?case
  proof (cases "m \<in> set tvs")
    case True
    with Cons.prems(1) st have r: "visitEquivalenceClass fuel cs acc ms st = Some st'" by simp
    from Cons.IH[OF r Cons.prems(2)] True st show ?thesis
      by (auto simp: gatherMono_def split: prod.splits)
  next
    case False
    with Cons.prems(1) st obtain g1 where l: "lookupNode fuel cs m g = Some g1"
      by (auto split: option.splits)
    obtain vis' out' where v: "visitConstraints acc (constraintsOf g1 m) (vis, out) = (vis', out')"
      by (cases "visitConstraints acc (constraintsOf g1 m) (vis, out)")
    from False Cons.prems(1) st l v
    have r: "visitEquivalenceClass fuel cs acc ms (g1, m # tvs, vis', out') = Some st'"
      by simp
    from Cons.prems(2) st have inv: "gatherFrame g0 g" "distinct out" "set out \<subseteq> set vis"
      "\<forall>c\<in>set vis. acc c \<longleftrightarrow> c \<in> set out" "\<forall>m\<in>set tvs. set (constraintsOf g0 m) \<subseteq> set vis"
      by (simp_all add: gatherInv_def)
    from gatherFrame_trans[OF inv(1) gatherFrame_ops(1)[OF l]] have f1: "gatherFrame g0 g1" .
    note vc = visitConstraints_inv[OF v inv(2,3,4)]
    from vc inv(5) have "\<forall>m'\<in>set tvs. set (constraintsOf g0 m') \<subseteq> set vis'"
      by blast
    moreover from vc have "set (constraintsOf g0 m) \<subseteq> set vis'"
      by (simp add: gatherFrame_constraintsOf[OF f1])
    ultimately have inv1: "gatherInv acc g0 (g1, m # tvs, vis', out')"
      using vc f1 by (simp add: gatherInv_def)
    from vc have mono1: "gatherMono st (g1, m # tvs, vis', out')"
      by (auto simp: gatherMono_def st)
    from Cons.IH[OF r inv1] mono1 show ?thesis
      by (auto intro: gatherMono_trans simp: gatherMono_def split: prod.splits)
  qed
qed

lemma addAdjacentConstraints_inv:
  assumes a: "addAdjacentConstraints fuel cs acc adj st = Some st'" and inv: "gatherInv acc g0 st"
  shows "gatherInv acc g0 st'" "gatherMono st st'"
    "set (equivalenceClassOf g0 (getRepresentative cs adj)) \<subseteq> set (fst (snd st'))"
proof -
  obtain g tvs vis out where st: "st = (g, tvs, vis, out)" by (cases st)
  let ?r = "getRepresentative cs adj"
  from a st obtain g1 g2 cls where l: "lookupNode fuel cs ?r g = Some g1"
    and e: "getEquivalenceClass cs ?r g1 = Some (g2, cls)"
    and v: "visitEquivalenceClass fuel cs acc cls (g2, tvs, vis, out) = Some st'"
    by (auto simp: addAdjacentConstraints_def split: option.splits prod.splits)
  from inv st have f0: "gatherFrame g0 g" by (simp add: gatherInv_def)
  from gatherFrame_trans[OF f0 gatherFrame_ops(1)[OF l]] have f1: "gatherFrame g0 g1" .
  from gatherFrame_trans[OF f1 getEquivalenceClass_frame(1)[OF e]] have f2: "gatherFrame g0 g2" .
  from inv st f2 have inv2: "gatherInv acc g0 (g2, tvs, vis, out)" by (simp add: gatherInv_def)
  note r = visitEquivalenceClass_inv[OF v inv2]
  from r show "gatherInv acc g0 st'" by simp
  from r st show "gatherMono st st'" by (simp add: gatherMono_def)
  from getEquivalenceClass_frame(2)[OF e] gatherFrame_class[OF f1, of ?r] r
  show "set (equivalenceClassOf g0 ?r) \<subseteq> set (fst (snd st'))" by auto
qed

lemma gatherMono_typeVars: "gatherMono st st' \<Longrightarrow> set (fst (snd st)) \<subseteq> set (fst (snd st'))"
  by (auto simp: gatherMono_def split: prod.splits)

lemma gatherMono_visited:
  "gatherMono st st' \<Longrightarrow> set (fst (snd (snd st))) \<subseteq> set (fst (snd (snd st')))"
  by (auto simp: gatherMono_def split: prod.splits)

lemma addAdjacentConstraintsAll_inv:
  "addAdjacentConstraintsAll fuel cs acc adjs st = Some st' \<Longrightarrow> gatherInv acc g0 st \<Longrightarrow>
   gatherInv acc g0 st' \<and> gatherMono st st' \<and>
   (\<forall>adj\<in>set adjs. set (equivalenceClassOf g0 (getRepresentative cs adj)) \<subseteq> set (fst (snd st')))"
proof (induction adjs arbitrary: st)
  case Nil
  then show ?case by (simp add: gatherMono_refl)
next
  case (Cons adj adjs)
  from Cons.prems(1) obtain st1 where a: "addAdjacentConstraints fuel cs acc adj st = Some st1"
    and r: "addAdjacentConstraintsAll fuel cs acc adjs st1 = Some st'"
    by (auto split: option.splits)
  note h = addAdjacentConstraints_inv[OF a Cons.prems(2)]
  note ih = Cons.IH[OF r h(1)]
  from ih h(2) have "gatherMono st st'" by (blast intro: gatherMono_trans)
  moreover from ih h(3) gatherMono_typeVars[of st1 st']
  have "\<forall>adj\<in>set (adj # adjs).
      set (equivalenceClassOf g0 (getRepresentative cs adj)) \<subseteq> set (fst (snd st'))"
    by auto
  ultimately show ?case using ih by simp
qed

lemma gatherNodeConstraints_inv:
  "gatherNodeConstraints fuel cs kind acc cons st = Some st' \<Longrightarrow> gatherInv acc g0 st \<Longrightarrow>
   gatherInv acc g0 st' \<and> gatherMono st st' \<and> set cons \<subseteq> set (fst (snd (snd st'))) \<and>
   (kind = AllMentions \<longrightarrow>
      (\<forall>c\<in>set cons. \<forall>adj\<in>set (constraintTypeVariables c).
         set (equivalenceClassOf g0 (getRepresentative cs adj)) \<subseteq> set (fst (snd st'))))"
proof (induction cons arbitrary: st)
  case Nil
  then show ?case by (simp add: gatherMono_refl)
next
  case (Cons c cons)
  obtain g tvs vis out where st: "st = (g, tvs, vis, out)" by (cases st)
  define st1 where "st1 = visitOwnConstraint acc c st"
  from Cons.prems(1) obtain st2 where
    w: "(if kind = AllMentions
         then addAdjacentConstraintsAll fuel cs acc (constraintTypeVariables c) st1
         else Some st1) = Some st2"
    and r: "gatherNodeConstraints fuel cs kind acc cons st2 = Some st'"
    unfolding st1_def by (simp add: Let_def split: option.splits)
  from Cons.prems(2) st have inv1: "gatherInv acc g0 st1"
    by (auto simp: gatherInv_def st1_def visitOwnConstraint_def)
  have mono1: "gatherMono st st1" and c1: "c \<in> set (fst (snd (snd st1)))"
    by (auto simp: gatherMono_def st st1_def visitOwnConstraint_def)
  have step: "gatherInv acc g0 st2 \<and> gatherMono st1 st2 \<and>
     (kind = AllMentions \<longrightarrow> (\<forall>adj\<in>set (constraintTypeVariables c).
         set (equivalenceClassOf g0 (getRepresentative cs adj)) \<subseteq> set (fst (snd st2))))"
  proof (cases "kind = AllMentions")
    case True
    with w have "addAdjacentConstraintsAll fuel cs acc (constraintTypeVariables c) st1 = Some st2"
      by simp
    from addAdjacentConstraintsAll_inv[OF this inv1] show ?thesis by simp
  next
    case False
    with w inv1 show ?thesis by (simp add: gatherMono_refl)
  qed
  note ih = Cons.IH[OF r conjunct1[OF step]]
  from step have s12: "gatherMono st1 st2" by simp
  from ih have s2': "gatherMono st2 st'" by simp
  note m = gatherMono_trans[OF mono1 gatherMono_trans[OF s12 s2']]
    gatherMono_trans[OF s12 s2'] s2'
  from c1 gatherMono_visited[OF m(2)] ih
  have v: "set (c # cons) \<subseteq> set (fst (snd (snd st')))" by auto
  from step ih gatherMono_typeVars[OF m(3)]
  have "kind = AllMentions \<longrightarrow>
      (\<forall>c\<in>set (c # cons). \<forall>adj\<in>set (constraintTypeVariables c).
         set (equivalenceClassOf g0 (getRepresentative cs adj)) \<subseteq> set (fst (snd st')))"
    by auto
  with ih m(1) v show ?case by simp
qed

lemma gatherEquivalenceClass_inv:
  "gatherEquivalenceClass fuel cs kind acc ms st = Some st' \<Longrightarrow> gatherInv acc g0 st \<Longrightarrow>
   gatherInv acc g0 st' \<and> gatherMono st st' \<and>
   (\<forall>m\<in>set ms. set (constraintsOf g0 m) \<subseteq> set (fst (snd (snd st'))) \<and>
      (kind = AllMentions \<longrightarrow>
        (\<forall>c\<in>set (constraintsOf g0 m). \<forall>adj\<in>set (constraintTypeVariables c).
           set (equivalenceClassOf g0 (getRepresentative cs adj)) \<subseteq> set (fst (snd st')))))"
proof (induction ms arbitrary: st)
  case Nil
  then show ?case by (simp add: gatherMono_refl)
next
  case (Cons m ms)
  obtain g tvs vis out where st: "st = (g, tvs, vis, out)" by (cases st)
  from Cons.prems(1) st obtain g1 st2 st3 where l: "lookupNode fuel cs m g = Some g1"
    and n: "gatherNodeConstraints fuel cs kind acc (constraintsOf g1 m) (g1, tvs, vis, out) = Some st2"
    and f: "addAdjacentConstraintsAll fuel cs acc (fixedBindingsOf g1 m) st2 = Some st3"
    and r: "gatherEquivalenceClass fuel cs kind acc ms st3 = Some st'"
    by (auto split: option.splits)
  from Cons.prems(2) st have f0: "gatherFrame g0 g" by (simp add: gatherInv_def)
  from gatherFrame_trans[OF f0 gatherFrame_ops(1)[OF l]] have f1: "gatherFrame g0 g1" .
  from Cons.prems(2) st f1 have inv1: "gatherInv acc g0 (g1, tvs, vis, out)"
    by (simp add: gatherInv_def)
  have mono1: "gatherMono st (g1, tvs, vis, out)" by (simp add: gatherMono_def st)
  note h2 = gatherNodeConstraints_inv[OF n inv1, unfolded gatherFrame_constraintsOf[OF f1]]
  note h3 = addAdjacentConstraintsAll_inv[OF f conjunct1[OF h2]]
  note ih = Cons.IH[OF r conjunct1[OF h3]]
  from h2 have s12: "gatherMono (g1, tvs, vis, out) st2" by simp
  from h3 have s23: "gatherMono st2 st3" by simp
  from ih have s3': "gatherMono st3 st'" by simp
  note m = gatherMono_trans[OF mono1 gatherMono_trans[OF s12 gatherMono_trans[OF s23 s3']]]
    gatherMono_trans[OF s23 s3']
  from h2 gatherMono_visited[OF m(2)] gatherMono_typeVars[OF m(2)]
  have here: "set (constraintsOf g0 m) \<subseteq> set (fst (snd (snd st'))) \<and>
      (kind = AllMentions \<longrightarrow>
        (\<forall>c\<in>set (constraintsOf g0 m). \<forall>adj\<in>set (constraintTypeVariables c).
           set (equivalenceClassOf g0 (getRepresentative cs adj)) \<subseteq> set (fst (snd st'))))"
    by blast
  with ih m(1) show ?case by simp
qed

text \<open>
  Claim C7, as amended. The result of \<^verbatim>\<open>gatherConstraints\<close> has no duplicates and
  every element satisfies the predicate. It holds every predicate-matching constraint
  of every member \<open>m\<close> of the equivalence class of the representative of the variable;
  and when the kind is \<^verbatim>\<open>AllMentions\<close>, then for every constraint \<open>c\<close> of such a member,
  whether \<open>c\<close> satisfies the predicate or not, and every variable \<open>v\<close> mentioned in
  \<open>c\<close>, it holds every predicate-matching constraint of every member of the
  equivalence class of the representative of \<open>v\<close>. Classes and constraint lists are
  those of the graph the call starts from.
\<close>

theorem gatherConstraints_result:
  assumes "gatherConstraints fuel cs typeVar kind acceptConstraint g = Some (g', constraints)"
  shows "distinct constraints \<and> (\<forall>c\<in>set constraints. acceptConstraint c) \<and>
    (\<forall>m\<in>set (equivalenceClassOf g (getRepresentative cs typeVar)). \<forall>c\<in>set (constraintsOf g m).
       (acceptConstraint c \<longrightarrow> c \<in> set constraints) \<and>
       (kind = AllMentions \<longrightarrow>
          (\<forall>v\<in>set (constraintTypeVariables c).
           \<forall>m'\<in>set (equivalenceClassOf g (getRepresentative cs v)).
           \<forall>c'\<in>set (constraintsOf g m'). acceptConstraint c' \<longrightarrow> c' \<in> set constraints)))"
proof -
  let ?r = "getRepresentative cs typeVar"
  from assms obtain g1 g2 cls tvs vis where l: "lookupNode fuel cs ?r g = Some g1"
    and e: "getEquivalenceClass cs ?r g1 = Some (g2, cls)"
    and w: "gatherEquivalenceClass fuel cs kind acceptConstraint cls (g2, [], [], [])
              = Some (g', tvs, vis, constraints)"
    by (auto simp: gatherConstraints_def split: option.splits prod.splits)
  from gatherFrame_ops(1)[OF l] have f1: "gatherFrame g g1" .
  from gatherFrame_trans[OF f1 getEquivalenceClass_frame(1)[OF e]] have f2: "gatherFrame g g2" .
  then have inv0: "gatherInv acceptConstraint g (g2, [], [], [])" by (simp add: gatherInv_def)
  note h = gatherEquivalenceClass_inv[OF w inv0]
  from h have inv: "distinct constraints" "set constraints \<subseteq> set vis"
    "\<forall>c\<in>set vis. acceptConstraint c \<longleftrightarrow> c \<in> set constraints"
    "\<forall>m\<in>set tvs. set (constraintsOf g m) \<subseteq> set vis"
    by (simp_all add: gatherInv_def)
  from h have cover: "\<forall>m\<in>set cls. set (constraintsOf g m) \<subseteq> set vis \<and>
      (kind = AllMentions \<longrightarrow>
        (\<forall>c\<in>set (constraintsOf g m). \<forall>adj\<in>set (constraintTypeVariables c).
           set (equivalenceClassOf g (getRepresentative cs adj)) \<subseteq> set tvs))"
    by simp
  from getEquivalenceClass_frame(2)[OF e] gatherFrame_class[OF f1, of ?r]
  have cls: "set (equivalenceClassOf g ?r) \<subseteq> set cls" by simp
  have acc: "\<forall>c\<in>set constraints. acceptConstraint c" using inv(2,3) by blast
  have main: "\<forall>m\<in>set (equivalenceClassOf g ?r). \<forall>c\<in>set (constraintsOf g m).
       (acceptConstraint c \<longrightarrow> c \<in> set constraints) \<and>
       (kind = AllMentions \<longrightarrow>
          (\<forall>v\<in>set (constraintTypeVariables c).
           \<forall>m'\<in>set (equivalenceClassOf g (getRepresentative cs v)).
           \<forall>c'\<in>set (constraintsOf g m'). acceptConstraint c' \<longrightarrow> c' \<in> set constraints))"
  proof (intro ballI conjI impI)
    fix m c assume m: "m \<in> set (equivalenceClassOf g ?r)" and c: "c \<in> set (constraintsOf g m)"
    from m cls have mc: "m \<in> set cls" by blast
    { assume "acceptConstraint c"
      moreover from cover mc c have "c \<in> set vis" by blast
      ultimately show "c \<in> set constraints" using inv(3) by blast }
    { fix v m' c'
      assume k: "kind = AllMentions" and v: "v \<in> set (constraintTypeVariables c)"
        and m': "m' \<in> set (equivalenceClassOf g (getRepresentative cs v))"
        and c': "c' \<in> set (constraintsOf g m')" and a: "acceptConstraint c'"
      from cover mc c k v m' have "m' \<in> set tvs" by blast
      with inv(4) c' have "c' \<in> set vis" by blast
      with a inv(3) show "c' \<in> set constraints" by blast }
  qed
  from inv(1) acc main show ?thesis by blast
qed

lemma chainCalls_result:
  "map_option (\<lambda>g. (map (constraintsOf g) [0, 1, 2], map (equivalenceClassOf g) [0, 1, 2]))
     (applyMutations 1 chainCalls emptyGraph)
   = Some ([[bind01], [bind01, equal12], [equal12]], [[0], [1], [2]])"
  by (simp add: graph_eval gather_eval)

theorem gatherConstraints_result_witness:
  "Option.bind (applyMutations 1 chainCalls emptyGraph)
     (gatherConstraints 0 unboundSystem 0 AllMentions isEqual) \<noteq> None \<and>
   distinct (snd (the (Option.bind (applyMutations 1 chainCalls emptyGraph)
     (gatherConstraints 0 unboundSystem 0 AllMentions isEqual)))) \<and>
   equal12 \<in> set (snd (the (Option.bind (applyMutations 1 chainCalls emptyGraph)
     (gatherConstraints 0 unboundSystem 0 AllMentions isEqual))))"
proof -
  obtain g where g: "applyMutations 1 chainCalls emptyGraph = Some g"
    using chainCalls_result by auto
  with chainCalls_result have facts: "constraintsOf g 0 = [bind01]"
    "constraintsOf g 1 = [bind01, equal12]" "equivalenceClassOf g 0 = [0]"
    "equivalenceClassOf g 1 = [1]"
    by simp_all
  have "map_option snd (Option.bind (applyMutations 1 chainCalls emptyGraph)
        (gatherConstraints 0 unboundSystem 0 AllMentions isEqual)) = Some [equal12]"
    by (simp add: graph_eval gather_eval)
  with g obtain g' constraints where
    r: "gatherConstraints 0 unboundSystem 0 AllMentions isEqual g = Some (g', constraints)"
    by auto
  note t = gatherConstraints_result[OF r]
  from t have d: "distinct constraints" by blast
  have rep: "getRepresentative unboundSystem 0 = 0" "getRepresentative unboundSystem 1 = 1"
    by (simp_all add: unboundSystem_def)
  have tv: "1 \<in> set (constraintTypeVariables bind01)" "isEqual equal12"
    by (simp_all add: bind01_def equal12_def isEqual_def)
  have m0: "0 \<in> set (equivalenceClassOf g (getRepresentative unboundSystem 0))"
    and c0: "bind01 \<in> set (constraintsOf g 0)"
    and m1: "1 \<in> set (equivalenceClassOf g (getRepresentative unboundSystem 1))"
    and c1: "equal12 \<in> set (constraintsOf g 1)"
    by (simp_all del: One_nat_def add: rep facts)
  from t have "\<forall>m\<in>set (equivalenceClassOf g (getRepresentative unboundSystem 0)).
     \<forall>c\<in>set (constraintsOf g m).
        (\<forall>v\<in>set (constraintTypeVariables c).
           \<forall>m'\<in>set (equivalenceClassOf g (getRepresentative unboundSystem v)).
           \<forall>c'\<in>set (constraintsOf g m'). isEqual c' \<longrightarrow> c' \<in> set constraints)"
    by blast
  with m0 c0 tv(1) m1 c1 tv(2) have "equal12 \<in> set constraints" by blast
  with d r g show ?thesis by simp
qed

subsection \<open>Edge contraction\<close>

text \<open>
  Modelled from the spec: the solver state of the constraint system, which is declared
  outside this file, with \<^verbatim>\<open>retireConstraint\<close> and \<^verbatim>\<open>removeGeneratedConstraint\<close>
  as operations on two lists.
\<close>

record SolverState =
  retiredConstraints :: "Constraint list"
  generatedConstraints :: "Constraint list"

definition retireConstraint :: "Constraint \<Rightarrow> SolverState \<Rightarrow> SolverState" where
  "retireConstraint c ss = ss\<lparr>retiredConstraints := c # retiredConstraints ss\<rparr>"

definition removeGeneratedConstraint :: "Constraint \<Rightarrow> SolverState \<Rightarrow> SolverState" where
  "removeGeneratedConstraint c ss = ss\<lparr>generatedConstraints := remove1 c (generatedConstraints ss)\<rparr>"

text \<open>
  What \<^verbatim>\<open>contractEdges\<close> and \<^verbatim>\<open>removeEdge\<close> use of the constraint system and of the
  type variables: the capability flags, the active and inactive constraint lists, the
  solver state, and the potential bindings of a type variable (the binding types, or
  \<open>None\<close> when \<^verbatim>\<open>if (auto bindings = ...)\<close> is not entered).
\<close>

record Solver =
  solverSystem :: ConstraintSystem
  canBindToInOut :: "tvar \<Rightarrow> bool"
  canBindToLValue :: "tvar \<Rightarrow> bool"
  getPotentialBindings :: "tvar \<Rightarrow> ty list option"
  ActiveConstraints :: "Constraint list"
  InactiveConstraints :: "Constraint list"
  solverState :: "SolverState option"

text \<open>Modelled from the spec: \<^verbatim>\<open>findConstraints\<close> enumerates the constraints of the
  active and the inactive list that satisfy the predicate.\<close>

definition findConstraints :: "Solver \<Rightarrow> (Constraint \<Rightarrow> bool) \<Rightarrow> Constraint list" where
  "findConstraints s p = filter p (ActiveConstraints s @ InactiveConstraints s)"

fun shouldContractEdge :: "ConstraintKind \<Rightarrow> bool" where
  "shouldContractEdge Bind = True"
| "shouldContractEdge BindParam = True"
| "shouldContractEdge BindToPointerType = True"
| "shouldContractEdge Equal = True"
| "shouldContractEdge _ = False"

definition removeEdge ::
  "nat \<Rightarrow> Constraint \<Rightarrow> Solver \<times> ConstraintGraph \<Rightarrow> (Solver \<times> ConstraintGraph) option" where
  "removeEdge fuel c w =
     (case w of (s, g) \<Rightarrow>
        let isExistingConstraint = (c \<in> set (ActiveConstraints s) \<or> c \<in> set (InactiveConstraints s));
            s1 = s\<lparr>ActiveConstraints := remove1 c (ActiveConstraints s),
                   InactiveConstraints := remove1 c (InactiveConstraints s)\<rparr>;
            s2 = s1\<lparr>solverState :=
                      map_option (if isExistingConstraint then retireConstraint c
                                  else removeGeneratedConstraint c) (solverState s1)\<rparr>
        in map_option (\<lambda>g'. (s2, g')) (removeConstraint fuel (solverSystem s2) c g))"

text \<open>The predicate given to \<^verbatim>\<open>findIf\<close>, and the loop over the potential bindings
  with its \<^verbatim>\<open>break\<close>.\<close>

definition mayBindInOut :: "(tvar \<Rightarrow> bool) \<Rightarrow> ty \<Rightarrow> bool" where
  "mayBindInOut inout nestedType =
     (case getAsTypeVariableType nestedType of
        Some tv \<Rightarrow> if inout tv then True else isInOutType nestedType
      | None \<Rightarrow> isInOutType nestedType)"

fun bindingsLoop :: "(tvar \<Rightarrow> bool) \<Rightarrow> bool \<Rightarrow> ty list \<Rightarrow> bool" where
  "bindingsLoop inout isNotContractable [] = isNotContractable"
| "bindingsLoop inout isNotContractable (type # rest) =
     (if findIf (mayBindInOut inout) type then True
      else bindingsLoop inout False rest)"

definition isNotContractable :: "Solver \<Rightarrow> tvar \<Rightarrow> bool" where
  "isNotContractable s tyvar1 =
     (case getPotentialBindings s tyvar1 of
        None \<Rightarrow> True
      | Some bindings \<Rightarrow> bindingsLoop (canBindToInOut s) True bindings)"

text \<open>
  The contraction itself: \<^verbatim>\<open>removeEdge\<close>, then the merge of the two representatives
  by the constraint system if they differ. \<^verbatim>\<open>mergeEquivalenceClasses\<close> belongs to the
  constraint system and is a parameter.
\<close>

type_synonym merging = "tvar \<Rightarrow> tvar \<Rightarrow> Solver \<times> ConstraintGraph \<Rightarrow> (Solver \<times> ConstraintGraph) option"

definition contract ::
  "merging \<Rightarrow> nat \<Rightarrow> Constraint \<Rightarrow> tvar \<Rightarrow> tvar \<Rightarrow> Solver \<times> ConstraintGraph
    \<Rightarrow> (Solver \<times> ConstraintGraph \<times> bool) option" where
  "contract mergeEquivalenceClasses fuel c rep1 rep2 w =
     (case removeEdge fuel c w of
        None \<Rightarrow> None
      | Some w1 \<Rightarrow>
          (case (if rep1 \<noteq> rep2 then mergeEquivalenceClasses rep1 rep2 w1 else Some w1) of
             None \<Rightarrow> None
           | Some (s2, g2) \<Rightarrow> Some (s2, g2, True)))"

text \<open>One iteration of the loop of \<^verbatim>\<open>contractEdges\<close>.\<close>

definition contractEdge ::
  "merging \<Rightarrow> nat \<Rightarrow> Constraint \<Rightarrow> Solver \<times> ConstraintGraph \<times> bool
    \<Rightarrow> (Solver \<times> ConstraintGraph \<times> bool) option" where
  "contractEdge mergeEquivalenceClasses fuel c st =
     (case st of (s, g, didContractEdges) \<Rightarrow>
        let kind = getKind c in
        if \<not> shouldContractEdge kind then None
        else
          case (getAsTypeVariableType (getDesugaredType (getFirstType c)),
                getAsTypeVariableType (getDesugaredType (getSecondType c))) of
            (Some tyvar1, Some tyvar2) \<Rightarrow>
              let isParamBindingConstraint = (kind = BindParam) in
              if isParamBindingConstraint \<and> canBindToInOut s tyvar1 \<and> isNotContractable s tyvar1
              then Some st
              else
                let rep1 = getRepresentative (solverSystem s) tyvar1;
                    rep2 = getRepresentative (solverSystem s) tyvar2
                in if canBindToLValue s rep1 = canBindToLValue s rep2 \<or> isParamBindingConstraint
                   then contract mergeEquivalenceClasses fuel c rep1 rep2 (s, g)
                   else Some st
          | _ \<Rightarrow> Some st)"

fun contractEdgesLoop ::
  "merging \<Rightarrow> nat \<Rightarrow> Constraint list \<Rightarrow> Solver \<times> ConstraintGraph \<times> bool
    \<Rightarrow> (Solver \<times> ConstraintGraph \<times> bool) option" where
  "contractEdgesLoop mergeEquivalenceClasses fuel [] st = Some st"
| "contractEdgesLoop mergeEquivalenceClasses fuel (c # rest) st =
     (case contractEdge mergeEquivalenceClasses fuel c st of
        None \<Rightarrow> None
      | Some st1 \<Rightarrow> contractEdgesLoop mergeEquivalenceClasses fuel rest st1)"

definition contractEdges ::
  "merging \<Rightarrow> nat \<Rightarrow> Solver \<times> ConstraintGraph \<Rightarrow> (Solver \<times> ConstraintGraph \<times> bool) option" where
  "contractEdges mergeEquivalenceClasses fuel w =
     (case w of (s, g) \<Rightarrow>
        contractEdgesLoop mergeEquivalenceClasses fuel
          (findConstraints s (\<lambda>c. shouldContractEdge (getKind c))) (s, g, False))"

lemma bindingsLoop_False: "bindingsLoop inout False bs = list_ex (findIf (mayBindInOut inout)) bs"
  by (induction bs) auto

lemma bindingsLoop_True:
  "bindingsLoop inout True bs \<longleftrightarrow> bs = [] \<or> list_ex (findIf (mayBindInOut inout)) bs"
  by (cases bs) (auto simp: bindingsLoop_False)

lemma getAs_desugared [simp]:
  "getAsTypeVariableType (getDesugaredType t) = getAsTypeVariableType t"
  by (induction t rule: getDesugaredType.induct) (simp_all add: getAsTypeVariableType_def)

text \<open>
  Modelled from the spec: \<^verbatim>\<open>mergeEquivalenceClasses\<close> of the constraint system, which
  makes the first representative the representative of the class of the second and
  has the graph witness the merge by \<^verbatim>\<open>mergeNodes\<close>.
\<close>

definition solverMergeEquivalenceClasses :: "nat \<Rightarrow> merging" where
  "solverMergeEquivalenceClasses fuel rep1 rep2 w =
     (case w of (s, g) \<Rightarrow>
        let cs = solverSystem s;
            cs' = cs\<lparr>getRepresentative :=
                       (\<lambda>tv. if getRepresentative cs tv = rep2 then rep1
                             else getRepresentative cs tv)\<rparr>
        in map_option (\<lambda>g'. (s\<lparr>solverSystem := cs'\<rparr>, g')) (mergeNodes fuel cs' rep1 rep2 g))"

definition bindParam01 :: Constraint where
  "bindParam01 = \<lparr>cid = 4, getKind = BindParam, getFirstType = TypeVariableType 0,
     getSecondType = TypeVariableType 1, constraintTypeVariables = [0, 1]\<rparr>"

text \<open>A solver in which type variable 0 can bind to \<^verbatim>\<open>inout\<close>, with the given
  potential bindings for every type variable.\<close>

definition inoutSolver :: "ty list option \<Rightarrow> Solver" where
  "inoutSolver bindings = \<lparr>solverSystem = unboundSystem, canBindToInOut = (\<lambda>tv. tv = 0),
     canBindToLValue = (\<lambda>tv. False), getPotentialBindings = (\<lambda>tv. bindings),
     ActiveConstraints = [bindParam01], InactiveConstraints = [], solverState = None\<rparr>"

lemmas contract_eval = contractEdges_def contractEdge_def contract_def removeEdge_def
  findConstraints_def isNotContractable_def mayBindInOut_def getAsTypeVariableType_def
  isInOutType_def inoutSolver_def bindParam01_def solverMergeEquivalenceClasses_def twoNodeGraph_def

text \<open>
  Claim C8 as stated fails: with an empty set of potential bindings no candidate is
  risky, and the edge is not contracted.
\<close>

theorem contractEdges_empty_bindings_counterexample:
  "canBindToInOut (inoutSolver (Some [])) 0 \<and>
   getPotentialBindings (inoutSolver (Some [])) 0 = Some [] \<and>
   map_option (\<lambda>(s, g, didContractEdges).
       (didContractEdges, ActiveConstraints s, constraintsOf g 0, equivalenceClassOf g 0))
     (Option.bind (addConstraint 0 unboundSystem bindParam01 twoNodeGraph)
        (\<lambda>g. contractEdges (solverMergeEquivalenceClasses 0) 0 (inoutSolver (Some []), g)))
   = Some (False, [bindParam01], [bindParam01], [0])"
  by (simp add: graph_eval contract_eval)

lemma contractEdges_harmless_binding:
  "map_option (\<lambda>(s, g, didContractEdges).
       (didContractEdges, ActiveConstraints s, constraintsOf g 0, equivalenceClassOf g 0))
     (Option.bind (addConstraint 0 unboundSystem bindParam01 twoNodeGraph)
        (\<lambda>g. contractEdges (solverMergeEquivalenceClasses 0) 0 (inoutSolver (Some [NominalType 0 []]), g)))
   = Some (True, [], [], [0, 1])"
  by (simp add: graph_eval contract_eval)

subsection \<open>Connected components\<close>

record RawOneWayComponent =
  rawTypeVars :: "tvar list"
  outAdjacencies :: "tvar list"
  inAdjacencies :: "tvar list"

record OneWayComponent =
  oneWayTypeVars :: "tvar list"
  dependsOn :: "nat list"

record Component =
  componentTypeVars :: "tvar list"
  componentConstraints :: "Constraint list"
  oneWayComponents :: "OneWayComponent list"

definition emptyRawOneWayComponent :: RawOneWayComponent where
  "emptyRawOneWayComponent = \<lparr>rawTypeVars = [], outAdjacencies = [], inAdjacencies = []\<rparr>"

definition emptyComponent :: Component where
  "emptyComponent = \<lparr>componentTypeVars = [], componentConstraints = [], oneWayComponents = []\<rparr>"

text \<open>
  The maps of the algorithm. \<^verbatim>\<open>representatives\<close> is only searched and updated and is a
  map; \<^verbatim>\<open>oneWayDigraph\<close> and \<^verbatim>\<open>componentIdxMap\<close> are also asked for their size or
  emptiness and are association lists with one entry for a key. \<open>modifyEntry\<close> is
  \<^verbatim>\<open>operator[]\<close> followed by an update of the entry.
\<close>

type_synonym digraph = "(tvar \<times> RawOneWayComponent) list"

definition modifyEntry ::
  "tvar \<Rightarrow> (RawOneWayComponent \<Rightarrow> RawOneWayComponent) \<Rightarrow> digraph \<Rightarrow> digraph" where
  "modifyEntry tv f d =
     (case map_of d tv of
        None \<Rightarrow> d @ [(tv, f emptyRawOneWayComponent)]
      | Some _ \<Rightarrow> map (\<lambda>(k, v). if k = tv then (k, f v) else (k, v)) d)"

definition insertIfUnique :: "tvar list \<Rightarrow> tvar \<Rightarrow> tvar list" where
  "insertIfUnique vector typeVar = (if typeVar \<in> set vector then vector else vector @ [typeVar])"

text \<open>\<^verbatim>\<open>findRepresentative\<close>, with path compression. The recursion follows the parent
  links; the fuel bounds its depth.\<close>

fun findRepresentative ::
  "nat \<Rightarrow> (tvar \<rightharpoonup> tvar) \<Rightarrow> tvar \<Rightarrow> (tvar \<times> (tvar \<rightharpoonup> tvar)) option" where
  "findRepresentative 0 representatives typeVar =
     (case representatives typeVar of None \<Rightarrow> Some (typeVar, representatives) | Some parent \<Rightarrow> None)"
| "findRepresentative (Suc fuel) representatives typeVar =
     (case representatives typeVar of
        None \<Rightarrow> Some (typeVar, representatives)
      | Some parent \<Rightarrow>
          (case findRepresentative fuel representatives parent of
             None \<Rightarrow> None
           | Some (rep, representatives') \<Rightarrow>
               Some (rep, if rep \<noteq> parent then representatives'(typeVar \<mapsto> rep)
                          else representatives')))"

definition unionSets ::
  "nat \<Rightarrow> tvar \<Rightarrow> tvar \<Rightarrow> (tvar \<rightharpoonup> tvar) \<Rightarrow> (bool \<times> (tvar \<rightharpoonup> tvar)) option" where
  "unionSets fuel typeVar1 typeVar2 representatives =
     (case findRepresentative fuel representatives typeVar1 of
        None \<Rightarrow> None
      | Some (rep1, representatives1) \<Rightarrow>
          (case findRepresentative fuel representatives1 typeVar2 of
             None \<Rightarrow> None
           | Some (rep2, representatives2) \<Rightarrow>
               if rep1 = rep2 then Some (False, representatives2)
               else if rep1 < rep2 then Some (True, representatives2(rep2 \<mapsto> rep1))
               else Some (True, representatives2(rep1 \<mapsto> rep2))))"

text \<open>Union of one type variable with each of a list.\<close>

fun unionWithAll ::
  "nat \<Rightarrow> tvar \<Rightarrow> tvar list \<Rightarrow> bool \<times> (tvar \<rightharpoonup> tvar) \<Rightarrow> (bool \<times> (tvar \<rightharpoonup> tvar)) option" where
  "unionWithAll fuel typeVar [] st = Some st"
| "unionWithAll fuel typeVar (otherTypeVar # rest) (anyUnioned, representatives) =
     (case unionSets fuel typeVar otherTypeVar representatives of
        None \<Rightarrow> None
      | Some (unioned, representatives') \<Rightarrow>
          unionWithAll fuel typeVar rest (anyUnioned \<or> unioned, representatives'))"

definition unionSetsViaConstraint ::
  "nat \<Rightarrow> Constraint \<Rightarrow> (tvar \<rightharpoonup> tvar) \<Rightarrow> (bool \<times> (tvar \<rightharpoonup> tvar)) option" where
  "unionSetsViaConstraint fuel c representatives =
     (let typeVars = constraintTypeVariables c
      in if length typeVars < 2 then Some (False, representatives)
         else unionWithAll fuel (hd typeVars) (tl typeVars) (False, representatives))"

definition isOneWay :: "Constraint \<Rightarrow> bool" where
  "isOneWay c \<longleftrightarrow> getKind c = OneWayBind \<or> getKind c = OneWayBindParam"

text \<open>\<^verbatim>\<open>connectedComponents\<close>: the loop over the constraints of a node, with the
  representatives, the visited constraints and the one-way constraints found.\<close>

type_synonym unionState = "(tvar \<rightharpoonup> tvar) \<times> Constraint list \<times> Constraint list"

fun unionNodeConstraints :: "nat \<Rightarrow> Constraint list \<Rightarrow> unionState \<Rightarrow> unionState option" where
  "unionNodeConstraints fuel [] st = Some st"
| "unionNodeConstraints fuel (c # rest) (representatives, visitedConstraints, oneWayConstraints) =
     (if c \<in> set visitedConstraints
      then unionNodeConstraints fuel rest (representatives, visitedConstraints, oneWayConstraints)
      else if isOneWay c
      then unionNodeConstraints fuel rest
             (representatives, c # visitedConstraints, oneWayConstraints @ [c])
      else
        case unionSetsViaConstraint fuel c representatives of
          None \<Rightarrow> None
        | Some (unioned, representatives') \<Rightarrow>
            unionNodeConstraints fuel rest
              (representatives', c # visitedConstraints, oneWayConstraints))"

fun connectedComponentsLoop ::
  "nat \<Rightarrow> ConstraintSystem \<Rightarrow> tvar list \<Rightarrow> ConstraintGraph \<times> unionState
    \<Rightarrow> (ConstraintGraph \<times> unionState) option" where
  "connectedComponentsLoop fuel cs [] st = Some st"
| "connectedComponentsLoop fuel cs (typeVar # rest) (g, representatives, visited, oneWay) =
     (let rep = getRepresentative cs typeVar
      in case lookupNode fuel cs rep g of
           None \<Rightarrow> None
         | Some g1 \<Rightarrow>
             (case getEquivalenceClass cs rep g1 of
                None \<Rightarrow> None
              | Some (g2, equivs) \<Rightarrow>
                  (case unionWithAll fuel typeVar equivs (False, representatives) of
                     None \<Rightarrow> None
                   | Some (u1, representatives1) \<Rightarrow>
                       (case lookupNode fuel cs typeVar g2 of
                          None \<Rightarrow> None
                        | Some g3 \<Rightarrow>
                            (case unionWithAll fuel typeVar (fixedBindingsOf g3 typeVar)
                                    (False, representatives1) of
                               None \<Rightarrow> None
                             | Some (u2, representatives2) \<Rightarrow>
                                 (case unionNodeConstraints fuel (constraintsOf g3 typeVar)
                                         (representatives2, visited, oneWay) of
                                    None \<Rightarrow> None
                                  | Some st3 \<Rightarrow>
                                      connectedComponentsLoop fuel cs rest (g3, st3)))))))"

text \<open>\<^verbatim>\<open>buildOneWayConstraintGraph\<close>.\<close>

fun getRepresentativesInType ::
  "nat \<Rightarrow> tvar list \<Rightarrow> tvar list \<times> (tvar \<rightharpoonup> tvar) \<Rightarrow> (tvar list \<times> (tvar \<rightharpoonup> tvar)) option" where
  "getRepresentativesInType fuel [] st = Some st"
| "getRepresentativesInType fuel (typeVar # rest) (results, representatives) =
     (case findRepresentative fuel representatives typeVar of
        None \<Rightarrow> None
      | Some (rep, representatives') \<Rightarrow>
          getRepresentativesInType fuel rest (insertIfUnique results rep, representatives'))"

definition addEdge :: "tvar \<Rightarrow> tvar \<Rightarrow> digraph \<Rightarrow> digraph" where
  "addEdge lhsTypeRep rhsTypeRep d =
     modifyEntry lhsTypeRep
       (\<lambda>r. r\<lparr>inAdjacencies := insertIfUnique (inAdjacencies r) rhsTypeRep\<rparr>)
       (modifyEntry rhsTypeRep
          (\<lambda>r. r\<lparr>outAdjacencies := insertIfUnique (outAdjacencies r) lhsTypeRep\<rparr>) d)"

fun addOneWayEdges ::
  "nat \<Rightarrow> Constraint list \<Rightarrow> digraph \<times> (tvar \<rightharpoonup> tvar) \<Rightarrow> (digraph \<times> (tvar \<rightharpoonup> tvar)) option" where
  "addOneWayEdges fuel [] st = Some st"
| "addOneWayEdges fuel (c # rest) (d, representatives) =
     (case getRepresentativesInType fuel (getTypeVariables (getFirstType c)) ([], representatives) of
        None \<Rightarrow> None
      | Some (lhsTypeReps, representatives1) \<Rightarrow>
          (case getRepresentativesInType fuel (getTypeVariables (getSecondType c))
                  ([], representatives1) of
             None \<Rightarrow> None
           | Some (rhsTypeReps, representatives2) \<Rightarrow>
               addOneWayEdges fuel rest
                 (fold (\<lambda>lhsTypeRep d'. fold (addEdge lhsTypeRep) rhsTypeReps d') lhsTypeReps d,
                  representatives2)))"

fun placeTypeVars ::
  "nat \<Rightarrow> tvar list \<Rightarrow> digraph \<times> (tvar \<rightharpoonup> tvar) \<Rightarrow> (digraph \<times> (tvar \<rightharpoonup> tvar)) option" where
  "placeTypeVars fuel [] st = Some st"
| "placeTypeVars fuel (typeVar # rest) (d, representatives) =
     (case findRepresentative fuel representatives typeVar of
        None \<Rightarrow> None
      | Some (rep, representatives') \<Rightarrow>
          placeTypeVars fuel rest
            (case map_of d rep of
               None \<Rightarrow> d
             | Some _ \<Rightarrow> modifyEntry rep (\<lambda>r. r\<lparr>rawTypeVars := rawTypeVars r @ [typeVar]\<rparr>) d,
             representatives'))"

definition buildOneWayConstraintGraph ::
  "nat \<Rightarrow> tvar list \<Rightarrow> Constraint list \<Rightarrow> (tvar \<rightharpoonup> tvar) \<Rightarrow> (digraph \<times> (tvar \<rightharpoonup> tvar)) option" where
  "buildOneWayConstraintGraph fuel typeVars oneWayConstraints representatives =
     (case addOneWayEdges fuel oneWayConstraints ([], representatives) of
        None \<Rightarrow> None
      | Some st \<Rightarrow> placeTypeVars fuel typeVars st)"

fun unionOneWayConstraints ::
  "nat \<Rightarrow> Constraint list \<Rightarrow> (tvar \<rightharpoonup> tvar) \<Rightarrow> (tvar \<rightharpoonup> tvar) option" where
  "unionOneWayConstraints fuel [] representatives = Some representatives"
| "unionOneWayConstraints fuel (c # rest) representatives =
     (case unionSetsViaConstraint fuel c representatives of
        None \<Rightarrow> None
      | Some (unioned, representatives') \<Rightarrow> unionOneWayConstraints fuel rest representatives')"

text \<open>The constructor of \<^verbatim>\<open>ConnectedComponents\<close>: the graph after the lookups, the
  representatives and the digraph of the one-way constraints.\<close>

definition ConnectedComponents ::
  "nat \<Rightarrow> ConstraintSystem \<Rightarrow> tvar list \<Rightarrow> ConstraintGraph
    \<Rightarrow> (ConstraintGraph \<times> (tvar \<rightharpoonup> tvar) \<times> digraph) option" where
  "ConnectedComponents fuel cs typeVars g =
     (case connectedComponentsLoop fuel cs typeVars (g, Map.empty, [], []) of
        None \<Rightarrow> None
      | Some (g1, representatives, visited, oneWayConstraints) \<Rightarrow>
          if oneWayConstraints = [] then Some (g1, representatives, [])
          else
            case buildOneWayConstraintGraph fuel typeVars oneWayConstraints representatives of
              None \<Rightarrow> None
            | Some (d, representatives1) \<Rightarrow>
                (case unionOneWayConstraints fuel oneWayConstraints representatives1 of
                   None \<Rightarrow> None
                 | Some representatives2 \<Rightarrow> Some (g1, representatives2, d)))"

text \<open>
  \<^verbatim>\<open>postorderDepthFirstSearchRec\<close>. The two callbacks read and update the state of
  their caller, which is passed through; \<open>getAdjacencies\<close> is called once for a type
  variable, before its adjacencies are visited. The fuel bounds the depth of the
  recursion.
\<close>

function postorderDepthFirstSearchRec ::
  "nat \<Rightarrow> (tvar \<Rightarrow> 's \<Rightarrow> (tvar list \<times> 's) option) \<Rightarrow> (tvar \<Rightarrow> 's \<Rightarrow> 's option) \<Rightarrow> tvar
    \<Rightarrow> 's \<times> tvar list \<Rightarrow> ('s \<times> tvar list) option"
  and postorderDepthFirstSearchAll ::
  "nat \<Rightarrow> (tvar \<Rightarrow> 's \<Rightarrow> (tvar list \<times> 's) option) \<Rightarrow> (tvar \<Rightarrow> 's \<Rightarrow> 's option) \<Rightarrow> tvar list
    \<Rightarrow> 's \<times> tvar list \<Rightarrow> ('s \<times> tvar list) option"
where
  "postorderDepthFirstSearchRec fuel getAdjacencies postVisit typeVar (st, visited) =
     (if typeVar \<in> set visited then Some (st, visited)
      else
        case fuel of
          0 \<Rightarrow> None
        | Suc fuel' \<Rightarrow>
            (case getAdjacencies typeVar st of
               None \<Rightarrow> None
             | Some (adjacencies, st1) \<Rightarrow>
                 (case postorderDepthFirstSearchAll fuel' getAdjacencies postVisit adjacencies
                         (st1, typeVar # visited) of
                    None \<Rightarrow> None
                  | Some (st2, visited2) \<Rightarrow>
                      (case postVisit typeVar st2 of
                         None \<Rightarrow> None
                       | Some st3 \<Rightarrow> Some (st3, visited2)))))"
| "postorderDepthFirstSearchAll fuel getAdjacencies postVisit [] sv = Some sv"
| "postorderDepthFirstSearchAll fuel getAdjacencies postVisit (typeVar # rest) sv =
     (case postorderDepthFirstSearchRec fuel getAdjacencies postVisit typeVar sv of
        None \<Rightarrow> None
      | Some sv1 \<Rightarrow> postorderDepthFirstSearchAll fuel getAdjacencies postVisit rest sv1)"
  by pat_completeness auto
termination
  by (relation "measures
        [\<lambda>x. case x of Inl (f, _) \<Rightarrow> f | Inr (f, _) \<Rightarrow> f,
         \<lambda>x. case x of Inl _ \<Rightarrow> 0 | Inr _ \<Rightarrow> 1,
         \<lambda>x. case x of Inl _ \<Rightarrow> 0 | Inr (_, _, _, tvs, _) \<Rightarrow> length tvs]")
     auto

declare postorderDepthFirstSearchRec.simps [simp del]

declare findRepresentative.simps [simp del]

text \<open>\<^verbatim>\<open>getComponents\<close>: the representatives of the components with an unbound type
  variable.\<close>

fun componentsWithUnbound ::
  "nat \<Rightarrow> ConstraintSystem \<Rightarrow> tvar list \<Rightarrow> tvar list \<times> (tvar \<rightharpoonup> tvar)
    \<Rightarrow> (tvar list \<times> (tvar \<rightharpoonup> tvar)) option" where
  "componentsWithUnbound fuel cs [] st = Some st"
| "componentsWithUnbound fuel cs (typeVar # rest) (componentHasUnboundTypeVar, representatives) =
     (if getFixedType cs typeVar \<noteq> None
      then componentsWithUnbound fuel cs rest (componentHasUnboundTypeVar, representatives)
      else
        case findRepresentative fuel representatives typeVar of
          None \<Rightarrow> None
        | Some (rep, representatives') \<Rightarrow>
            componentsWithUnbound fuel cs rest
              (List.insert rep componentHasUnboundTypeVar, representatives'))"

text \<open>The constraints of a type variable that are not yet known are appended to its
  component.\<close>

fun addComponentConstraints ::
  "Constraint list \<Rightarrow> Constraint list \<times> Constraint list \<Rightarrow> Constraint list \<times> Constraint list" where
  "addComponentConstraints [] st = st"
| "addComponentConstraints (c # rest) (knownConstraints, constraints) =
     (if c \<in> set knownConstraints then addComponentConstraints rest (knownConstraints, constraints)
      else addComponentConstraints rest (c # knownConstraints, constraints @ [c]))"

record Assignment =
  asGraph :: ConstraintGraph
  asRepresentatives :: "tvar \<rightharpoonup> tvar"
  components :: "Component list"
  componentIdxMap :: "(tvar \<times> nat) list"
  knownConstraints :: "Constraint list"

text \<open>The component of a representative is allocated when the representative is
  seen first; a type variable and those of its constraints that are not known yet
  are recorded in its component.\<close>

definition allocateComponent :: "tvar \<Rightarrow> Assignment \<Rightarrow> Assignment" where
  "allocateComponent rep a =
     (case map_of (componentIdxMap a) rep of
        Some _ \<Rightarrow> a
      | None \<Rightarrow>
          a\<lparr>componentIdxMap := componentIdxMap a @ [(rep, length (componentIdxMap a))],
            components := components a @ [emptyComponent]\<rparr>)"

definition recordTypeVar ::
  "nat \<Rightarrow> ConstraintSystem \<Rightarrow> tvar \<Rightarrow> nat \<Rightarrow> Assignment \<Rightarrow> Assignment option" where
  "recordTypeVar fuel cs typeVar componentIdx a =
     (if \<not> componentIdx < length (components a) then None
      else
        case lookupNode fuel cs typeVar (asGraph a) of
          None \<Rightarrow> None
        | Some g1 \<Rightarrow>
            let component = components a ! componentIdx;
                known = addComponentConstraints (constraintsOf g1 typeVar)
                          (knownConstraints a, componentConstraints component);
                component' = component\<lparr>
                   componentTypeVars := componentTypeVars component @ [typeVar],
                   componentConstraints := snd known\<rparr>
            in Some (a\<lparr>asGraph := g1, knownConstraints := fst known,
                       components := (components a)[componentIdx := component']\<rparr>))"

fun assignComponents ::
  "nat \<Rightarrow> ConstraintSystem \<Rightarrow> tvar list \<Rightarrow> tvar list \<Rightarrow> Assignment \<Rightarrow> Assignment option" where
  "assignComponents fuel cs componentHasUnboundTypeVar [] a = Some a"
| "assignComponents fuel cs componentHasUnboundTypeVar (typeVar # rest) a =
     (case findRepresentative fuel (asRepresentatives a) typeVar of
        None \<Rightarrow> None
      | Some (rep, representatives') \<Rightarrow>
          if rep \<notin> set componentHasUnboundTypeVar
          then assignComponents fuel cs componentHasUnboundTypeVar rest
                 (a\<lparr>asRepresentatives := representatives'\<rparr>)
          else
            let a1 = allocateComponent rep (a\<lparr>asRepresentatives := representatives'\<rparr>)
            in case map_of (componentIdxMap a1) rep of
                 None \<Rightarrow> None
               | Some componentIdx \<Rightarrow>
                   (case recordTypeVar fuel cs typeVar componentIdx a1 of
                      None \<Rightarrow> None
                    | Some a2 \<Rightarrow> assignComponents fuel cs componentHasUnboundTypeVar rest a2))"

text \<open>\<^verbatim>\<open>populateOneWayComponentDependencies\<close>: the callbacks of the first search, over
  the outgoing edges, with the representatives and the dependency orders as state.\<close>

definition outgoingAdjacencies ::
  "nat \<Rightarrow> (tvar \<times> nat) list \<Rightarrow> digraph \<Rightarrow> tvar \<Rightarrow> (tvar \<rightharpoonup> tvar) \<times> tvar list list
    \<Rightarrow> (tvar list \<times> (tvar \<rightharpoonup> tvar) \<times> tvar list list) option" where
  "outgoingAdjacencies fuel idxMap d typeVar st =
     (case st of (representatives, dependencyOrders) \<Rightarrow>
        case findRepresentative fuel representatives typeVar of
          None \<Rightarrow> None
        | Some (rep, representatives') \<Rightarrow>
            (case map_of idxMap rep of
               None \<Rightarrow> Some ([], representatives', dependencyOrders)
             | Some _ \<Rightarrow>
                 (case map_of d typeVar of
                    None \<Rightarrow> Some ([], representatives', dependencyOrders)
                  | Some oneWayComponent \<Rightarrow>
                      Some (outAdjacencies oneWayComponent, representatives', dependencyOrders))))"

definition recordDependencyOrder ::
  "nat \<Rightarrow> (tvar \<times> nat) list \<Rightarrow> digraph \<Rightarrow> tvar \<Rightarrow> (tvar \<rightharpoonup> tvar) \<times> tvar list list
    \<Rightarrow> ((tvar \<rightharpoonup> tvar) \<times> tvar list list) option" where
  "recordDependencyOrder fuel idxMap d typeVar st =
     (case st of (representatives, dependencyOrders) \<Rightarrow>
        case map_of d typeVar of
          None \<Rightarrow> Some st
        | Some _ \<Rightarrow>
            (case findRepresentative fuel representatives typeVar of
               None \<Rightarrow> None
             | Some (rep, representatives') \<Rightarrow>
                 (case map_of idxMap rep of
                    None \<Rightarrow> Some (representatives', dependencyOrders)
                  | Some componentIdx \<Rightarrow>
                      if \<not> componentIdx < length dependencyOrders then None
                      else Some (representatives',
                                 dependencyOrders[componentIdx :=
                                   dependencyOrders ! componentIdx @ [typeVar]]))))"

text \<open>The callbacks of the second search, backwards over the incoming edges, with
  the \<^verbatim>\<open>dependsOn\<close> vector of the one-way component under construction as state.\<close>

definition incomingAdjacencies :: "digraph \<Rightarrow> tvar \<Rightarrow> nat list \<Rightarrow> (tvar list \<times> nat list) option" where
  "incomingAdjacencies d typeVar deps =
     (case map_of d typeVar of
        None \<Rightarrow> Some ([], deps)
      | Some oneWayComponent \<Rightarrow> Some (inAdjacencies oneWayComponent, deps))"

definition recordDependsOn ::
  "(tvar \<times> nat) list \<Rightarrow> tvar \<Rightarrow> tvar \<Rightarrow> nat list \<Rightarrow> nat list option" where
  "recordDependsOn subcomponentIdxs typeVar dependsOnTypeVar deps =
     (if dependsOnTypeVar = typeVar then Some deps
      else
        case map_of subcomponentIdxs dependsOnTypeVar of
          None \<Rightarrow> None
        | Some subcomponentIdx \<Rightarrow> Some (deps @ [subcomponentIdx]))"

text \<open>The loop over the reversed dependency order of one component.\<close>

fun formOneWayComponents ::
  "nat \<Rightarrow> digraph \<Rightarrow> tvar list \<Rightarrow> OneWayComponent list \<times> (tvar \<times> nat) list
    \<Rightarrow> (OneWayComponent list \<times> (tvar \<times> nat) list) option" where
  "formOneWayComponents fuel d [] st = Some st"
| "formOneWayComponents fuel d (typeVar # rest) (oneWay, subcomponentIdxs) =
     (if map_of subcomponentIdxs typeVar \<noteq> None then None
      else
        let subcomponentIdxs' = subcomponentIdxs @ [(typeVar, length oneWay)];
            typeVars = (case map_of d typeVar of
                          Some rawOneWayComponent \<Rightarrow> rawTypeVars rawOneWayComponent
                        | None \<Rightarrow> [typeVar])
        in case postorderDepthFirstSearchRec fuel (incomingAdjacencies d)
                  (recordDependsOn subcomponentIdxs' typeVar) typeVar ([], []) of
             None \<Rightarrow> None
           | Some (deps, visited) \<Rightarrow>
               formOneWayComponents fuel d rest
                 (oneWay @ [\<lparr>oneWayTypeVars = typeVars, dependsOn = deps\<rparr>], subcomponentIdxs'))"

fun populateComponents ::
  "nat \<Rightarrow> digraph \<Rightarrow> tvar list list \<Rightarrow> Component list \<Rightarrow> Component list option" where
  "populateComponents fuel d [] cmps = Some cmps"
| "populateComponents fuel d (dependencyOrder # orders) [] = None"
| "populateComponents fuel d (dependencyOrder # orders) (component # cmps) =
     (case (if dependencyOrder = [] then Some component
            else map_option (\<lambda>(oneWay, idxs). component\<lparr>oneWayComponents := oneWay\<rparr>)
                   (formOneWayComponents fuel d (rev dependencyOrder)
                      (oneWayComponents component, []))) of
        None \<Rightarrow> None
      | Some component' \<Rightarrow>
          map_option ((#) component') (populateComponents fuel d orders cmps))"

definition populateOneWayComponentDependencies ::
  "nat \<Rightarrow> tvar list \<Rightarrow> digraph \<Rightarrow> (tvar \<times> nat) list \<Rightarrow> Component list \<Rightarrow> (tvar \<rightharpoonup> tvar)
    \<Rightarrow> (Component list \<times> (tvar \<rightharpoonup> tvar)) option" where
  "populateOneWayComponentDependencies fuel typeVars d idxMap cmps representatives =
     (case postorderDepthFirstSearchAll fuel (outgoingAdjacencies fuel idxMap d)
             (recordDependencyOrder fuel idxMap d) typeVars
             ((representatives, replicate (length cmps) []), []) of
        None \<Rightarrow> None
      | Some ((representatives', dependencyOrders), visited) \<Rightarrow>
          map_option (\<lambda>cmps'. (cmps', representatives'))
            (populateComponents fuel d dependencyOrders cmps))"

definition getComponents ::
  "nat \<Rightarrow> ConstraintSystem \<Rightarrow> tvar list \<Rightarrow> ConstraintGraph \<times> (tvar \<rightharpoonup> tvar) \<times> digraph
    \<Rightarrow> (ConstraintGraph \<times> Component list) option" where
  "getComponents fuel cs typeVars cc =
     (case cc of (g, representatives, d) \<Rightarrow>
        case componentsWithUnbound fuel cs typeVars ([], representatives) of
          None \<Rightarrow> None
        | Some (componentHasUnboundTypeVar, representatives1) \<Rightarrow>
            (case assignComponents fuel cs componentHasUnboundTypeVar typeVars
                    \<lparr>asGraph = g, asRepresentatives = representatives1, components = [],
                     componentIdxMap = [], knownConstraints = []\<rparr> of
               None \<Rightarrow> None
             | Some a \<Rightarrow>
                 if d = [] then Some (asGraph a, components a)
                 else map_option (\<lambda>(cmps, representatives2). (asGraph a, cmps))
                        (populateOneWayComponentDependencies fuel typeVars d
                           (componentIdxMap a) (components a) (asRepresentatives a))))"

definition computeConnectedComponents ::
  "nat \<Rightarrow> ConstraintSystem \<Rightarrow> tvar list \<Rightarrow> ConstraintGraph
    \<Rightarrow> (ConstraintGraph \<times> Component list) option" where
  "computeConnectedComponents fuel cs typeVars g =
     (case ConnectedComponents fuel cs typeVars g of
        None \<Rightarrow> None
      | Some cc \<Rightarrow> getComponents fuel cs typeVars cc)"

text \<open>Scenario S4 of the specification: \<open>Equal(T0, T1)\<close>, \<open>Equal(T2, T3)\<close>,
  \<open>OneWayBind(T0, T2)\<close>.\<close>

definition equal01 :: Constraint where
  "equal01 = \<lparr>cid = 5, getKind = Equal, getFirstType = TypeVariableType 0,
     getSecondType = TypeVariableType 1, constraintTypeVariables = [0, 1]\<rparr>"

definition equal23 :: Constraint where
  "equal23 = \<lparr>cid = 6, getKind = Equal, getFirstType = TypeVariableType 2,
     getSecondType = TypeVariableType 3, constraintTypeVariables = [2, 3]\<rparr>"

definition oneWay02 :: Constraint where
  "oneWay02 = \<lparr>cid = 7, getKind = OneWayBind, getFirstType = TypeVariableType 0,
     getSecondType = TypeVariableType 2, constraintTypeVariables = [0, 2]\<rparr>"

definition oneWayCalls :: "(ConstraintSystem \<times> Mutation) list" where
  "oneWayCalls =
     [(unboundSystem, AddConstraintCall equal01), (unboundSystem, AddConstraintCall equal23),
      (unboundSystem, AddConstraintCall oneWay02)]"

lemma findRepresentative_unfold:
  "findRepresentative fuel representatives typeVar =
     (case representatives typeVar of
        None \<Rightarrow> Some (typeVar, representatives)
      | Some parent \<Rightarrow>
          (case fuel of
             0 \<Rightarrow> None
           | Suc fuel' \<Rightarrow>
               (case findRepresentative fuel' representatives parent of
                  None \<Rightarrow> None
                | Some (rep, representatives') \<Rightarrow>
                    Some (rep, if rep \<noteq> parent then representatives'(typeVar \<mapsto> rep)
                               else representatives'))))"
  by (cases fuel) (auto simp: findRepresentative.simps split: option.splits)

lemmas components_eval = computeConnectedComponents_def ConnectedComponents_def
  getComponents_def populateOneWayComponentDependencies_def buildOneWayConstraintGraph_def
  unionSets_def unionSetsViaConstraint_def isOneWay_def addEdge_def modifyEntry_def
  insertIfUnique_def emptyRawOneWayComponent_def emptyComponent_def outgoingAdjacencies_def
  allocateComponent_def recordTypeVar_def
  recordDependencyOrder_def incomingAdjacencies_def recordDependsOn_def
  postorderDepthFirstSearchRec.simps getEquivalenceClass_def findRepresentative_unfold
  equal01_def equal23_def oneWay02_def oneWayCalls_def

lemma oneWayCalls_components:
  "map_option snd (Option.bind (applyMutations 1 oneWayCalls emptyGraph)
        (computeConnectedComponents 4 unboundSystem [0, 1, 2, 3]))
   = Some [\<lparr>componentTypeVars = [0, 1, 2, 3],
            componentConstraints = [equal01, oneWay02, equal23],
            oneWayComponents =
              [\<lparr>oneWayTypeVars = [2, 3], dependsOn = []\<rparr>,
               \<lparr>oneWayTypeVars = [0, 1], dependsOn = [0]\<rparr>]\<rparr>]"
  by (simp add: graph_eval components_eval)

subsection \<open>The order of the one-way components\<close>

text \<open>A property of the state that both callbacks preserve holds after the search.\<close>

lemma postorderDepthFirstSearch_invariant:
  fixes I :: "'s \<Rightarrow> bool"
  assumes adj: "\<And>tv st adjs st'. I st \<Longrightarrow> getAdjacencies tv st = Some (adjs, st') \<Longrightarrow> I st'"
    and post: "\<And>tv st st'. I st \<Longrightarrow> postVisit tv st = Some st' \<Longrightarrow> I st'"
  shows "postorderDepthFirstSearchRec fuel getAdjacencies postVisit tv sv = Some sv' \<Longrightarrow>
           I (fst sv) \<Longrightarrow> I (fst sv')"
    and "postorderDepthFirstSearchAll fuel getAdjacencies postVisit tvs sv = Some sv' \<Longrightarrow>
           I (fst sv) \<Longrightarrow> I (fst sv')"
proof (induction fuel arbitrary: tv sv sv' tvs)
  case 0
  {
    case 1
    obtain st vis where sv: "sv = (st, vis)" by (cases sv)
    from 1 show ?case
      by (auto simp: sv postorderDepthFirstSearchRec.simps split: if_splits)
  next
    case 2
    have rec0: "\<And>tv sv sv'. postorderDepthFirstSearchRec 0 getAdjacencies postVisit tv sv = Some sv'
        \<Longrightarrow> sv' = sv"
    proof -
      fix tv and sv sv' :: "'s \<times> tvar list"
      obtain st vis where sv: "sv = (st, vis)" by (cases sv)
      assume "postorderDepthFirstSearchRec 0 getAdjacencies postVisit tv sv = Some sv'"
      then show "sv' = sv"
        by (auto simp: sv postorderDepthFirstSearchRec.simps split: if_splits)
    qed
    from 2 show ?case
    proof (induction tvs arbitrary: sv)
      case Nil
      then show ?case by simp
    next
      case (Cons a tvs)
      from Cons.prems(1) obtain sv1 where
        a: "postorderDepthFirstSearchRec 0 getAdjacencies postVisit a sv = Some sv1"
        and r: "postorderDepthFirstSearchAll 0 getAdjacencies postVisit tvs sv1 = Some sv'"
        by (auto split: option.splits)
      from rec0[OF a] Cons.IH[OF r] Cons.prems(2) show ?case by simp
    qed
  }
next
  case (Suc fuel)
  {
    case 1
    obtain st vis where sv: "sv = (st, vis)" by (cases sv)
    show ?case
    proof (cases "tv \<in> set vis")
      case True
      with 1 sv show ?thesis by (simp add: postorderDepthFirstSearchRec.simps)
    next
      case False
      with 1(1) sv obtain adjs st1 sv2 st3 where
        g: "getAdjacencies tv st = Some (adjs, st1)" and
        r: "postorderDepthFirstSearchAll fuel getAdjacencies postVisit adjs (st1, tv # vis) = Some sv2"
        and p: "postVisit tv (fst sv2) = Some st3" and sv': "sv' = (st3, snd sv2)"
        by (auto simp: postorderDepthFirstSearchRec.simps split: option.splits)
      from 1(2) sv have "I st" by simp
      from adj[OF this g] have "I (fst (st1, tv # vis))" by simp
      from Suc.IH(2)[OF r this] have "I (fst sv2)" .
      from post[OF this p] sv' show ?thesis by simp
    qed
  next
    case 2
    have rec: "\<And>tv sv sv'. postorderDepthFirstSearchRec (Suc fuel) getAdjacencies postVisit tv sv = Some sv'
        \<Longrightarrow> I (fst sv) \<Longrightarrow> I (fst sv')"
    proof -
      fix tv and sv sv' :: "'s \<times> tvar list"
      obtain st vis where sv: "sv = (st, vis)" by (cases sv)
      assume a: "postorderDepthFirstSearchRec (Suc fuel) getAdjacencies postVisit tv sv = Some sv'"
        and i: "I (fst sv)"
      show "I (fst sv')"
      proof (cases "tv \<in> set vis")
        case True
        with a i sv show ?thesis by (simp add: postorderDepthFirstSearchRec.simps)
      next
        case False
        with a sv obtain adjs st1 sv2 st3 where
          g: "getAdjacencies tv st = Some (adjs, st1)" and
          r: "postorderDepthFirstSearchAll fuel getAdjacencies postVisit adjs (st1, tv # vis) = Some sv2"
          and p: "postVisit tv (fst sv2) = Some st3" and sv': "sv' = (st3, snd sv2)"
          by (auto simp: postorderDepthFirstSearchRec.simps split: option.splits)
        from i sv have "I st" by simp
        from adj[OF this g] have "I (fst (st1, tv # vis))" by simp
        from Suc.IH(2)[OF r this] have "I (fst sv2)" .
        from post[OF this p] sv' show ?thesis by simp
      qed
    qed
    from 2 show ?case
    proof (induction tvs arbitrary: sv)
      case Nil
      then show ?case by simp
    next
      case (Cons a tvs)
      from Cons.prems(1) obtain sv1 where
        a: "postorderDepthFirstSearchRec (Suc fuel) getAdjacencies postVisit a sv = Some sv1"
        and r: "postorderDepthFirstSearchAll (Suc fuel) getAdjacencies postVisit tvs sv1 = Some sv'"
        by (auto split: option.splits)
      from Cons.IH[OF r rec[OF a Cons.prems(2)]] show ?case .
    qed
  }
qed

definition dependenciesBackwards :: "OneWayComponent list \<Rightarrow> bool" where
  "dependenciesBackwards oneWay \<longleftrightarrow>
     (\<forall>i<length oneWay. \<forall>j\<in>set (dependsOn (oneWay ! i)). j < i)"

lemma dependenciesBackwards_Nil [simp]: "dependenciesBackwards []"
  by (simp add: dependenciesBackwards_def)

lemma dependenciesBackwards_snoc:
  "dependenciesBackwards oneWay \<Longrightarrow> \<forall>j\<in>set (dependsOn c). j < length oneWay \<Longrightarrow>
   dependenciesBackwards (oneWay @ [c])"
  by (auto simp: dependenciesBackwards_def nth_append less_Suc_eq)

lemma map_of_snoc:
  "map_of (xs @ [(k, v)]) x = (case map_of xs x of Some y \<Rightarrow> Some y | None \<Rightarrow> if x = k then Some v else None)"
  by (induction xs) (auto split: option.splits)

lemma formOneWayComponents_backwards:
  "formOneWayComponents fuel d tvs (oneWay, idxs) = Some (oneWay', idxs') \<Longrightarrow>
   dependenciesBackwards oneWay \<Longrightarrow> \<forall>tv k. map_of idxs tv = Some k \<longrightarrow> k < length oneWay \<Longrightarrow>
   dependenciesBackwards oneWay'"
proof (induction tvs arbitrary: oneWay idxs)
  case Nil
  then show ?case by simp
next
  case (Cons tv tvs)
  let ?idxs = "idxs @ [(tv, length oneWay)]"
  let ?tvs = "case map_of d tv of Some raw \<Rightarrow> rawTypeVars raw | None \<Rightarrow> [tv]"
  from Cons.prems(1) have fresh: "map_of idxs tv = None"
    by (auto split: if_splits)
  with Cons.prems(1) obtain deps visited where
    s: "postorderDepthFirstSearchRec fuel (incomingAdjacencies d) (recordDependsOn ?idxs tv) tv
          ([], []) = Some (deps, visited)"
    and r: "formOneWayComponents fuel d tvs
          (oneWay @ [\<lparr>oneWayTypeVars = ?tvs, dependsOn = deps\<rparr>], ?idxs) = Some (oneWay', idxs')"
    by (auto simp: Let_def split: option.splits)
  define I where "I = (\<lambda>deps :: nat list. \<forall>j\<in>set deps. j < length oneWay)"
  have adj: "\<And>v st adjs st'. I st \<Longrightarrow> incomingAdjacencies d v st = Some (adjs, st') \<Longrightarrow> I st'"
    by (auto simp: incomingAdjacencies_def split: option.splits)
  have post: "\<And>v st st'. I st \<Longrightarrow> recordDependsOn ?idxs tv v st = Some st' \<Longrightarrow> I st'"
  proof -
    fix v st st' assume i: "I st" and p: "recordDependsOn ?idxs tv v st = Some st'"
    show "I st'"
    proof (cases "v = tv")
      case True
      with p i show ?thesis by (simp add: recordDependsOn_def)
    next
      case False
      with p obtain k where k: "map_of ?idxs v = Some k" and st': "st' = st @ [k]"
        by (auto simp: recordDependsOn_def split: option.splits)
      from k False have "map_of idxs v = Some k"
        by (auto simp: map_of_snoc split: option.splits if_splits)
      with Cons.prems(3) have "k < length oneWay" by blast
      with i st' show ?thesis by (simp add: I_def)
    qed
  qed
  have "I (fst (deps, visited))"
  proof (rule postorderDepthFirstSearch_invariant(1)[where I = I and sv = "([], [])", OF _ _ s])
    show "\<And>v st adjs st'. I st \<Longrightarrow> incomingAdjacencies d v st = Some (adjs, st') \<Longrightarrow> I st'"
      by (rule adj)
    show "\<And>v st st'. I st \<Longrightarrow> recordDependsOn ?idxs tv v st = Some st' \<Longrightarrow> I st'"
      by (rule post)
    show "I (fst ([], []))" unfolding I_def by simp
  qed
  then have deps: "\<forall>j\<in>set deps. j < length oneWay" unfolding I_def by simp
  have b: "dependenciesBackwards (oneWay @ [\<lparr>oneWayTypeVars = ?tvs, dependsOn = deps\<rparr>])"
    by (rule dependenciesBackwards_snoc[OF Cons.prems(2)]) (simp add: deps)
  have m: "\<forall>v k. map_of ?idxs v = Some k \<longrightarrow>
      k < length (oneWay @ [\<lparr>oneWayTypeVars = ?tvs, dependsOn = deps\<rparr>])"
    using Cons.prems(3) by (auto simp: map_of_snoc less_Suc_eq split: option.splits if_splits)
  from Cons.IH[OF r b m] show ?case .
qed

lemma populateComponents_backwards:
  "populateComponents fuel d orders cmps = Some cmps' \<Longrightarrow>
   \<forall>c\<in>set cmps. oneWayComponents c = [] \<Longrightarrow>
   \<forall>c\<in>set cmps'. dependenciesBackwards (oneWayComponents c)"
proof (induction fuel d orders cmps arbitrary: cmps' rule: populateComponents.induct)
  case (1 fuel d cmps)
  then show ?case by auto
next
  case (2 fuel d dependencyOrder orders)
  then show ?case by simp
next
  case (3 fuel d dependencyOrder orders component cmps)
  from "3.prems"(1) obtain component' rest where
    c: "(if dependencyOrder = [] then Some component
            else map_option (\<lambda>(oneWay, idxs). component\<lparr>oneWayComponents := oneWay\<rparr>)
                   (formOneWayComponents fuel d (rev dependencyOrder)
                      (oneWayComponents component, []))) = Some component'"
    and r: "populateComponents fuel d orders cmps = Some rest" and cmps': "cmps' = component' # rest"
    by (auto split: option.splits)
  from "3.prems"(2) have e: "oneWayComponents component = []" by simp
  have "dependenciesBackwards (oneWayComponents component')"
  proof (cases "dependencyOrder = []")
    case True
    with c e show ?thesis by simp
  next
    case False
    with c obtain oneWay idxs where
      f: "formOneWayComponents fuel d (rev dependencyOrder) (oneWayComponents component, [])
            = Some (oneWay, idxs)" and c': "component' = component\<lparr>oneWayComponents := oneWay\<rparr>"
      by auto
    from formOneWayComponents_backwards[OF f] e c' show ?thesis by simp
  qed
  moreover from "3.IH"[OF c r] "3.prems"(2)
  have "\<forall>c\<in>set rest. dependenciesBackwards (oneWayComponents c)" by simp
  ultimately show ?case using cmps' by simp
qed

lemma allocateComponent_oneWay:
  "\<forall>c\<in>set (components a). oneWayComponents c = [] \<Longrightarrow>
   \<forall>c\<in>set (components (allocateComponent rep a)). oneWayComponents c = []"
  by (auto simp: allocateComponent_def emptyComponent_def split: option.splits)

lemma recordTypeVar_oneWay:
  assumes "recordTypeVar fuel cs tv idx a = Some a'"
    and "\<forall>c\<in>set (components a). oneWayComponents c = []"
  shows "\<forall>c\<in>set (components a'). oneWayComponents c = []"
proof -
  from assms(1) have idx: "idx < length (components a)"
    by (simp add: recordTypeVar_def split: if_splits)
  with assms(1) obtain g1 where "lookupNode fuel cs tv (asGraph a) = Some g1"
    and a': "a' = (let component = components a ! idx;
                known = addComponentConstraints (constraintsOf g1 tv)
                          (knownConstraints a, componentConstraints component);
                component' = component\<lparr>
                   componentTypeVars := componentTypeVars component @ [tv],
                   componentConstraints := snd known\<rparr>
            in a\<lparr>asGraph := g1, knownConstraints := fst known,
                       components := (components a)[idx := component']\<rparr>)"
    by (auto simp: recordTypeVar_def Let_def split: option.splits)
  define c' where "c' = (components a ! idx)\<lparr>
       componentTypeVars := componentTypeVars (components a ! idx) @ [tv],
       componentConstraints := snd (addComponentConstraints (constraintsOf g1 tv)
                          (knownConstraints a, componentConstraints (components a ! idx)))\<rparr>"
  have c': "oneWayComponents c' = oneWayComponents (components a ! idx)"
    by (simp add: c'_def)
  have cs: "components a' = (components a)[idx := c']"
    by (simp add: a' c'_def Let_def)
  show ?thesis
  proof
    fix c assume "c \<in> set (components a')"
    with cs have "c = c' \<or> c \<in> set (components a)"
      by (auto dest: set_update_subset_insert[THEN subsetD])
    with assms(2) c' idx show "oneWayComponents c = []" by auto
  qed
qed

lemma assignComponents_oneWay:
  "assignComponents fuel cs unbound tvs a = Some a' \<Longrightarrow>
   \<forall>c\<in>set (components a). oneWayComponents c = [] \<Longrightarrow>
   \<forall>c\<in>set (components a'). oneWayComponents c = []"
proof (induction tvs arbitrary: a)
  case Nil
  then show ?case by simp
next
  case (Cons tv tvs)
  from Cons.prems(1) obtain rep reps where
    f: "findRepresentative fuel (asRepresentatives a) tv = Some (rep, reps)"
    by (auto split: option.splits)
  show ?case
  proof (cases "rep \<in> set unbound")
    case False
    with Cons.prems(1) f have
      "assignComponents fuel cs unbound tvs (a\<lparr>asRepresentatives := reps\<rparr>) = Some a'"
      by simp
    from Cons.IH[OF this] Cons.prems(2) show ?thesis by simp
  next
    case True
    let ?a1 = "allocateComponent rep (a\<lparr>asRepresentatives := reps\<rparr>)"
    from Cons.prems(1) f True obtain idx a2 where
      rt: "recordTypeVar fuel cs tv idx ?a1 = Some a2" and
      r: "assignComponents fuel cs unbound tvs a2 = Some a'"
      by (auto simp: Let_def split: option.splits)
    have "\<forall>c\<in>set (components ?a1). oneWayComponents c = []"
      by (rule allocateComponent_oneWay) (use Cons.prems(2) in simp)
    from Cons.IH[OF r recordTypeVar_oneWay[OF rt this]] show ?thesis .
  qed
qed

subsection \<open>The journal and the vector of type variables\<close>

text \<open>The type variables a journal entry names: its undo looks their nodes up.\<close>

fun changeNames :: "Change \<Rightarrow> tvar list" where
  "changeNames (AddedTypeVariable tv) = []"
| "changeNames (AddedConstraint c) = constraintTypeVariables c"
| "changeNames (RemovedConstraint c) = constraintTypeVariables c"
| "changeNames (ExtendedEquivalenceClass tv n) = [tv]"
| "changeNames (BoundTypeVariable tv fixed) = tv # getTypeVariables fixed"

text \<open>
  The journal, newest entry first, fits the vector of type variables: the entry
  \<^verbatim>\<open>AddedTypeVariable\<close> of a variable finds it in the last slot of the vector as it was
  when the entry was made, and every other entry names only variables that were in
  the vector then.
\<close>

fun journalOK :: "tvar list \<Rightarrow> Change list \<Rightarrow> bool" where
  "journalOK tvs [] = True"
| "journalOK tvs (AddedTypeVariable tv # older) =
     (tvs \<noteq> [] \<and> last tvs = tv \<and> journalOK (butlast tvs) older)"
| "journalOK tvs (ch # older) = (set (changeNames ch) \<subseteq> set tvs \<and> journalOK tvs older)"

text \<open>The open scopes, innermost first: each was opened at a journal length that
  the journal still has, the outermost at length 0; without a scope the journal is
  empty.\<close>

fun scopesOK :: "nat \<Rightarrow> nat list \<Rightarrow> bool" where
  "scopesOK n [] = (n = 0)"
| "scopesOK n (numChanges # scopes) = (numChanges \<le> n \<and> scopesOK numChanges scopes)"

definition graphOK :: "ConstraintGraph \<Rightarrow> bool" where
  "graphOK g \<longleftrightarrow>
     distinct (TypeVariables g) \<and>
     dom (graphNode g) = set (TypeVariables g) \<and>
     (\<forall>i<length (TypeVariables g). graphIndex g (TypeVariables g ! i) = i) \<and>
     journalOK (TypeVariables g) (rev (Changes g)) \<and>
     scopesOK (length (Changes g)) (ActiveScope g)"

lemma graphOK_emptyGraph: "graphOK emptyGraph"
  by (simp add: graphOK_def emptyGraph_def)

lemma scopesOK_grow:
  "scopesOK n scopes \<Longrightarrow> scopes \<noteq> [] \<Longrightarrow> n \<le> m \<Longrightarrow> scopesOK m scopes"
  by (cases scopes) auto

lemma journalOK_other:
  "\<not> (\<exists>tv. ch = AddedTypeVariable tv) \<Longrightarrow>
   journalOK tvs (ch # older) = (set (changeNames ch) \<subseteq> set tvs \<and> journalOK tvs older)"
  by (cases ch) auto

lemma graphOK_recordChange:
  assumes ok: "graphOK g" and ch: "\<not> (\<exists>tv. ch = AddedTypeVariable tv)"
    and names: "set (changeNames ch) \<subseteq> dom (graphNode g)"
  shows "graphOK (recordChange ch g)"
proof (cases "ActiveScope g = []")
  case True
  with ok show ?thesis by (simp add: recordChange_def)
next
  case False
  from ok have d: "dom (graphNode g) = set (TypeVariables g)" by (simp add: graphOK_def)
  from ok False have s: "scopesOK (Suc (length (Changes g))) (ActiveScope g)"
    by (auto simp: graphOK_def intro: scopesOK_grow)
  from ok names d ch s False show ?thesis
    by (auto simp: graphOK_def recordChange_def journalOK_other)
qed

lemma graphOK_createNode:
  assumes ok: "graphOK g" and new: "graphNode g tv = None"
  shows "graphOK (createNode tv g)"
proof -
  from ok have d: "dom (graphNode g) = set (TypeVariables g)"
    and dist: "distinct (TypeVariables g)"
    and idx: "\<forall>i<length (TypeVariables g). graphIndex g (TypeVariables g ! i) = i"
    and j: "journalOK (TypeVariables g) (rev (Changes g))"
    and s: "scopesOK (length (Changes g)) (ActiveScope g)"
    by (simp_all add: graphOK_def)
  from new d have notin: "tv \<notin> set (TypeVariables g)" by (metis domIff)
  have i': "\<forall>i<length (TypeVariables g @ [tv]).
      ((graphIndex g)(tv := length (TypeVariables g))) ((TypeVariables g @ [tv]) ! i) = i"
    using idx notin by (auto simp: nth_append less_Suc_eq)
  show ?thesis
  proof (cases "ActiveScope g = []")
    case True
    with s have "Changes g = []" by simp
    with True dist d notin i' show ?thesis
      by (auto simp: graphOK_def createNode_def recordChange_def)
  next
    case False
    with s have "scopesOK (Suc (length (Changes g))) (ActiveScope g)"
      by (auto intro: scopesOK_grow)
    with False dist d notin i' j show ?thesis
      by (auto simp: graphOK_def createNode_def recordChange_def)
  qed
qed

lemma graphOK_onNode:
  assumes ok: "graphOK g" and a: "onNode tv f g = Some g'"
  shows "graphOK g'"
  using ok onNode_frame[OF a] by (simp add: graphOK_def)

lemma onNode_dom: "onNode tv f g = Some g' \<Longrightarrow> tv \<in> dom (graphNode g)"
  by (auto simp: onNode_def split: option.splits)

lemma graphOK_recordExtended:
  assumes ok: "graphOK g" and a: "recordExtendedEquivalenceClass cs r g = Some g'"
  shows "graphOK g'"
proof (cases "ActiveScope g = []")
  case True
  with a ok show ?thesis by (simp add: recordExtendedEquivalenceClass_def)
next
  case False
  with a obtain g1 n where m: "onNode r (\<lambda>n. Some (materialize n)) g = Some g1"
    and g': "g' = recordChange (ExtendedEquivalenceClass r n) g1"
    by (auto simp: recordExtendedEquivalenceClass_def split: if_splits option.splits)
  from onNode_dom[OF m] onNode_frame(6)[OF m] have "r \<in> dom (graphNode g1)" by simp
  with graphOK_recordChange[OF graphOK_onNode[OF ok m], of "ExtendedEquivalenceClass r n"] g'
  show ?thesis by simp
qed

lemma graphOK_mergeEquivalenceClass:
  assumes ok: "graphOK g" and a: "mergeEquivalenceClass cs r nr g = Some g'"
  shows "graphOK g'"
  using ok mergeEquivalenceClass_frame[OF a] by (simp add: graphOK_def)

lemma graphOK_addFixedBindingPair:
  assumes ok: "graphOK g" and a: "addFixedBindingPair tv other g = Some g'"
  shows "graphOK g'"
  using ok addFixedBindingPair_frame[OF a] by (simp add: graphOK_def)

lemma addFixedBindingPair_dom:
  "addFixedBindingPair tv other g = Some g' \<Longrightarrow> other \<in> dom (graphNode g)"
  by (auto simp: addFixedBindingPair_def split: option.splits dest: onNode_dom)

lemma opFrame_dom: "opFrame g g' \<Longrightarrow> x \<in> dom (graphNode g) \<Longrightarrow> x \<in> dom (graphNode g')"
  by (auto simp: opFrame_def)

text \<open>Looking a node up, merging and binding keep the graph well formed; a looked-up
  variable has a node afterwards, and so has every variable the binding loop passed.\<close>

lemma graphOK_ops:
  "lookupNode fuel cs tv g = Some g' \<Longrightarrow>
     (graphOK g \<longrightarrow> graphOK g') \<and> tv \<in> dom (graphNode g')"
  "mergeNodes fuel cs tv1 tv2 g = Some g' \<Longrightarrow> graphOK g \<longrightarrow> graphOK g'"
  "bindTypeVariable fuel cs tv fixed g = Some g' \<Longrightarrow> graphOK g \<longrightarrow> graphOK g'"
  "bindLoop fuel cs tv tvs known g = Some g' \<Longrightarrow>
     (graphOK g \<longrightarrow> graphOK g') \<and>
     (\<forall>x\<in>set tvs. x = tv \<or> x \<in> set known \<or> x \<in> dom (graphNode g'))"
proof -
  define PL where "PL = (\<lambda>(fuel::nat) (cs::ConstraintSystem) tv g g'.
     (graphOK g \<longrightarrow> graphOK g') \<and> tv \<in> dom (graphNode g'))"
  define PM where "PM = (\<lambda>(fuel::nat) (cs::ConstraintSystem) (tv1::tvar) (tv2::tvar) g g'.
     graphOK g \<longrightarrow> graphOK g')"
  define PB where "PB = (\<lambda>(fuel::nat) (cs::ConstraintSystem) (tv::tvar) (fixed::ty) g g'.
     graphOK g \<longrightarrow> graphOK g')"
  define PBL where "PBL = (\<lambda>(fuel::nat) (cs::ConstraintSystem) tv tvs known g g'.
     (graphOK g \<longrightarrow> graphOK g') \<and>
     (\<forall>x\<in>set tvs. x = tv \<or> x \<in> set known \<or> x \<in> dom (graphNode g')))"
  have A1: "\<And>fuel cs tv g n. graphNode g tv = Some n \<Longrightarrow>
        graphIndex g tv < length (TypeVariables g) \<Longrightarrow>
        TypeVariables g ! graphIndex g tv = tv \<Longrightarrow> PL fuel cs tv g g"
    by (auto simp: PL_def)
  have A2: "\<And>fuel cs tv g g'. graphNode g tv = None \<Longrightarrow>
        tv \<noteq> getRepresentative cs tv \<Longrightarrow>
        mergeNodes fuel cs tv (getRepresentative cs tv) (createNode tv g) = Some g' \<Longrightarrow>
        PM fuel cs tv (getRepresentative cs tv) (createNode tv g) g' \<Longrightarrow>
        PL (Suc fuel) cs tv g g'"
  proof -
    fix fuel cs tv g g'
    assume n: "graphNode g tv = None"
      and m: "mergeNodes fuel cs tv (getRepresentative cs tv) (createNode tv g) = Some g'"
      and ih: "PM fuel cs tv (getRepresentative cs tv) (createNode tv g) g'"
    have "tv \<in> dom (graphNode (createNode tv g))" by (simp add: createNode_graphNode)
    with opFrame_ops(2)[OF m] have "tv \<in> dom (graphNode g')" by (rule opFrame_dom)
    with ih graphOK_createNode[OF _ n] show "PL (Suc fuel) cs tv g g'"
      by (auto simp: PL_def PM_def)
  qed
  have A3: "\<And>fuel cs tv g fixed g'. graphNode g tv = None \<Longrightarrow>
        tv = getRepresentative cs tv \<Longrightarrow> getFixedType cs tv = Some fixed \<Longrightarrow>
        bindTypeVariable fuel cs tv fixed (createNode tv g) = Some g' \<Longrightarrow>
        PB fuel cs tv fixed (createNode tv g) g' \<Longrightarrow>
        PL (Suc fuel) cs tv g g'"
  proof -
    fix fuel cs tv g fixed g'
    assume n: "graphNode g tv = None"
      and m: "bindTypeVariable fuel cs tv fixed (createNode tv g) = Some g'"
      and ih: "PB fuel cs tv fixed (createNode tv g) g'"
    have "tv \<in> dom (graphNode (createNode tv g))" by (simp add: createNode_graphNode)
    with opFrame_ops(3)[OF m] have "tv \<in> dom (graphNode g')" by (rule opFrame_dom)
    with ih graphOK_createNode[OF _ n] show "PL (Suc fuel) cs tv g g'"
      by (auto simp: PL_def PB_def)
  qed
  have A4: "\<And>fuel cs tv g. graphNode g tv = None \<Longrightarrow>
        tv = getRepresentative cs tv \<Longrightarrow> getFixedType cs tv = None \<Longrightarrow>
        PL (Suc fuel) cs tv g (createNode tv g)"
    by (auto simp: PL_def createNode_graphNode intro: graphOK_createNode)
  have A5: "\<And>fuel cs tv1 tv2 g g1 g2 g3 g' r nr.
        getRepresentative cs tv1 = getRepresentative cs tv2 \<Longrightarrow>
        r = getRepresentative cs tv1 \<Longrightarrow>
        lookupNode fuel cs r g = Some g1 \<Longrightarrow> PL fuel cs r g g1 \<Longrightarrow>
        tv1 = r \<or> tv2 = r \<Longrightarrow> nr = (if tv1 = r then tv2 else tv1) \<Longrightarrow>
        recordExtendedEquivalenceClass cs r g1 = Some g2 \<Longrightarrow>
        lookupNode fuel cs nr g2 = Some g3 \<Longrightarrow> PL fuel cs nr g2 g3 \<Longrightarrow>
        mergeEquivalenceClass cs r nr g3 = Some g' \<Longrightarrow>
        PM fuel cs tv1 tv2 g g'"
    unfolding PL_def PM_def
    by (blast intro: graphOK_recordExtended graphOK_mergeEquivalenceClass)
  have A6: "\<And>fuel cs tv fixed g. \<not> hasTypeVariable fixed \<Longrightarrow> PB fuel cs tv fixed g g"
    by (simp add: PB_def)
  have A7: "\<And>fuel cs tv fixed g g1 g2. hasTypeVariable fixed \<Longrightarrow>
        lookupNode fuel cs tv g = Some g1 \<Longrightarrow> PL fuel cs tv g g1 \<Longrightarrow>
        bindLoop fuel cs tv (getTypeVariables fixed) [] g1 = Some g2 \<Longrightarrow>
        PBL fuel cs tv (getTypeVariables fixed) [] g1 g2 \<Longrightarrow>
        PB fuel cs tv fixed g (recordChange (BoundTypeVariable tv fixed) g2)"
  proof -
    fix fuel cs tv fixed g g1 g2
    assume l: "PL fuel cs tv g g1"
      and b: "bindLoop fuel cs tv (getTypeVariables fixed) [] g1 = Some g2"
      and ih: "PBL fuel cs tv (getTypeVariables fixed) [] g1 g2"
    from l have "tv \<in> dom (graphNode g1)" by (simp add: PL_def)
    with opFrame_ops(4)[OF b] have tv: "tv \<in> dom (graphNode g2)" by (rule opFrame_dom)
    with ih have names: "set (changeNames (BoundTypeVariable tv fixed)) \<subseteq> dom (graphNode g2)"
      by (auto simp: PBL_def)
    show "PB fuel cs tv fixed g (recordChange (BoundTypeVariable tv fixed) g2)"
      unfolding PB_def
    proof
      assume "graphOK g"
      with l ih have "graphOK g2" by (simp add: PL_def PBL_def)
      from graphOK_recordChange[OF this _ names]
      show "graphOK (recordChange (BoundTypeVariable tv fixed) g2)" by simp
    qed
  qed
  have A8: "\<And>fuel cs tv known g. PBL fuel cs tv [] known g g"
    by (simp add: PBL_def)
  have A9: "\<And>fuel cs tv other rest known g g'. other \<in> set known \<Longrightarrow>
        bindLoop fuel cs tv rest known g = Some g' \<Longrightarrow> PBL fuel cs tv rest known g g' \<Longrightarrow>
        PBL fuel cs tv (other # rest) known g g'"
    by (simp add: PBL_def)
  have A10: "\<And>fuel cs tv rest known g g'. tv \<notin> set known \<Longrightarrow>
        bindLoop fuel cs tv rest (tv # known) g = Some g' \<Longrightarrow>
        PBL fuel cs tv rest (tv # known) g g' \<Longrightarrow>
        PBL fuel cs tv (tv # rest) known g g'"
    by (auto simp: PBL_def)
  have A11: "\<And>fuel cs tv other rest known g g1 g2 g'. other \<notin> set known \<Longrightarrow>
        tv \<noteq> other \<Longrightarrow> lookupNode fuel cs other g = Some g1 \<Longrightarrow> PL fuel cs other g g1 \<Longrightarrow>
        addFixedBindingPair tv other g1 = Some g2 \<Longrightarrow>
        bindLoop fuel cs tv rest (other # known) g2 = Some g' \<Longrightarrow>
        PBL fuel cs tv rest (other # known) g2 g' \<Longrightarrow>
        PBL fuel cs tv (other # rest) known g g'"
  proof -
    fix fuel cs tv other rest known g g1 g2 g'
    assume l: "PL fuel cs other g g1"
      and p: "addFixedBindingPair tv other g1 = Some g2"
      and b: "bindLoop fuel cs tv rest (other # known) g2 = Some g'"
      and ih: "PBL fuel cs tv rest (other # known) g2 g'"
    from l have "other \<in> dom (graphNode g1)" by (simp add: PL_def)
    with addFixedBindingPair_frame(5)[OF p] have "other \<in> dom (graphNode g2)" by simp
    with opFrame_ops(4)[OF b] have o: "other \<in> dom (graphNode g')" by (rule opFrame_dom)
    from l ih graphOK_addFixedBindingPair[OF _ p] have "graphOK g \<longrightarrow> graphOK g'"
      by (auto simp: PL_def PBL_def)
    with o ih show "PBL fuel cs tv (other # rest) known g g'"
      by (auto simp: PBL_def)
  qed
  note ind = graph_ops_induct[where PL = PL and PM = PM and PB = PB and PBL = PBL,
      OF A1 A2 A3 A4 A5 A6 A7 A8 A9 A10 A11]
  have r1: "lookupNode fuel cs tv g = Some g' \<Longrightarrow> PL fuel cs tv g g'"
    by (rule ind(1))
  have r2: "mergeNodes fuel cs tv1 tv2 g = Some g' \<Longrightarrow> PM fuel cs tv1 tv2 g g'"
    by (rule ind(2))
  have r3: "bindTypeVariable fuel cs tv fixed g = Some g' \<Longrightarrow> PB fuel cs tv fixed g g'"
    by (rule ind(3))
  have r4: "bindLoop fuel cs tv tvs known g = Some g' \<Longrightarrow> PBL fuel cs tv tvs known g g'"
    by (rule ind(4))
  show "lookupNode fuel cs tv g = Some g' \<Longrightarrow>
     (graphOK g \<longrightarrow> graphOK g') \<and> tv \<in> dom (graphNode g')"
    using r1 by (simp add: PL_def)
  show "mergeNodes fuel cs tv1 tv2 g = Some g' \<Longrightarrow> graphOK g \<longrightarrow> graphOK g'"
    using r2 by (simp add: PM_def)
  show "bindTypeVariable fuel cs tv fixed g = Some g' \<Longrightarrow> graphOK g \<longrightarrow> graphOK g'"
    using r3 by (simp add: PB_def)
  show "bindLoop fuel cs tv tvs known g = Some g' \<Longrightarrow>
     (graphOK g \<longrightarrow> graphOK g') \<and>
     (\<forall>x\<in>set tvs. x = tv \<or> x \<in> set known \<or> x \<in> dom (graphNode g'))"
    using r4 by (simp add: PBL_def)
qed

lemma graphOK_orphans [simp]:
  "graphOK (g\<lparr>OrphanedConstraints := os\<rparr>) = graphOK g"
  by (simp add: graphOK_def)

lemma addConstraintLoop_graphOK:
  "addConstraintLoop fuel cs c tvs g = Some g' \<Longrightarrow>
   (graphOK g \<longrightarrow> graphOK g') \<and> set tvs \<subseteq> dom (graphNode g')"
proof (induction tvs arbitrary: g)
  case Nil
  then show ?case by simp
next
  case (Cons tv tvs)
  from Cons.prems obtain g1 g2 where
    l: "lookupNode fuel cs tv g = Some g1" and
    a: "onNode tv (nodeAddConstraint c) g1 = Some g2" and
    r: "addConstraintLoop fuel cs c tvs g2 = Some g'"
    by (auto split: option.splits)
  from graphOK_ops(1)[OF l] have ok1: "graphOK g \<longrightarrow> graphOK g1" by simp
  from onNode_dom[OF a] onNode_frame(6)[OF a] have "tv \<in> dom (graphNode g2)" by simp
  with addConstraintLoop_opFrame[OF r] have tv: "tv \<in> dom (graphNode g')" by (rule opFrame_dom)
  from ok1 graphOK_onNode[OF _ a] Cons.IH[OF r] tv show ?case by auto
qed

lemma removeConstraintLoop_graphOK:
  "removeConstraintLoop fuel cs c tvs g = Some g' \<Longrightarrow>
   (graphOK g \<longrightarrow> graphOK g') \<and> set tvs \<subseteq> dom (graphNode g')"
proof (induction tvs arbitrary: g)
  case Nil
  then show ?case by simp
next
  case (Cons tv tvs)
  from Cons.prems obtain g1 g2 where
    l: "lookupNode fuel cs tv g = Some g1" and
    a: "onNode tv (nodeRemoveConstraint c) g1 = Some g2" and
    r: "removeConstraintLoop fuel cs c tvs g2 = Some g'"
    by (auto split: option.splits)
  from graphOK_ops(1)[OF l] have ok1: "graphOK g \<longrightarrow> graphOK g1" by simp
  from onNode_dom[OF a] onNode_frame(6)[OF a] have "tv \<in> dom (graphNode g2)" by simp
  with removeConstraintLoop_opFrame[OF r] have tv: "tv \<in> dom (graphNode g')" by (rule opFrame_dom)
  from ok1 graphOK_onNode[OF _ a] Cons.IH[OF r] tv show ?case by auto
qed

lemma addConstraint_graphOK:
  assumes a: "addConstraint fuel cs c g = Some g'" and ok: "graphOK g"
  shows "graphOK g'"
proof -
  from a obtain g1 where
    l: "addConstraintLoop fuel cs c (constraintTypeVariables c) g = Some g1" and
    g': "g' = recordChange (AddedConstraint c)
           (if constraintTypeVariables c = []
            then g1\<lparr>OrphanedConstraints := OrphanedConstraints g1 @ [c]\<rparr> else g1)"
    by (auto simp: addConstraint_def Let_def split: option.splits)
  from addConstraintLoop_graphOK[OF l] ok have ok1: "graphOK g1"
    and names: "set (constraintTypeVariables c) \<subseteq> dom (graphNode g1)" by simp_all
  show ?thesis unfolding g'
    by (rule graphOK_recordChange) (use ok1 names in auto)
qed

lemma removeConstraint_graphOK:
  assumes a: "removeConstraint fuel cs c g = Some g'" and ok: "graphOK g"
  shows "graphOK g'"
proof -
  from a obtain g1 g2 where
    l: "removeConstraintLoop fuel cs c (constraintTypeVariables c) g = Some g1" and
    g2: "(if constraintTypeVariables c = []
          then map_option (\<lambda>os. g1\<lparr>OrphanedConstraints := os\<rparr>)
                 (removeOrphaned c (OrphanedConstraints g1))
          else Some g1) = Some g2" and
    g': "g' = recordChange (RemovedConstraint c) g2"
    by (auto simp: removeConstraint_def split: option.splits)
  from removeConstraintLoop_graphOK[OF l] ok have ok1: "graphOK g1"
    and names: "set (constraintTypeVariables c) \<subseteq> dom (graphNode g1)" by simp_all
  from g2 ok1 names have "graphOK g2" "set (constraintTypeVariables c) \<subseteq> dom (graphNode g2)"
    by (auto split: if_splits)
  then show ?thesis unfolding g'
    by (intro graphOK_recordChange) auto
qed

lemma applyMutation_graphOK:
  assumes a: "applyMutation fuel cs m g = Some g'" and ok: "graphOK g"
  shows "graphOK g'"
  using a ok graphOK_ops(1-3) addConstraint_graphOK removeConstraint_graphOK
  by (cases m) auto

lemma openScope_graphOK: "graphOK g \<Longrightarrow> graphOK (openScope g)"
  by (simp add: graphOK_def openScope_def)

subsection \<open>Undoing the newest journal entry\<close>

text \<open>One round of the loop of \<^verbatim>\<open>~ConstraintGraphScope\<close>: undo the newest entry and
  pop it.\<close>

definition undoLast :: "nat \<Rightarrow> ConstraintSystem \<Rightarrow> ConstraintGraph \<Rightarrow> ConstraintGraph option" where
  "undoLast fuel cs g =
     (case undo fuel cs (last (Changes g)) g of
        None \<Rightarrow> None
      | Some g1 \<Rightarrow> Some (g1\<lparr>Changes := butlast (Changes g1)\<rparr>))"

lemma unwindChanges_unfold:
  "unwindChanges fuel cs numChanges g =
     (if numChanges < length (Changes g)
      then (case undoLast fuel cs g of
              None \<Rightarrow> None
            | Some g1 \<Rightarrow> unwindChanges fuel cs numChanges g1)
      else Some g)"
  by (subst unwindChanges.simps) (simp add: undoLast_def split: option.splits)

text \<open>What an operation leaves alone when every node it looks up exists.\<close>

definition sameShape :: "ConstraintGraph \<Rightarrow> ConstraintGraph \<Rightarrow> bool" where
  "sameShape g g' \<longleftrightarrow>
     TypeVariables g' = TypeVariables g \<and> graphIndex g' = graphIndex g \<and>
     dom (graphNode g') = dom (graphNode g) \<and> Changes g' = Changes g \<and>
     ActiveScope g' = ActiveScope g"

lemma sameShape_refl: "sameShape g g"
  by (simp add: sameShape_def)

lemma sameShape_trans: "sameShape a b \<Longrightarrow> sameShape b c \<Longrightarrow> sameShape a c"
  by (simp add: sameShape_def)

lemma sameShape_onNode: "onNode tv f g = Some g' \<Longrightarrow> sameShape g g'"
  by (simp add: sameShape_def onNode_frame)

lemma sameShape_dom: "sameShape g g' \<Longrightarrow> graphNode g x \<noteq> None \<Longrightarrow> graphNode g' x \<noteq> None"
  by (auto simp: sameShape_def dom_def)

lemma addConstraintLoop_shape:
  "addConstraintLoop fuel cs c tvs g = Some g' \<Longrightarrow>
   \<forall>tv\<in>set tvs. graphNode g tv \<noteq> None \<Longrightarrow> sameShape g g'"
proof (induction tvs arbitrary: g)
  case Nil
  then show ?case by (simp add: sameShape_refl)
next
  case (Cons tv tvs)
  from Cons.prems(1) obtain g1 g2 where
    l: "lookupNode fuel cs tv g = Some g1" and
    a: "onNode tv (nodeAddConstraint c) g1 = Some g2" and
    r: "addConstraintLoop fuel cs c tvs g2 = Some g'"
    by (auto split: option.splits)
  from l Cons.prems(2) have g1: "g1 = g" by (auto dest: lookupNode_hasNode)
  from sameShape_onNode[OF a] g1 have s: "sameShape g g2" by simp
  with Cons.prems(2) have "\<forall>tv\<in>set tvs. graphNode g2 tv \<noteq> None"
    by (simp add: sameShape_dom)
  from sameShape_trans[OF s Cons.IH[OF r this]] show ?case .
qed

lemma removeConstraintLoop_shape:
  "removeConstraintLoop fuel cs c tvs g = Some g' \<Longrightarrow>
   \<forall>tv\<in>set tvs. graphNode g tv \<noteq> None \<Longrightarrow> sameShape g g'"
proof (induction tvs arbitrary: g)
  case Nil
  then show ?case by (simp add: sameShape_refl)
next
  case (Cons tv tvs)
  from Cons.prems(1) obtain g1 g2 where
    l: "lookupNode fuel cs tv g = Some g1" and
    a: "onNode tv (nodeRemoveConstraint c) g1 = Some g2" and
    r: "removeConstraintLoop fuel cs c tvs g2 = Some g'"
    by (auto split: option.splits)
  from l Cons.prems(2) have g1: "g1 = g" by (auto dest: lookupNode_hasNode)
  from sameShape_onNode[OF a] g1 have s: "sameShape g g2" by simp
  with Cons.prems(2) have "\<forall>tv\<in>set tvs. graphNode g2 tv \<noteq> None"
    by (simp add: sameShape_dom)
  from sameShape_trans[OF s Cons.IH[OF r this]] show ?case .
qed

lemma unbindLoop_shape:
  "unbindLoop fuel cs tv tvs known g = Some g' \<Longrightarrow>
   \<forall>x\<in>set tvs. graphNode g x \<noteq> None \<Longrightarrow> sameShape g g'"
proof (induction tvs arbitrary: g known)
  case Nil
  then show ?case by (simp add: sameShape_refl)
next
  case (Cons other tvs)
  show ?case
  proof (cases "other \<in> set known")
    case True
    with Cons show ?thesis by simp
  next
    case False
    with Cons.prems(1) obtain g1 g2 g3 where
      l: "lookupNode fuel cs other g = Some g1" and
      a: "onNode other (removeFixedBinding tv) g1 = Some g2" and
      b: "onNode tv (removeFixedBinding other) g2 = Some g3" and
      r: "unbindLoop fuel cs tv tvs (other # known) g3 = Some g'"
      by (auto split: option.splits)
    from l Cons.prems(2) have g1: "g1 = g" by (auto dest: lookupNode_hasNode)
    from sameShape_trans[OF sameShape_onNode[OF a] sameShape_onNode[OF b]] g1
    have s: "sameShape g g3" by simp
    with Cons.prems(2) have "\<forall>x\<in>set tvs. graphNode g3 x \<noteq> None"
      by (simp add: sameShape_dom)
    from sameShape_trans[OF s Cons.IH[OF r this]] show ?thesis .
  qed
qed

lemma sameShape_recordChange:
  "ActiveScope g = [] \<Longrightarrow> sameShape g (recordChange ch g)"
  by (simp add: sameShape_def recordChange_def)

lemma sameShape_orphans: "sameShape g (g\<lparr>OrphanedConstraints := os\<rparr>)"
  by (simp add: sameShape_def)

lemma addConstraint_shape:
  assumes a: "addConstraint fuel cs c g = Some g'"
    and n: "\<forall>tv\<in>set (constraintTypeVariables c). graphNode g tv \<noteq> None"
    and s: "ActiveScope g = []"
  shows "sameShape g g'"
proof -
  from a obtain g1 where
    l: "addConstraintLoop fuel cs c (constraintTypeVariables c) g = Some g1" and
    g': "g' = recordChange (AddedConstraint c)
           (if constraintTypeVariables c = []
            then g1\<lparr>OrphanedConstraints := OrphanedConstraints g1 @ [c]\<rparr> else g1)"
    by (auto simp: addConstraint_def Let_def split: option.splits)
  from addConstraintLoop_shape[OF l n] have s1: "sameShape g g1" .
  with s have "ActiveScope g1 = []" by (simp add: sameShape_def)
  with s1 show ?thesis unfolding g'
    by (auto simp: sameShape_def recordChange_def)
qed

lemma removeConstraint_shape:
  assumes a: "removeConstraint fuel cs c g = Some g'"
    and n: "\<forall>tv\<in>set (constraintTypeVariables c). graphNode g tv \<noteq> None"
    and s: "ActiveScope g = []"
  shows "sameShape g g'"
proof -
  from a obtain g1 g2 where
    l: "removeConstraintLoop fuel cs c (constraintTypeVariables c) g = Some g1" and
    g2: "(if constraintTypeVariables c = []
          then map_option (\<lambda>os. g1\<lparr>OrphanedConstraints := os\<rparr>)
                 (removeOrphaned c (OrphanedConstraints g1))
          else Some g1) = Some g2" and
    g': "g' = recordChange (RemovedConstraint c) g2"
    by (auto simp: removeConstraint_def split: option.splits)
  from removeConstraintLoop_shape[OF l n] have s1: "sameShape g g1" .
  from g2 have "sameShape g1 g2" by (auto simp: sameShape_def split: if_splits)
  with s1 have s2: "sameShape g g2" by (rule sameShape_trans)
  with s have "ActiveScope g2 = []" by (simp add: sameShape_def)
  with s2 show ?thesis unfolding g'
    by (auto simp: sameShape_def recordChange_def)
qed

lemma unbindTypeVariable_shape:
  assumes a: "unbindTypeVariable fuel cs tv fixed g = Some g'"
    and n: "\<forall>x\<in>set (tv # getTypeVariables fixed). graphNode g x \<noteq> None"
  shows "sameShape g g'"
proof (cases "hasTypeVariable fixed")
  case False
  with a show ?thesis by (simp add: unbindTypeVariable_def sameShape_refl)
next
  case True
  with a obtain g1 where l: "lookupNode fuel cs tv g = Some g1"
    and u: "unbindLoop fuel cs tv (getTypeVariables fixed) [] g1 = Some g'"
    by (auto simp: unbindTypeVariable_def split: option.splits)
  from l n have "g1 = g" by (auto dest: lookupNode_hasNode)
  with u n show ?thesis by (auto intro: unbindLoop_shape)
qed

text \<open>\<^verbatim>\<open>removeNode\<close> of the variable in the last slot pops that slot and moves
  nothing.\<close>

lemma removeNode_last:
  assumes ne: "TypeVariables g \<noteq> []" and l: "last (TypeVariables g) = tv"
    and idx: "\<forall>i<length (TypeVariables g). graphIndex g (TypeVariables g ! i) = i"
  shows "graphIndex g tv = length (TypeVariables g) - 1"
    and "removeNode tv g =
      Some (g\<lparr>graphNode := (graphNode g)(tv := None), TypeVariables := butlast (TypeVariables g)\<rparr>)"
proof -
  from ne l have "TypeVariables g ! (length (TypeVariables g) - 1) = tv"
    by (simp add: last_conv_nth)
  with idx ne show i: "graphIndex g tv = length (TypeVariables g) - 1"
    by (metis diff_less length_greater_0_conv zero_less_one)
  with ne show "removeNode tv g =
      Some (g\<lparr>graphNode := (graphNode g)(tv := None), TypeVariables := butlast (TypeVariables g)\<rparr>)"
    by (simp add: removeNode_def Let_def)
qed

lemma journalOK_newest:
  assumes ok: "graphOK g" and ne: "Changes g \<noteq> []"
  shows "journalOK (TypeVariables g) (last (Changes g) # rev (butlast (Changes g)))"
proof -
  from ne have "rev (Changes g) = last (Changes g) # rev (butlast (Changes g))"
    by (metis append_butlast_last_id rev.simps(2) rev_rev_ident rev_swap)
  with ok show ?thesis by (simp add: graphOK_def)
qed

lemma undo_AddedTypeVariable:
  assumes ok: "graphOK g" and ne: "Changes g \<noteq> []"
    and l: "last (Changes g) = AddedTypeVariable tv"
  shows "TypeVariables g \<noteq> []" "last (TypeVariables g) = tv"
    "graphIndex g tv = length (TypeVariables g) - 1"
    "undo fuel cs (AddedTypeVariable tv) g =
       Some (g\<lparr>graphNode := (graphNode g)(tv := None),
               TypeVariables := butlast (TypeVariables g)\<rparr>)"
    "journalOK (butlast (TypeVariables g)) (rev (butlast (Changes g)))"
proof -
  from journalOK_newest[OF ok ne] l
  show t: "TypeVariables g \<noteq> []" "last (TypeVariables g) = tv"
    and "journalOK (butlast (TypeVariables g)) (rev (butlast (Changes g)))"
    by simp_all
  from ok have idx: "\<forall>i<length (TypeVariables g). graphIndex g (TypeVariables g ! i) = i"
    by (simp add: graphOK_def)
  from removeNode_last(1)[OF t idx]
  show "graphIndex g tv = length (TypeVariables g) - 1" .
  from removeNode_last(2)[of "g\<lparr>ActiveScope := []\<rparr>" tv] t idx
  show "undo fuel cs (AddedTypeVariable tv) g =
       Some (g\<lparr>graphNode := (graphNode g)(tv := None),
               TypeVariables := butlast (TypeVariables g)\<rparr>)"
    by (simp add: undo_def)
qed

lemma undo_other_shape:
  assumes ok: "graphOK g" and ne: "Changes g \<noteq> []"
    and l: "\<not> (\<exists>tv. last (Changes g) = AddedTypeVariable tv)"
    and u: "undo fuel cs (last (Changes g)) g = Some g'"
  shows "sameShape g g'"
proof -
  let ?g0 = "g\<lparr>ActiveScope := []\<rparr>"
  from ok have d: "dom (graphNode g) = set (TypeVariables g)" by (simp add: graphOK_def)
  from journalOK_newest[OF ok ne] l
  have "set (changeNames (last (Changes g))) \<subseteq> set (TypeVariables g)"
    by (simp add: journalOK_other)
  with d have names: "\<forall>x\<in>set (changeNames (last (Changes g))). graphNode ?g0 x \<noteq> None"
    by (auto simp: dom_def)
  have s0: "ActiveScope ?g0 = []" by simp
  from u obtain g1 where g': "g' = g1\<lparr>ActiveScope := ActiveScope g\<rparr>"
    and step: "(case last (Changes g) of
              AddedTypeVariable typeVar \<Rightarrow> removeNode typeVar ?g0
            | AddedConstraint c \<Rightarrow> removeConstraint fuel cs c ?g0
            | RemovedConstraint c \<Rightarrow> addConstraint fuel cs c ?g0
            | ExtendedEquivalenceClass typeVar prevSize \<Rightarrow>
                (case lookupNode fuel cs typeVar ?g0 of
                   None \<Rightarrow> None
                 | Some g1 \<Rightarrow> onNode typeVar (eraseEquivalenceClass prevSize) g1)
            | BoundTypeVariable typeVar fixed \<Rightarrow> unbindTypeVariable fuel cs typeVar fixed ?g0) = Some g1"
    by (auto simp: undo_def Let_def)
  have "sameShape ?g0 g1"
  proof (cases "last (Changes g)")
    case (AddedTypeVariable tv)
    with l show ?thesis by simp
  next
    case (AddedConstraint c)
    with step names s0 show ?thesis by (auto intro: removeConstraint_shape)
  next
    case (RemovedConstraint c)
    with step names s0 show ?thesis by (auto intro: addConstraint_shape)
  next
    case (ExtendedEquivalenceClass tv n)
    with step obtain g2 where l2: "lookupNode fuel cs tv ?g0 = Some g2"
      and e: "onNode tv (eraseEquivalenceClass n) g2 = Some g1"
      by (auto split: option.splits)
    from l2 names ExtendedEquivalenceClass have "g2 = ?g0"
      by (auto dest: lookupNode_hasNode)
    with sameShape_onNode[OF e] show ?thesis by simp
  next
    case (BoundTypeVariable tv fixed)
    with step have ub: "unbindTypeVariable fuel cs tv fixed ?g0 = Some g1" by simp
    from names BoundTypeVariable
    have "\<forall>x\<in>set (tv # getTypeVariables fixed). graphNode ?g0 x \<noteq> None" by simp
    from unbindTypeVariable_shape[OF ub this] show ?thesis .
  qed
  with g' show ?thesis by (simp add: sameShape_def)
qed

lemma undoLast_graphOK:
  assumes ok: "graphOK g" and sc: "ActiveScope g = numChanges # parent"
    and lt: "numChanges < length (Changes g)"
    and u: "undoLast fuel cs g = Some g'"
  shows "graphOK g'" "Changes g' = butlast (Changes g)" "ActiveScope g' = ActiveScope g"
proof -
  from lt have ne: "Changes g \<noteq> []" by auto
  from u obtain g1 where u1: "undo fuel cs (last (Changes g)) g = Some g1"
    and g': "g' = g1\<lparr>Changes := butlast (Changes g1)\<rparr>"
    by (auto simp: undoLast_def split: option.splits)
  from undo_journal[OF u1] g'
  show c: "Changes g' = butlast (Changes g)" and a: "ActiveScope g' = ActiveScope g"
    by simp_all
  from ok sc lt have s: "scopesOK (length (butlast (Changes g))) (ActiveScope g)"
    by (auto simp: graphOK_def)
  show "graphOK g'"
  proof (cases "\<exists>tv. last (Changes g) = AddedTypeVariable tv")
    case True
    then obtain tv where l: "last (Changes g) = AddedTypeVariable tv" ..
    note f = undo_AddedTypeVariable[OF ok ne l]
    from u1 l f(4)[of fuel cs] have g1: "g1 = g\<lparr>graphNode := (graphNode g)(tv := None),
               TypeVariables := butlast (TypeVariables g)\<rparr>" by simp
    from ok have dist: "distinct (TypeVariables g)"
      and d: "dom (graphNode g) = set (TypeVariables g)"
      and idx: "\<forall>i<length (TypeVariables g). graphIndex g (TypeVariables g ! i) = i"
      by (simp_all add: graphOK_def)
    from f(1,2) have tvs: "TypeVariables g = butlast (TypeVariables g) @ [tv]"
      by (metis append_butlast_last_id)
    have "distinct (butlast (TypeVariables g) @ [tv])" using dist by (subst tvs[symmetric])
    then have notin: "tv \<notin> set (butlast (TypeVariables g))" by simp
    from dist have dist': "distinct (butlast (TypeVariables g))" by (rule distinct_butlast)
    have "set (TypeVariables g) = insert tv (set (butlast (TypeVariables g)))"
      by (subst tvs) simp
    with d notin have d': "dom ((graphNode g)(tv := None)) = set (butlast (TypeVariables g))"
      by auto
    from idx have idx': "\<forall>i<length (butlast (TypeVariables g)).
        graphIndex g (butlast (TypeVariables g) ! i) = i"
      by (simp add: nth_butlast)
    from dist' d' idx' f(5) s show ?thesis
      unfolding g' g1 by (simp add: graphOK_def)
  next
    case False
    from undo_other_shape[OF ok ne False u1] have "sameShape g g1" .
    moreover from journalOK_newest[OF ok ne] False
    have "journalOK (TypeVariables g) (rev (butlast (Changes g)))"
      by (simp add: journalOK_other)
    ultimately show ?thesis using ok s unfolding g'
      by (simp add: graphOK_def sameShape_def)
  qed
qed

lemma unwindChanges_graphOK:
  "unwindChanges fuel cs numChanges g = Some g' \<Longrightarrow> graphOK g \<Longrightarrow>
   ActiveScope g = numChanges # parent \<Longrightarrow>
   graphOK g' \<and> ActiveScope g' = ActiveScope g \<and> length (Changes g') = numChanges"
proof (induction "length (Changes g)" arbitrary: g)
  case 0
  then show ?case
    by (subst (asm) unwindChanges_unfold) (auto simp: graphOK_def)
next
  case (Suc n)
  show ?case
  proof (cases "numChanges < length (Changes g)")
    case False
    with Suc.prems show ?thesis
      by (subst (asm) unwindChanges_unfold) (auto simp: graphOK_def)
  next
    case True
    with Suc.prems(1) obtain g1 where u: "undoLast fuel cs g = Some g1"
      and r: "unwindChanges fuel cs numChanges g1 = Some g'"
      by (subst (asm) unwindChanges_unfold) (auto split: option.splits)
    note f = undoLast_graphOK[OF Suc.prems(2,3) True u]
    from f(2) Suc.hyps(2) have "n = length (Changes g1)" by simp
    from Suc.hyps(1)[OF this r f(1)] f(3) Suc.prems(3) show ?thesis by simp
  qed
qed

lemma closeScope_graphOK:
  assumes c: "closeScope fuel cs g = Some g'" and ok: "graphOK g"
  shows "graphOK g'"
proof -
  from c obtain numChanges parent g1 where sc: "ActiveScope g = numChanges # parent"
    and u: "unwindChanges fuel cs numChanges g = Some g1"
    and g': "g' = g1\<lparr>ActiveScope := parent\<rparr>"
    by (auto simp: closeScope_def split: list.splits if_splits)
  from unwindChanges_graphOK[OF u ok sc] sc
  have "graphOK g1" "ActiveScope g1 = numChanges # parent" "length (Changes g1) = numChanges"
    by simp_all
  then show ?thesis unfolding g' by (simp add: graphOK_def)
qed

subsection \<open>The states a constraint graph can be in\<close>

text \<open>
  A graph starts empty. Its state changes by the calls of the mutation interface, by
  opening a scope, by a round of the loop in the destructor of the innermost scope
  (\<^const>\<open>undoLast\<close>, while the journal is longer than it was when the scope was
  opened), and by the whole destructor.
\<close>

inductive reachable :: "ConstraintGraph \<Rightarrow> bool" where
  initial: "reachable emptyGraph"
| mutation: "reachable g \<Longrightarrow> applyMutation fuel cs m g = Some g' \<Longrightarrow> reachable g'"
| opened: "reachable g \<Longrightarrow> reachable (openScope g)"
| unwinding: "reachable g \<Longrightarrow> ActiveScope g = numChanges # parent \<Longrightarrow>
    numChanges < length (Changes g) \<Longrightarrow> undoLast fuel cs g = Some g' \<Longrightarrow> reachable g'"
| closed: "reachable g \<Longrightarrow> closeScope fuel cs g = Some g' \<Longrightarrow> reachable g'"

lemma reachable_graphOK: "reachable g \<Longrightarrow> graphOK g"
proof (induction rule: reachable.induct)
  case initial
  show ?case by (rule graphOK_emptyGraph)
next
  case (mutation g fuel cs m g')
  then show ?case by (auto intro: applyMutation_graphOK)
next
  case (opened g)
  then show ?case by (auto intro: openScope_graphOK)
next
  case (unwinding g numChanges parent fuel cs g')
  from undoLast_graphOK(1)[OF unwinding.IH unwinding.hyps(2,3,4)] show ?case .
next
  case (closed g fuel cs g')
  then show ?case by (auto intro: closeScope_graphOK)
qed

text \<open>Type variable 0 is looked up, a scope is opened, and 1 and 2 are looked up.\<close>

definition unwindingGraph :: ConstraintGraph where
  "unwindingGraph = createNode 2 (createNode 1 (openScope (createNode 0 emptyGraph)))"

lemma unwindingGraph_reachable: "reachable unwindingGraph"
proof -
  have "reachable (createNode 0 emptyGraph)"
    by (rule reachable.mutation[OF reachable.initial,
          where fuel = 1 and cs = unboundSystem and m = "LookupNodeCall 0"])
       (simp add: graph_eval)
  then have "reachable (openScope (createNode 0 emptyGraph))"
    by (rule reachable.opened)
  then have "reachable (createNode 1 (openScope (createNode 0 emptyGraph)))"
    by (rule reachable.mutation[where fuel = 1 and cs = unboundSystem and m = "LookupNodeCall 1"])
       (simp add: graph_eval)
  then show ?thesis unfolding unwindingGraph_def
    by (rule reachable.mutation[where fuel = 1 and cs = unboundSystem and m = "LookupNodeCall 2"])
       (simp add: graph_eval)
qed

text \<open>
  Claim C10. In every state the graph can be in whose newest journal entry is
  \<^verbatim>\<open>AddedTypeVariable tv\<close> (the entry the destructor of a scope undoes next, by
  \<^verbatim>\<open>removeNode\<close>), \<^verbatim>\<open>tv\<close> is in the last slot of the vector of type variables and
  its stored index is that slot; \<^verbatim>\<open>removeNode\<close>, and so the undo of the entry, only
  takes the node out of the map and pops the last slot, moving no other variable; and
  the stored index of every variable that remains is its slot.
\<close>

theorem removeNode_during_unwinding:
  assumes r: "reachable g" and ne: "Changes g \<noteq> []"
    and l: "last (Changes g) = AddedTypeVariable tv"
  shows "TypeVariables g \<noteq> [] \<and> last (TypeVariables g) = tv \<and>
     graphIndex g tv = length (TypeVariables g) - 1 \<and>
     removeNode tv g =
       Some (g\<lparr>graphNode := (graphNode g)(tv := None),
               TypeVariables := butlast (TypeVariables g)\<rparr>) \<and>
     undo fuel cs (last (Changes g)) g =
       Some (g\<lparr>graphNode := (graphNode g)(tv := None),
               TypeVariables := butlast (TypeVariables g)\<rparr>) \<and>
     (\<forall>i<length (butlast (TypeVariables g)).
        graphIndex g (butlast (TypeVariables g) ! i) = i)"
proof -
  from r have ok: "graphOK g" by (rule reachable_graphOK)
  note f = undo_AddedTypeVariable[OF ok ne l]
  from ok have idx: "\<forall>i<length (TypeVariables g). graphIndex g (TypeVariables g ! i) = i"
    by (simp add: graphOK_def)
  then have "\<forall>i<length (butlast (TypeVariables g)).
        graphIndex g (butlast (TypeVariables g) ! i) = i"
    by (simp add: nth_butlast)
  with f(1,2,3) f(4)[of fuel cs] removeNode_last(2)[OF f(1,2) idx] l show ?thesis by simp
qed

theorem removeNode_during_unwinding_witness:
  "reachable unwindingGraph \<and> Changes unwindingGraph \<noteq> [] \<and>
   last (Changes unwindingGraph) = AddedTypeVariable 2 \<and>
   TypeVariables unwindingGraph = [0, 1, 2] \<and>
   last (TypeVariables unwindingGraph) = 2 \<and>
   graphIndex unwindingGraph 2 = length (TypeVariables unwindingGraph) - 1 \<and>
   map_option TypeVariables (removeNode 2 unwindingGraph) = Some [0, 1] \<and>
   map_option TypeVariables (undo 0 unboundSystem (last (Changes unwindingGraph)) unwindingGraph)
     = Some [0, 1] \<and>
   map (graphIndex unwindingGraph) [0, 1] = [0, 1]"
proof -
  have c: "Changes unwindingGraph \<noteq> []"
    "last (Changes unwindingGraph) = AddedTypeVariable 2"
    "TypeVariables unwindingGraph = [0, 1, 2]"
    by (simp_all add: unwindingGraph_def graph_eval)
  from removeNode_during_unwinding[OF unwindingGraph_reachable c(1,2), of 0 unboundSystem]
  have f: "last (TypeVariables unwindingGraph) = 2"
    "graphIndex unwindingGraph 2 = length (TypeVariables unwindingGraph) - 1"
    "map_option TypeVariables (removeNode 2 unwindingGraph) = Some [0, 1]"
    "map_option TypeVariables (undo 0 unboundSystem (last (Changes unwindingGraph)) unwindingGraph)
       = Some [0, 1]"
    "\<forall>i<length (butlast (TypeVariables unwindingGraph)).
        graphIndex unwindingGraph (butlast (TypeVariables unwindingGraph) ! i) = i"
    by (simp_all add: c(3))
  from f(5)[rule_format, of 0] f(5)[rule_format, of 1]
  have "map (graphIndex unwindingGraph) [0, 1] = [0, 1]"
    by (simp add: c(3))
  with f(1-4) show ?thesis using unwindingGraph_reachable c by simp
qed

subsection \<open>What the journal of a scope records\<close>

text \<open>Entries that the operations on nodes make: all but those of \<^verbatim>\<open>addConstraint\<close>
  and \<^verbatim>\<open>removeConstraint\<close>.\<close>

fun nodeEntry :: "Change \<Rightarrow> bool" where
  "nodeEntry (AddedConstraint c) = False"
| "nodeEntry (RemovedConstraint c) = False"
| "nodeEntry ch = True"

fun addedTypeVariables :: "Change list \<Rightarrow> tvar list" where
  "addedTypeVariables [] = []"
| "addedTypeVariables (AddedTypeVariable tv # chs) = tv # addedTypeVariables chs"
| "addedTypeVariables (ch # chs) = addedTypeVariables chs"

lemma addedTypeVariables_append [simp]:
  "addedTypeVariables (xs @ ys) = addedTypeVariables xs @ addedTypeVariables ys"
  by (induction xs rule: addedTypeVariables.induct) auto

text \<open>While a scope is active, an operation appends to the journal, and the vector
  of type variables grows by the variables whose addition it journals.\<close>

definition journalled :: "ConstraintGraph \<Rightarrow> ConstraintGraph \<Rightarrow> bool" where
  "journalled g g' \<longleftrightarrow>
     ActiveScope g' = ActiveScope g \<and>
     (ActiveScope g \<noteq> [] \<longrightarrow>
        (\<exists>new. Changes g' = Changes g @ new \<and> list_all nodeEntry new \<and>
           TypeVariables g' = TypeVariables g @ addedTypeVariables new))"

lemma journalled_refl: "journalled g g"
  by (simp add: journalled_def)

lemma journalled_trans: "journalled a b \<Longrightarrow> journalled b c \<Longrightarrow> journalled a c"
  unfolding journalled_def by (cases "ActiveScope a = []") auto

lemma journalled_same:
  "ActiveScope g' = ActiveScope g \<Longrightarrow> Changes g' = Changes g \<Longrightarrow>
   TypeVariables g' = TypeVariables g \<Longrightarrow> journalled g g'"
  by (auto simp: journalled_def intro: exI[of _ "[]"])

lemma journalled_onNode: "onNode tv f g = Some g' \<Longrightarrow> journalled g g'"
  by (simp add: journalled_same onNode_frame)

lemma journalled_recordChange:
  "nodeEntry ch \<Longrightarrow> \<not> (\<exists>tv. ch = AddedTypeVariable tv) \<Longrightarrow> journalled g (recordChange ch g)"
  by (cases ch) (auto simp: journalled_def recordChange_def)

lemma journalled_ops:
  "lookupNode fuel cs tv g = Some g' \<Longrightarrow> journalled g g'"
  "mergeNodes fuel cs tv1 tv2 g = Some g' \<Longrightarrow> journalled g g'"
  "bindTypeVariable fuel cs tv fixed g = Some g' \<Longrightarrow> journalled g g'"
  "bindLoop fuel cs tv tvs known g = Some g' \<Longrightarrow> journalled g g'"
proof -
  have rfl: "\<And>g. journalled g g" by (rule journalled_refl)
  have trn: "\<And>a b c. journalled a b \<Longrightarrow> journalled b c \<Longrightarrow> journalled a c"
    by (rule journalled_trans)
  have create: "\<And>tv g. graphNode g tv = None \<Longrightarrow> journalled g (createNode tv g)"
    by (simp add: journalled_def createNode_Changes)
  have recExt: "\<And>cs r g g'. recordExtendedEquivalenceClass cs r g = Some g' \<Longrightarrow> journalled g g'"
    by (auto simp: recordExtendedEquivalenceClass_def journalled_refl
        split: if_splits option.splits
        intro!: journalled_trans[OF journalled_onNode journalled_recordChange])
  have mergeEC: "\<And>cs r nr g g'. mergeEquivalenceClass cs r nr g = Some g' \<Longrightarrow> journalled g g'"
    by (simp add: journalled_same mergeEquivalenceClass_frame)
  have pair: "\<And>tv other g g'. tv \<noteq> other \<Longrightarrow> addFixedBindingPair tv other g = Some g' \<Longrightarrow> journalled g g'"
    by (simp add: journalled_same addFixedBindingPair_frame)
  have recBound: "\<And>tv fixed g. hasTypeVariable fixed \<Longrightarrow>
        journalled g (recordChange (BoundTypeVariable tv fixed) g)"
    by (simp add: journalled_recordChange)
  note r = graph_ops_rel[where R = journalled, OF rfl trn create recExt mergeEC pair recBound]
  show "lookupNode fuel cs tv g = Some g' \<Longrightarrow> journalled g g'" by (rule r(1))
  show "mergeNodes fuel cs tv1 tv2 g = Some g' \<Longrightarrow> journalled g g'" by (rule r(2))
  show "bindTypeVariable fuel cs tv fixed g = Some g' \<Longrightarrow> journalled g g'" by (rule r(3))
  show "bindLoop fuel cs tv tvs known g = Some g' \<Longrightarrow> journalled g g'" by (rule r(4))
qed

lemma addConstraintLoop_journalled:
  "addConstraintLoop fuel cs c tvs g = Some g' \<Longrightarrow> journalled g g'"
proof (induction tvs arbitrary: g)
  case Nil
  then show ?case by (simp add: journalled_refl)
next
  case (Cons tv tvs)
  from Cons.prems obtain g1 g2 where
    l: "lookupNode fuel cs tv g = Some g1" and
    a: "onNode tv (nodeAddConstraint c) g1 = Some g2" and
    r: "addConstraintLoop fuel cs c tvs g2 = Some g'"
    by (auto split: option.splits)
  from journalled_trans[OF journalled_ops(1)[OF l]
      journalled_trans[OF journalled_onNode[OF a] Cons.IH[OF r]]]
  show ?case .
qed

lemma removeConstraintLoop_journalled:
  "removeConstraintLoop fuel cs c tvs g = Some g' \<Longrightarrow> journalled g g'"
proof (induction tvs arbitrary: g)
  case Nil
  then show ?case by (simp add: journalled_refl)
next
  case (Cons tv tvs)
  from Cons.prems obtain g1 g2 where
    l: "lookupNode fuel cs tv g = Some g1" and
    a: "onNode tv (nodeRemoveConstraint c) g1 = Some g2" and
    r: "removeConstraintLoop fuel cs c tvs g2 = Some g'"
    by (auto split: option.splits)
  from journalled_trans[OF journalled_ops(1)[OF l]
      journalled_trans[OF journalled_onNode[OF a] Cons.IH[OF r]]]
  show ?case .
qed

text \<open>The journal of a call of the mutation interface: entries of operations on
  nodes, and then the entry of the call for a constraint.\<close>

lemma applyMutation_journalled:
  assumes a: "applyMutation fuel cs m g = Some g'" and s: "ActiveScope g \<noteq> []"
  shows "ActiveScope g' = ActiveScope g"
    "\<exists>new. Changes g' = Changes g @ new \<and>
       TypeVariables g' = TypeVariables g @ addedTypeVariables new"
proof -
  have "ActiveScope g' = ActiveScope g \<and> (\<exists>new. Changes g' = Changes g @ new \<and>
       TypeVariables g' = TypeVariables g @ addedTypeVariables new)"
  proof (cases m)
    case (LookupNodeCall tv)
    with a journalled_ops(1)[of fuel cs tv g g'] s show ?thesis
      by (auto simp: journalled_def)
  next
    case (AddConstraintCall c)
    with a obtain g1 where
      l: "addConstraintLoop fuel cs c (constraintTypeVariables c) g = Some g1" and
      g': "g' = recordChange (AddedConstraint c)
           (if constraintTypeVariables c = []
            then g1\<lparr>OrphanedConstraints := OrphanedConstraints g1 @ [c]\<rparr> else g1)"
      by (auto simp: addConstraint_def Let_def split: option.splits)
    from addConstraintLoop_journalled[OF l] s obtain new where
      "ActiveScope g1 = ActiveScope g" "Changes g1 = Changes g @ new"
      "TypeVariables g1 = TypeVariables g @ addedTypeVariables new"
      by (auto simp: journalled_def)
    with s show ?thesis unfolding g' by (auto simp: recordChange_def)
  next
    case (RemoveConstraintCall c)
    with a obtain g1 g2 where
      l: "removeConstraintLoop fuel cs c (constraintTypeVariables c) g = Some g1" and
      g2: "(if constraintTypeVariables c = []
            then map_option (\<lambda>os. g1\<lparr>OrphanedConstraints := os\<rparr>)
                   (removeOrphaned c (OrphanedConstraints g1))
            else Some g1) = Some g2" and
      g': "g' = recordChange (RemovedConstraint c) g2"
      by (auto simp: removeConstraint_def split: option.splits)
    from removeConstraintLoop_journalled[OF l] s obtain new where
      "ActiveScope g1 = ActiveScope g" "Changes g1 = Changes g @ new"
      "TypeVariables g1 = TypeVariables g @ addedTypeVariables new"
      by (auto simp: journalled_def)
    with g2 have "ActiveScope g2 = ActiveScope g" "Changes g2 = Changes g @ new"
      "TypeVariables g2 = TypeVariables g @ addedTypeVariables new"
      by (auto split: if_splits)
    with s show ?thesis unfolding g' by (auto simp: recordChange_def)
  next
    case (MergeNodesCall tv1 tv2)
    with a journalled_ops(2)[of fuel cs tv1 tv2 g g'] s show ?thesis
      by (auto simp: journalled_def)
  next
    case (BindTypeVariableCall tv fixed)
    with a journalled_ops(3)[of fuel cs tv fixed g g'] s show ?thesis
      by (auto simp: journalled_def)
  qed
  then show "ActiveScope g' = ActiveScope g"
    "\<exists>new. Changes g' = Changes g @ new \<and>
       TypeVariables g' = TypeVariables g @ addedTypeVariables new"
    by simp_all
qed

subsection \<open>The constraints a scope restores\<close>

lemma addConstraint_effect:
  assumes a: "addConstraint fuel cs c g = Some g'" and ok: "allNodesOK g"
  shows "allNodesOK g'"
    and "mset (constraintsOf g' v) = mset (constraintsOf g v) +
           (if v \<in> set (constraintTypeVariables c) then {#c#} else {#})"
    and "mset (OrphanedConstraints g') = mset (OrphanedConstraints g) +
           (if constraintTypeVariables c = [] then {#c#} else {#})"
proof -
  let ?tvs = "constraintTypeVariables c"
  from a obtain g1 where
    l: "addConstraintLoop fuel cs c ?tvs g = Some g1" and
    g': "g' = recordChange (AddedConstraint c)
      (if ?tvs = [] then g1\<lparr>OrphanedConstraints := OrphanedConstraints g1 @ [c]\<rparr> else g1)"
    by (auto simp: addConstraint_def Let_def split: option.splits)
  from addConstraintLoop_effect[OF l ok] have ok1: "allNodesOK g1"
    and orph: "OrphanedConstraints g1 = OrphanedConstraints g"
    and cons: "\<And>v. constraintsOf g1 v = constraintsOf g v @ replicate (count_list ?tvs v) c"
    by simp_all
  have cnt: "count_list ?tvs v = (if v \<in> set ?tvs then 1 else 0)"
  proof -
    from constraintsOf_distinct[OF ok1, of v] cons[of v]
    have "distinct (constraintsOf g v @ replicate (count_list ?tvs v) c)" by simp
    then have "count_list ?tvs v \<le> Suc 0" by (rule count_list_le1)
    then show ?thesis by (rule count_list_01)
  qed
  have c1: "constraintsOf g' v = constraintsOf g1 v"
    using g' by (simp add: constraintsOf_def)
  show "allNodesOK g'" using ok1 g' by (simp add: allNodesOK_def)
  show "mset (constraintsOf g' v) = mset (constraintsOf g v) +
           (if v \<in> set ?tvs then {#c#} else {#})"
    using cons[of v] cnt c1 by simp
  show "mset (OrphanedConstraints g') = mset (OrphanedConstraints g) +
           (if ?tvs = [] then {#c#} else {#})"
    using orph g' by simp
qed

lemma removeConstraint_effect:
  assumes a: "removeConstraint fuel cs c g = Some g'" and ok: "allNodesOK g"
  shows "allNodesOK g'"
    and "mset (constraintsOf g v) = mset (constraintsOf g' v) +
           (if v \<in> set (constraintTypeVariables c) then {#c#} else {#})"
    and "mset (OrphanedConstraints g) = mset (OrphanedConstraints g') +
           (if constraintTypeVariables c = [] then {#c#} else {#})"
proof -
  let ?tvs = "constraintTypeVariables c"
  from a obtain g1 where
    l: "removeConstraintLoop fuel cs c ?tvs g = Some g1"
    by (auto simp: removeConstraint_def split: option.splits)
  with a obtain g2 where
    s: "(if ?tvs = []
           then map_option (\<lambda>os. g1\<lparr>OrphanedConstraints := os\<rparr>)
                  (removeOrphaned c (OrphanedConstraints g1))
           else Some g1) = Some g2" and g': "g' = recordChange (RemovedConstraint c) g2"
    by (auto simp: removeConstraint_def split: option.splits)
  from removeConstraintLoop_effect[OF l ok] have ok1: "allNodesOK g1"
    and orph: "OrphanedConstraints g1 = OrphanedConstraints g"
    and cons: "\<And>v. mset (constraintsOf g v)
        = mset (constraintsOf g1 v) + replicate_mset (count_list ?tvs v) c"
    by simp_all
  have cnt: "count_list ?tvs v = (if v \<in> set ?tvs then 1 else 0)"
  proof -
    have "count (mset (constraintsOf g v)) c \<le> 1"
      using constraintsOf_distinct[OF ok, of v] by (simp add: distinct_count_atmost_1)
    with cons[of v] have "count_list ?tvs v \<le> Suc 0" by simp
    then show ?thesis by (rule count_list_01)
  qed
  have c2: "constraintsOf g' v = constraintsOf g1 v" "allNodesOK g'"
    using s g' ok1 by (auto simp: constraintsOf_def allNodesOK_def split: if_splits)
  from c2(2) show "allNodesOK g'" .
  from cons[of v] cnt c2(1)
  show "mset (constraintsOf g v) = mset (constraintsOf g' v) +
           (if v \<in> set ?tvs then {#c#} else {#})"
    by simp
  show "mset (OrphanedConstraints g) = mset (OrphanedConstraints g') +
           (if ?tvs = [] then {#c#} else {#})"
  proof (cases "?tvs = []")
    case True
    with s obtain os where os: "removeOrphaned c (OrphanedConstraints g1) = Some os"
      and g2: "g2 = g1\<lparr>OrphanedConstraints := os\<rparr>" by auto
    from removeOrphaned_mset[OF os] g2 g' orph True show ?thesis by simp
  next
    case False
    with s have "g2 = g1" by simp
    with g' orph False show ?thesis by simp
  qed
qed

lemma addConstraint_entries:
  assumes a: "addConstraint fuel cs c g = Some g'" and s: "ActiveScope g \<noteq> []"
  shows "\<exists>new. Changes g' = Changes g @ new @ [AddedConstraint c] \<and> list_all nodeEntry new"
proof -
  from a obtain g1 where
    l: "addConstraintLoop fuel cs c (constraintTypeVariables c) g = Some g1" and
    g': "g' = recordChange (AddedConstraint c)
           (if constraintTypeVariables c = []
            then g1\<lparr>OrphanedConstraints := OrphanedConstraints g1 @ [c]\<rparr> else g1)"
    by (auto simp: addConstraint_def Let_def split: option.splits)
  from addConstraintLoop_journalled[OF l] s obtain new where
    "ActiveScope g1 = ActiveScope g" "Changes g1 = Changes g @ new" "list_all nodeEntry new"
    by (auto simp: journalled_def)
  with s show ?thesis unfolding g' by (auto simp: recordChange_def)
qed

lemma removeConstraint_entries:
  assumes a: "removeConstraint fuel cs c g = Some g'" and s: "ActiveScope g \<noteq> []"
  shows "\<exists>new. Changes g' = Changes g @ new @ [RemovedConstraint c] \<and> list_all nodeEntry new"
proof -
  from a obtain g1 g2 where
    l: "removeConstraintLoop fuel cs c (constraintTypeVariables c) g = Some g1" and
    g2: "(if constraintTypeVariables c = []
          then map_option (\<lambda>os. g1\<lparr>OrphanedConstraints := os\<rparr>)
                 (removeOrphaned c (OrphanedConstraints g1))
          else Some g1) = Some g2" and
    g': "g' = recordChange (RemovedConstraint c) g2"
    by (auto simp: removeConstraint_def split: option.splits)
  from removeConstraintLoop_journalled[OF l] s obtain new where
    "ActiveScope g1 = ActiveScope g" "Changes g1 = Changes g @ new" "list_all nodeEntry new"
    by (auto simp: journalled_def)
  with g2 have "ActiveScope g2 = ActiveScope g" "Changes g2 = Changes g @ new"
    "list_all nodeEntry new"
    by (auto split: if_splits)
  with s show ?thesis unfolding g' by (auto simp: recordChange_def)
qed

text \<open>
  The constraints that remain, of those in \<open>M\<close>, when the journal entries (newest
  first) are undone: an added constraint leaves, a removed one returns. \<open>P\<close> selects
  the constraints of one list: those that mention a type variable, or the orphaned
  ones.
\<close>

fun unwoundConstraints ::
  "(Constraint \<Rightarrow> bool) \<Rightarrow> Change list \<Rightarrow> Constraint multiset \<Rightarrow> Constraint multiset" where
  "unwoundConstraints P [] M = M"
| "unwoundConstraints P (AddedConstraint c # older) M =
     unwoundConstraints P older (if P c then M - {#c#} else M)"
| "unwoundConstraints P (RemovedConstraint c # older) M =
     unwoundConstraints P older (if P c then add_mset c M else M)"
| "unwoundConstraints P (ch # older) M = unwoundConstraints P older M"

lemma unwoundConstraints_nodeEntry:
  "nodeEntry ch \<Longrightarrow> unwoundConstraints P (ch # older) M = unwoundConstraints P older M"
  by (cases ch) auto

lemma unwoundConstraints_skip:
  "list_all nodeEntry new \<Longrightarrow>
   unwoundConstraints P (rev new @ older) M = unwoundConstraints P older M"
  by (induction new arbitrary: older) (auto simp: unwoundConstraints_nodeEntry)

definition mentions :: "tvar \<Rightarrow> Constraint \<Rightarrow> bool" where
  "mentions tv c \<longleftrightarrow> tv \<in> set (constraintTypeVariables c)"

definition isOrphan :: "Constraint \<Rightarrow> bool" where
  "isOrphan c \<longleftrightarrow> constraintTypeVariables c = []"

text \<open>The journal entries made since the journal had \<open>numChanges\<close> entries, newest
  first.\<close>

definition since :: "nat \<Rightarrow> ConstraintGraph \<Rightarrow> Change list" where
  "since numChanges g = rev (drop numChanges (Changes g))"

lemma since_append:
  "numChanges \<le> length (Changes g) \<Longrightarrow> Changes g' = Changes g @ new \<Longrightarrow>
   since numChanges g' = rev new @ since numChanges g"
  by (simp add: since_def)

lemma since_butlast:
  "numChanges < length (Changes g) \<Longrightarrow> Changes g' = butlast (Changes g) \<Longrightarrow>
   since numChanges g = last (Changes g) # since numChanges g'"
proof -
  assume lt: "numChanges < length (Changes g)" and c: "Changes g' = butlast (Changes g)"
  from lt have "Changes g \<noteq> []" by auto
  then have "Changes g = butlast (Changes g) @ [last (Changes g)]" by simp
  then have "drop numChanges (Changes g) =
      drop numChanges (butlast (Changes g)) @ [last (Changes g)]"
    using lt by (metis drop_append length_butlast diff_is_0_eq drop0 less_Suc_eq_le
        Suc_pred' length_greater_0_conv \<open>Changes g \<noteq> []\<close>)
  with c show ?thesis by (simp add: since_def)
qed

definition scopeConstraints :: "nat \<Rightarrow> ConstraintGraph \<Rightarrow> tvar \<Rightarrow> Constraint multiset" where
  "scopeConstraints numChanges g tv =
     unwoundConstraints (mentions tv) (since numChanges g) (mset (constraintsOf g tv))"

definition scopeOrphans :: "nat \<Rightarrow> ConstraintGraph \<Rightarrow> Constraint multiset" where
  "scopeOrphans numChanges g =
     unwoundConstraints isOrphan (since numChanges g) (mset (OrphanedConstraints g))"

lemma scopeConstraints_journalled:
  assumes j: "journalled g g'" and f: "constraintFrame g g'"
    and s: "ActiveScope g \<noteq> []" and n: "numChanges \<le> length (Changes g)"
  shows "scopeConstraints numChanges g' tv = scopeConstraints numChanges g tv"
    "scopeOrphans numChanges g' = scopeOrphans numChanges g"
proof -
  from j s obtain new where c: "Changes g' = Changes g @ new" and e: "list_all nodeEntry new"
    by (auto simp: journalled_def)
  from f have "constraintsOf g' tv = constraintsOf g tv"
    "OrphanedConstraints g' = OrphanedConstraints g"
    by (simp_all add: constraintFrame_def)
  with since_append[OF n c] e
  show "scopeConstraints numChanges g' tv = scopeConstraints numChanges g tv"
    "scopeOrphans numChanges g' = scopeOrphans numChanges g"
    by (simp_all add: scopeConstraints_def scopeOrphans_def unwoundConstraints_skip)
qed

lemma scopeConstraints_mutation:
  assumes a: "applyMutation fuel cs m g = Some g'" and ok: "allNodesOK g"
    and s: "ActiveScope g \<noteq> []" and n: "numChanges \<le> length (Changes g)"
  shows "scopeConstraints numChanges g' tv = scopeConstraints numChanges g tv"
    "scopeOrphans numChanges g' = scopeOrphans numChanges g"
    "allNodesOK g'"
proof -
  have "scopeConstraints numChanges g' tv = scopeConstraints numChanges g tv \<and>
    scopeOrphans numChanges g' = scopeOrphans numChanges g \<and> allNodesOK g'"
  proof (cases m)
    case (LookupNodeCall v)
    with a have l: "lookupNode fuel cs v g = Some g'" by simp
    from scopeConstraints_journalled[OF journalled_ops(1)[OF l] constraintFrame_ops(1)[OF l] s n]
      constraintFrame_ops(1)[OF l] ok
    show ?thesis by (simp add: constraintFrame_def)
  next
    case (MergeNodesCall tv1 tv2)
    with a have l: "mergeNodes fuel cs tv1 tv2 g = Some g'" by simp
    from scopeConstraints_journalled[OF journalled_ops(2)[OF l] constraintFrame_ops(2)[OF l] s n]
      constraintFrame_ops(2)[OF l] ok
    show ?thesis by (simp add: constraintFrame_def)
  next
    case (BindTypeVariableCall v fixed)
    with a have l: "bindTypeVariable fuel cs v fixed g = Some g'" by simp
    from scopeConstraints_journalled[OF journalled_ops(3)[OF l] constraintFrame_ops(3)[OF l] s n]
      constraintFrame_ops(3)[OF l] ok
    show ?thesis by (simp add: constraintFrame_def)
  next
    case (AddConstraintCall c)
    with a have l: "addConstraint fuel cs c g = Some g'" by simp
    from addConstraint_entries[OF l s] obtain new where
      c: "Changes g' = Changes g @ (new @ [AddedConstraint c])" and e: "list_all nodeEntry new"
      by auto
    note eff = addConstraint_effect[OF l ok]
    from since_append[OF n c] e eff(2)[of tv] eff(3) eff(1)
    show ?thesis
      by (simp add: scopeConstraints_def scopeOrphans_def unwoundConstraints_skip
          mentions_def isOrphan_def)
  next
    case (RemoveConstraintCall c)
    with a have l: "removeConstraint fuel cs c g = Some g'" by simp
    from removeConstraint_entries[OF l s] obtain new where
      c: "Changes g' = Changes g @ (new @ [RemovedConstraint c])" and e: "list_all nodeEntry new"
      by auto
    note eff = removeConstraint_effect[OF l ok]
    from since_append[OF n c] e eff(2)[of tv] eff(3) eff(1)
    show ?thesis
      by (simp add: scopeConstraints_def scopeOrphans_def unwoundConstraints_skip
          mentions_def isOrphan_def)
  qed
  then show "scopeConstraints numChanges g' tv = scopeConstraints numChanges g tv"
    "scopeOrphans numChanges g' = scopeOrphans numChanges g"
    "allNodesOK g'"
    by simp_all
qed

subsection \<open>The journal entries of a call\<close>














subsection \<open>Contraction of a parameter binding\<close>

lemma removeEdge_effect:
  assumes r: "removeEdge fuel c (s, g) = Some (s1, g1)"
  shows "removeConstraint fuel (solverSystem s) c g = Some g1"
    and "ActiveConstraints s1 = remove1 c (ActiveConstraints s)"
    and "InactiveConstraints s1 = remove1 c (InactiveConstraints s)"
    and "solverSystem s1 = solverSystem s"
    and "allNodesOK g \<Longrightarrow> tv \<in> set (constraintTypeVariables c) \<Longrightarrow>
           c \<in> set (constraintsOf g tv) \<and> c \<notin> set (constraintsOf g1 tv)"
proof -
  from r show rc: "removeConstraint fuel (solverSystem s) c g = Some g1"
    and "ActiveConstraints s1 = remove1 c (ActiveConstraints s)"
    and "InactiveConstraints s1 = remove1 c (InactiveConstraints s)"
    and "solverSystem s1 = solverSystem s"
    by (auto simp: removeEdge_def Let_def)
  assume ok: "allNodesOK g" and tv: "tv \<in> set (constraintTypeVariables c)"
  from removeConstraint_effect(2)[OF rc ok, of tv] tv
  have m: "mset (constraintsOf g tv) = add_mset c (mset (constraintsOf g1 tv))" by simp
  then have "c \<in># mset (constraintsOf g tv)" by simp
  then have a: "c \<in> set (constraintsOf g tv)" by simp
  from constraintsOf_distinct[OF ok, of tv] have "count (mset (constraintsOf g tv)) c \<le> 1"
    by (simp add: distinct_count_atmost_1)
  with m have "count (mset (constraintsOf g1 tv)) c = 0" by simp
  then have "c \<notin> set (constraintsOf g1 tv)" by (simp add: count_eq_zero_iff)
  with a show "c \<in> set (constraintsOf g tv) \<and> c \<notin> set (constraintsOf g1 tv)" ..
qed

text \<open>
  Claim C8, as amended. For a \<^verbatim>\<open>BindParam\<close> constraint whose desugared operand types
  are the type variables \<open>a\<close> and \<open>b\<close>, where \<open>a\<close> can bind to \<^verbatim>\<open>inout\<close>, and whatever
  the flag \<^verbatim>\<open>didContractEdges\<close> is so far: the iteration leaves the solver, the
  graph and the flag as they are exactly when \<open>a\<close> has no potential bindings (none are
  found, or the set is empty) or some candidate contains a type variable that can
  bind to \<^verbatim>\<open>inout\<close> or an \<^verbatim>\<open>InOutType\<close>. Otherwise the edge is contracted, whatever
  the l-value capabilities of the representatives: \<^verbatim>\<open>removeEdge\<close> takes the
  constraint off the lists of the constraint system and, by \<^verbatim>\<open>removeConstraint\<close>, out
  of the node of every type variable it mentions, where it was; the representatives
  are merged by the constraint system if they differ; and the flag is set.
\<close>

theorem contractEdge_BindParam:
  assumes "getKind c = BindParam"
    and "getAsTypeVariableType (getDesugaredType (getFirstType c)) = Some a"
    and "getAsTypeVariableType (getDesugaredType (getSecondType c)) = Some b"
    and "canBindToInOut s a"
  shows "contractEdge mergeEquivalenceClasses fuel c (s, g, didContractEdges) =
     (if getPotentialBindings s a = None \<or> getPotentialBindings s a = Some [] \<or>
         (\<exists>bindings. getPotentialBindings s a = Some bindings \<and>
            list_ex (findIf (mayBindInOut (canBindToInOut s))) bindings)
      then Some (s, g, didContractEdges)
      else
        case removeEdge fuel c (s, g) of
          None \<Rightarrow> None
        | Some w1 \<Rightarrow>
            (case (if getRepresentative (solverSystem s) a \<noteq> getRepresentative (solverSystem s) b
                   then mergeEquivalenceClasses (getRepresentative (solverSystem s) a)
                          (getRepresentative (solverSystem s) b) w1
                   else Some w1) of
               None \<Rightarrow> None
             | Some (s2, g2) \<Rightarrow> Some (s2, g2, True)))
     \<and> (\<forall>s1 g1. removeEdge fuel c (s, g) = Some (s1, g1) \<longrightarrow>
          removeConstraint fuel (solverSystem s) c g = Some g1 \<and>
          ActiveConstraints s1 = remove1 c (ActiveConstraints s) \<and>
          InactiveConstraints s1 = remove1 c (InactiveConstraints s) \<and>
          solverSystem s1 = solverSystem s \<and>
          (allNodesOK g \<longrightarrow>
             (\<forall>tv\<in>set (constraintTypeVariables c).
                c \<in> set (constraintsOf g tv) \<and> c \<notin> set (constraintsOf g1 tv))))"
proof -
  have nc: "isNotContractable s a \<longleftrightarrow>
      getPotentialBindings s a = None \<or> getPotentialBindings s a = Some [] \<or>
         (\<exists>bindings. getPotentialBindings s a = Some bindings \<and>
            list_ex (findIf (mayBindInOut (canBindToInOut s))) bindings)"
    by (auto simp: isNotContractable_def bindingsLoop_True split: option.splits)
  have "contractEdge mergeEquivalenceClasses fuel c (s, g, didContractEdges) =
     (if isNotContractable s a then Some (s, g, didContractEdges)
      else contract mergeEquivalenceClasses fuel c
             (getRepresentative (solverSystem s) a) (getRepresentative (solverSystem s) b) (s, g))"
    using assms by (simp add: contractEdge_def Let_def)
  then have eq: "contractEdge mergeEquivalenceClasses fuel c (s, g, didContractEdges) =
     (if getPotentialBindings s a = None \<or> getPotentialBindings s a = Some [] \<or>
         (\<exists>bindings. getPotentialBindings s a = Some bindings \<and>
            list_ex (findIf (mayBindInOut (canBindToInOut s))) bindings)
      then Some (s, g, didContractEdges)
      else
        case removeEdge fuel c (s, g) of
          None \<Rightarrow> None
        | Some w1 \<Rightarrow>
            (case (if getRepresentative (solverSystem s) a \<noteq> getRepresentative (solverSystem s) b
                   then mergeEquivalenceClasses (getRepresentative (solverSystem s) a)
                          (getRepresentative (solverSystem s) b) w1
                   else Some w1) of
               None \<Rightarrow> None
             | Some (s2, g2) \<Rightarrow> Some (s2, g2, True)))"
    unfolding nc contract_def by simp
  have "\<forall>s1 g1. removeEdge fuel c (s, g) = Some (s1, g1) \<longrightarrow>
          removeConstraint fuel (solverSystem s) c g = Some g1 \<and>
          ActiveConstraints s1 = remove1 c (ActiveConstraints s) \<and>
          InactiveConstraints s1 = remove1 c (InactiveConstraints s) \<and>
          solverSystem s1 = solverSystem s \<and>
          (allNodesOK g \<longrightarrow>
             (\<forall>tv\<in>set (constraintTypeVariables c).
                c \<in> set (constraintsOf g tv) \<and> c \<notin> set (constraintsOf g1 tv)))"
  proof (intro allI impI)
    fix s1 g1 assume r: "removeEdge fuel c (s, g) = Some (s1, g1)"
    note e = removeEdge_effect[OF r]
    from e(1-4) e(5)
    show "removeConstraint fuel (solverSystem s) c g = Some g1 \<and>
          ActiveConstraints s1 = remove1 c (ActiveConstraints s) \<and>
          InactiveConstraints s1 = remove1 c (InactiveConstraints s) \<and>
          solverSystem s1 = solverSystem s \<and>
          (allNodesOK g \<longrightarrow>
             (\<forall>tv\<in>set (constraintTypeVariables c).
                c \<in> set (constraintsOf g tv) \<and> c \<notin> set (constraintsOf g1 tv)))"
      by blast
  qed
  with eq show ?thesis by (rule conjI)
qed

text \<open>The graph of 0 and 1 with the parameter binding between them.\<close>

definition bindParamGraph :: ConstraintGraph where
  "bindParamGraph = \<lparr>graphNode =
       [0 \<mapsto> (newNode 0)\<lparr>Constraints := [bindParam01], ConstraintIndex := [bindParam01 \<mapsto> 0]\<rparr>,
        1 \<mapsto> (newNode 1)\<lparr>Constraints := [bindParam01], ConstraintIndex := [bindParam01 \<mapsto> 0]\<rparr>],
     graphIndex = (\<lambda>_. 0)(1 := 1), TypeVariables = [0, 1],
     OrphanedConstraints = [], Changes = [], ActiveScope = []\<rparr>"

lemma bindParamGraph_reached:
  "addConstraint 0 unboundSystem bindParam01 twoNodeGraph = Some bindParamGraph"
  by (simp add: graph_eval twoNodeGraph_def bindParamGraph_def bindParam01_def fun_eq_iff)

lemma bindParamGraph_OK: "allNodesOK bindParamGraph"
  by (auto simp: allNodesOK_def nodeOK_def bindParamGraph_def newNode_def split: if_splits)

theorem contractEdge_BindParam_witness:
  "map_option (\<lambda>(s, g, didContractEdges).
       (didContractEdges, ActiveConstraints s, map (constraintsOf g) [0, 1],
        map (equivalenceClassOf g) [0, 1], map (getRepresentative (solverSystem s)) [0, 1]))
     (contractEdge (solverMergeEquivalenceClasses 0) 0 bindParam01
        (inoutSolver (Some [NominalType 0 []]), bindParamGraph, False))
   = Some (True, [], [[], []], [[0, 1], [1]], [0, 0]) \<and>
   map_option (\<lambda>(s, g, didContractEdges).
       (didContractEdges, ActiveConstraints s, map (constraintsOf g) [0, 1],
        map (equivalenceClassOf g) [0, 1], map (getRepresentative (solverSystem s)) [0, 1]))
     (contractEdge (solverMergeEquivalenceClasses 0) 0 bindParam01
        (inoutSolver (Some [InOutType (NominalType 0 [])]), bindParamGraph, False))
   = Some (False, [bindParam01], [[bindParam01], [bindParam01]], [[0], [1]], [0, 1]) \<and>
   map_option (\<lambda>(s, g). (ActiveConstraints s, map (constraintsOf g) [0, 1]))
     (removeEdge 0 bindParam01 (inoutSolver (Some [NominalType 0 []]), bindParamGraph))
   = Some ([], [[], []])"
proof -
  have k: "getKind bindParam01 = BindParam"
    "getAsTypeVariableType (getDesugaredType (getFirstType bindParam01)) = Some 0"
    "getAsTypeVariableType (getDesugaredType (getSecondType bindParam01)) = Some 1"
    by (simp_all add: bindParam01_def getAsTypeVariableType_def)
  have io: "\<And>bs. canBindToInOut (inoutSolver bs) 0" "\<And>bs. getPotentialBindings (inoutSolver bs) 0 = bs"
    "\<And>bs tv. getRepresentative (solverSystem (inoutSolver bs)) tv = tv"
    by (simp_all add: inoutSolver_def unboundSystem_def)
  have r1: "\<not> list_ex (findIf (mayBindInOut (canBindToInOut (inoutSolver (Some [NominalType 0 []]))))) [NominalType 0 []]"
    by (simp add: mayBindInOut_def getAsTypeVariableType_def isInOutType_def)
  have r2: "list_ex (findIf (mayBindInOut (canBindToInOut (inoutSolver (Some [InOutType (NominalType 0 [])])))))
      [InOutType (NominalType 0 [])]"
    by (simp add: mayBindInOut_def getAsTypeVariableType_def isInOutType_def)
  obtain s1 g1 where re: "removeEdge 0 bindParam01
      (inoutSolver (Some [NominalType 0 []]), bindParamGraph) = Some (s1, g1)"
    by (simp add: graph_eval contract_eval bindParamGraph_def)
  note t1 = contractEdge_BindParam[where s = "inoutSolver (Some [NominalType 0 []])"
        and mergeEquivalenceClasses = "solverMergeEquivalenceClasses 0" and fuel = 0
        and g = bindParamGraph and didContractEdges = False, OF k io(1)]
  note t2 = contractEdge_BindParam[where s = "inoutSolver (Some [InOutType (NominalType 0 [])])"
        and mergeEquivalenceClasses = "solverMergeEquivalenceClasses 0" and fuel = 0
        and g = bindParamGraph and didContractEdges = False, OF k io(1)]
  from t1 re bindParamGraph_OK have gone: "ActiveConstraints s1 = []"
    "bindParam01 \<notin> set (constraintsOf g1 0)" "bindParam01 \<notin> set (constraintsOf g1 1)"
    by (simp_all add: inoutSolver_def bindParam01_def)
  from t1[THEN conjunct1, unfolded io] r1
  have c1: "contractEdge (solverMergeEquivalenceClasses 0) 0 bindParam01
        (inoutSolver (Some [NominalType 0 []]), bindParamGraph, False) =
      (case removeEdge 0 bindParam01 (inoutSolver (Some [NominalType 0 []]), bindParamGraph) of
         None \<Rightarrow> None
       | Some w1 \<Rightarrow>
           (case (if (0::nat) \<noteq> 1 then solverMergeEquivalenceClasses 0 0 1 w1 else Some w1) of
              None \<Rightarrow> None
            | Some (s2, g2) \<Rightarrow> Some (s2, g2, True)))"
    by simp
  from t2[THEN conjunct1, unfolded io] r2 have c2: "contractEdge (solverMergeEquivalenceClasses 0) 0 bindParam01
        (inoutSolver (Some [InOutType (NominalType 0 [])]), bindParamGraph, False) =
      Some (inoutSolver (Some [InOutType (NominalType 0 [])]), bindParamGraph, False)"
    by simp
  have e1: "map_option (\<lambda>(s, g, didContractEdges).
       (didContractEdges, ActiveConstraints s, map (constraintsOf g) [0, 1],
        map (equivalenceClassOf g) [0, 1], map (getRepresentative (solverSystem s)) [0, 1]))
     (contractEdge (solverMergeEquivalenceClasses 0) 0 bindParam01
        (inoutSolver (Some [NominalType 0 []]), bindParamGraph, False))
   = Some (True, [], [[], []], [[0, 1], [1]], [0, 0])"
    unfolding c1
    by (simp add: graph_eval removeEdge_def solverMergeEquivalenceClasses_def inoutSolver_def
        bindParam01_def bindParamGraph_def)
  have e2: "map_option (\<lambda>(s, g, didContractEdges).
       (didContractEdges, ActiveConstraints s, map (constraintsOf g) [0, 1],
        map (equivalenceClassOf g) [0, 1], map (getRepresentative (solverSystem s)) [0, 1]))
     (contractEdge (solverMergeEquivalenceClasses 0) 0 bindParam01
        (inoutSolver (Some [InOutType (NominalType 0 [])]), bindParamGraph, False))
   = Some (False, [bindParam01], [[bindParam01], [bindParam01]], [[0], [1]], [0, 1])"
    unfolding c2
    by (simp add: graph_eval inoutSolver_def bindParamGraph_def)
  have e3: "map_option (\<lambda>(s, g). (ActiveConstraints s, map (constraintsOf g) [0, 1]))
     (removeEdge 0 bindParam01 (inoutSolver (Some [NominalType 0 []]), bindParamGraph))
   = Some ([], [[], []])"
    by (simp add: graph_eval contract_eval bindParamGraph_def)
  from e1 e2 e3 show ?thesis by simp
qed

subsection \<open>Sequences of calls that return\<close>

lemma lookupNode_existing_total:
  assumes ok: "graphOK g" and n: "graphNode g tv \<noteq> None"
  shows "lookupNode fuel cs tv g = Some g"
proof -
  from n obtain nd where nd: "graphNode g tv = Some nd" by auto
  from ok n have "tv \<in> set (TypeVariables g)" by (auto simp: graphOK_def dom_def)
  then obtain i where i: "i < length (TypeVariables g)" "TypeVariables g ! i = tv"
    by (auto simp: in_set_conv_nth)
  with ok have "graphIndex g tv = i" by (auto simp: graphOK_def)
  with i nd show ?thesis by (simp add: lookupNode_existing)
qed

lemma lookupNode_total:
  assumes ok: "graphOK g"
    and n: "graphNode g tv \<noteq> None \<or> (getRepresentative cs tv = tv \<and> getFixedType cs tv = None)"
  shows "\<exists>g'. lookupNode (Suc fuel) cs tv g = Some g'"
proof (cases "graphNode g tv")
  case None
  with n show ?thesis by (simp add: lookupNode_new_Suc)
next
  case (Some nd)
  with lookupNode_existing_total[OF ok, of tv "Suc fuel" cs] show ?thesis by simp
qed

lemma nodeRemoveConstraint_total:
  assumes ok: "nodeOK n" and c: "c \<in> set (Constraints n)"
  shows "\<exists>n'. nodeRemoveConstraint c n = Some n'"
proof -
  from c obtain i where i: "i < length (Constraints n)" "Constraints n ! i = c"
    by (auto simp: in_set_conv_nth)
  with ok have "ConstraintIndex n c = Some i" by (simp add: nodeOK_def)
  with i show ?thesis by (simp add: nodeRemoveConstraint_def Let_def)
qed

lemma nodeAddConstraint_total:
  assumes ok: "nodeOK n" and c: "c \<notin> set (Constraints n)"
  shows "\<exists>n'. nodeAddConstraint c n = Some n'"
  using nodeOK_index_iff[OF ok, of c] c by (simp add: nodeAddConstraint_def)

lemma addConstraintLoop_total:
  "graphOK g \<Longrightarrow> allNodesOK g \<Longrightarrow> distinct tvs \<Longrightarrow>
   \<forall>tv\<in>set tvs. graphNode g tv \<noteq> None \<or>
      (getRepresentative cs tv = tv \<and> getFixedType cs tv = None) \<Longrightarrow>
   \<forall>tv\<in>set tvs. c \<notin> set (constraintsOf g tv) \<Longrightarrow>
   \<exists>g'. addConstraintLoop (Suc fuel) cs c tvs g = Some g'"
proof (induction tvs arbitrary: g)
  case Nil
  then show ?case by simp
next
  case (Cons tv tvs)
  from lookupNode_total[OF Cons.prems(1), of tv cs fuel] Cons.prems(4)
  obtain g1 where l: "lookupNode (Suc fuel) cs tv g = Some g1" by auto
  from graphOK_ops(1)[OF l] Cons.prems(1) have ok1: "graphOK g1"
    and tv1: "tv \<in> dom (graphNode g1)" by simp_all
  from constraintFrame_ops(1)[OF l] Cons.prems(2) have nok1: "allNodesOK g1"
    and c1: "\<And>v. constraintsOf g1 v = constraintsOf g v"
    by (simp_all add: constraintFrame_def)
  from tv1 obtain n where n: "graphNode g1 tv = Some n" by auto
  with nok1 have nOK: "nodeOK n" by (auto simp: allNodesOK_def)
  from n c1[of tv] Cons.prems(5) have "c \<notin> set (Constraints n)"
    by (simp add: constraintsOf_def)
  from nodeAddConstraint_total[OF nOK this] obtain n' where "nodeAddConstraint c n = Some n'" ..
  with n obtain g2 where a: "onNode tv (nodeAddConstraint c) g1 = Some g2"
    by (simp add: onNode_def)
  note e = onNode_nodeAddConstraint[OF nok1 a]
  have ok2: "graphOK g2" by (rule graphOK_onNode[OF ok1 a])
  from opFrame_trans[OF opFrame_ops(1)[OF l] opFrame_onNode[OF a]]
  have d: "dom (graphNode g) \<subseteq> dom (graphNode g2)" by (simp add: opFrame_def)
  have nodes2: "\<forall>v\<in>set tvs. graphNode g2 v \<noteq> None \<or>
      (getRepresentative cs v = v \<and> getFixedType cs v = None)"
  proof
    fix v assume "v \<in> set tvs"
    with Cons.prems(4) have "graphNode g v \<noteq> None \<or>
      (getRepresentative cs v = v \<and> getFixedType cs v = None)" by simp
    moreover have "graphNode g v \<noteq> None \<Longrightarrow> graphNode g2 v \<noteq> None"
      using d by (metis domIff subsetD)
    ultimately show "graphNode g2 v \<noteq> None \<or>
      (getRepresentative cs v = v \<and> getFixedType cs v = None)" by blast
  qed
  have notin2: "\<forall>v\<in>set tvs. c \<notin> set (constraintsOf g2 v)"
    using Cons.prems(3,5) e(2) c1 by auto
  from Cons.prems(3) have "distinct tvs" by simp
  from Cons.IH[OF ok2 e(1) this nodes2 notin2] l a show ?case by simp
qed

lemma removeConstraintLoop_total:
  "graphOK g \<Longrightarrow> allNodesOK g \<Longrightarrow> distinct tvs \<Longrightarrow>
   \<forall>tv\<in>set tvs. c \<in> set (constraintsOf g tv) \<Longrightarrow>
   \<exists>g'. removeConstraintLoop fuel cs c tvs g = Some g'"
proof (induction tvs arbitrary: g)
  case Nil
  then show ?case by simp
next
  case (Cons tv tvs)
  from Cons.prems(4) have "c \<in> set (constraintsOf g tv)" by simp
  then obtain n where n: "graphNode g tv = Some n" "c \<in> set (Constraints n)"
    by (cases "graphNode g tv") (auto simp: constraintsOf_def)
  from lookupNode_existing_total[OF Cons.prems(1), of tv fuel cs] n
  have l: "lookupNode fuel cs tv g = Some g" by simp
  from n Cons.prems(2) have "nodeOK n" by (auto simp: allNodesOK_def)
  from nodeRemoveConstraint_total[OF this n(2)] obtain n' where
    "nodeRemoveConstraint c n = Some n'" ..
  with n obtain g2 where a: "onNode tv (nodeRemoveConstraint c) g = Some g2"
    by (simp add: onNode_def)
  note e = onNode_nodeRemoveConstraint[OF Cons.prems(2) a]
  have ok2: "graphOK g2" by (rule graphOK_onNode[OF Cons.prems(1) a])
  have in2: "\<forall>v\<in>set tvs. c \<in> set (constraintsOf g2 v)"
  proof
    fix v assume v: "v \<in> set tvs"
    with Cons.prems(3) have "v \<noteq> tv" by auto
    with e(2)[of v] have "mset (constraintsOf g v) = mset (constraintsOf g2 v)" by simp
    then have "set (constraintsOf g v) = set (constraintsOf g2 v)" by (rule mset_eq_setD)
    with Cons.prems(4) v show "c \<in> set (constraintsOf g2 v)" by auto
  qed
  from Cons.prems(3) have "distinct tvs" by simp
  from Cons.IH[OF ok2 e(1) this in2] l a show ?case by simp
qed

text \<open>
  A sequence of \<^verbatim>\<open>addConstraint\<close> and \<^verbatim>\<open>removeConstraint\<close> calls in which no
  assertion of the two functions fails. \<open>typeVars\<close> are the type variables that have a
  node and \<open>M\<close> the constraints registered so far. A constraint that is added is not
  registered, its type variables are distinct, and each of them has a node or is, in
  the constraint system of the call, its own representative without a fixed type
  (so that the lookup creates the node and nothing else); a constraint that is
  removed is registered.
\<close>

fun wellFormedCalls ::
  "tvar list \<Rightarrow> Constraint multiset \<Rightarrow> (ConstraintSystem \<times> Mutation) list \<Rightarrow> bool" where
  "wellFormedCalls typeVars M [] = True"
| "wellFormedCalls typeVars M ((cs, AddConstraintCall c) # ms) =
     (c \<notin># M \<and> distinct (constraintTypeVariables c) \<and>
      (\<forall>tv\<in>set (constraintTypeVariables c).
         tv \<in> set typeVars \<or> (getRepresentative cs tv = tv \<and> getFixedType cs tv = None)) \<and>
      wellFormedCalls (constraintTypeVariables c @ typeVars) (add_mset c M) ms)"
| "wellFormedCalls typeVars M ((cs, RemoveConstraintCall c) # ms) =
     (c \<in># M \<and> wellFormedCalls typeVars (M - {#c#}) ms)"
| "wellFormedCalls typeVars M ((cs, m) # ms) = False"

lemma addConstraint_total:
  assumes ok: "graphOK g" and inc: "incidence M g" and c: "c \<notin># M"
    and d: "distinct (constraintTypeVariables c)"
    and n: "\<forall>tv\<in>set (constraintTypeVariables c). graphNode g tv \<noteq> None \<or>
      (getRepresentative cs tv = tv \<and> getFixedType cs tv = None)"
  shows "\<exists>g'. addConstraint (Suc fuel) cs c g = Some g'"
proof -
  from inc have nok: "allNodesOK g" by (simp add: incidence_def)
  have "\<forall>tv\<in>set (constraintTypeVariables c). c \<notin> set (constraintsOf g tv)"
  proof
    fix tv
    from inc have "mset (constraintsOf g tv) =
        filter_mset (\<lambda>c. tv \<in> set (constraintTypeVariables c)) M"
      by (simp add: incidence_def)
    then have "set (constraintsOf g tv) \<subseteq> set_mset M"
      by (metis set_mset_mset set_mset_filter mem_Collect_eq subsetI)
    with c show "c \<notin> set (constraintsOf g tv)" by auto
  qed
  from addConstraintLoop_total[OF ok nok d n this, of fuel] show ?thesis
    by (auto simp: addConstraint_def Let_def)
qed

lemma removeConstraint_total:
  assumes ok: "graphOK g" and inc: "incidence M g" and c: "c \<in># M"
    and d: "distinct (constraintTypeVariables c)"
  shows "\<exists>g'. removeConstraint fuel cs c g = Some g'"
proof -
  from inc have nok: "allNodesOK g" by (simp add: incidence_def)
  have "\<forall>tv\<in>set (constraintTypeVariables c). c \<in> set (constraintsOf g tv)"
  proof
    fix tv assume tv: "tv \<in> set (constraintTypeVariables c)"
    from inc have "mset (constraintsOf g tv) =
        filter_mset (\<lambda>c. tv \<in> set (constraintTypeVariables c)) M"
      by (simp add: incidence_def)
    with c tv have "c \<in># mset (constraintsOf g tv)" by simp
    then show "c \<in> set (constraintsOf g tv)" by simp
  qed
  from removeConstraintLoop_total[OF ok nok d this, of fuel cs] obtain g1 where
    l: "removeConstraintLoop fuel cs c (constraintTypeVariables c) g = Some g1" ..
  from removeConstraintLoop_effect[OF l nok]
  have orph: "OrphanedConstraints g1 = OrphanedConstraints g" by simp
  show ?thesis
  proof (cases "constraintTypeVariables c = []")
    case True
    from inc have "mset (OrphanedConstraints g) =
        filter_mset (\<lambda>c. constraintTypeVariables c = []) M"
      by (simp add: incidence_def)
    with c True have "c \<in># mset (OrphanedConstraints g)" by simp
    then have "c \<in> set (OrphanedConstraints g1)" using orph by simp
    then have "removeOrphaned c (OrphanedConstraints g1) \<noteq> None"
      by (simp add: removeOrphaned_def Let_def)
    with l True show ?thesis by (auto simp: removeConstraint_def)
  next
    case False
    with l show ?thesis by (simp add: removeConstraint_def)
  qed
qed

lemma wellFormedCalls_return:
  "graphOK g \<Longrightarrow> incidence M g \<Longrightarrow> \<forall>c\<in>#M. distinct (constraintTypeVariables c) \<Longrightarrow>
   set typeVars \<subseteq> dom (graphNode g) \<Longrightarrow> wellFormedCalls typeVars M ms \<Longrightarrow>
   \<exists>g'. applyMutations (Suc fuel) ms g = Some g'"
proof (induction ms arbitrary: g M typeVars)
  case Nil
  then show ?case by simp
next
  case (Cons a ms)
  obtain cs m where a: "a = (cs, m)" by (cases a)
  show ?case
  proof (cases m)
    case (AddConstraintCall c)
    with Cons.prems(5) a have w: "c \<notin># M" "distinct (constraintTypeVariables c)"
      "\<forall>tv\<in>set (constraintTypeVariables c).
         tv \<in> set typeVars \<or> (getRepresentative cs tv = tv \<and> getFixedType cs tv = None)"
      "wellFormedCalls (constraintTypeVariables c @ typeVars) (add_mset c M) ms"
      by simp_all
    from w(3) Cons.prems(4) have n: "\<forall>tv\<in>set (constraintTypeVariables c).
        graphNode g tv \<noteq> None \<or> (getRepresentative cs tv = tv \<and> getFixedType cs tv = None)"
      by (auto simp: dom_def)
    from addConstraint_total[OF Cons.prems(1,2) w(1,2) n, of fuel] obtain g1 where
      s: "addConstraint (Suc fuel) cs c g = Some g1" ..
    from s obtain g0 where
      l: "addConstraintLoop (Suc fuel) cs c (constraintTypeVariables c) g = Some g0" and
      g1: "g1 = recordChange (AddedConstraint c)
           (if constraintTypeVariables c = []
            then g0\<lparr>OrphanedConstraints := OrphanedConstraints g0 @ [c]\<rparr> else g0)"
      by (auto simp: addConstraint_def Let_def split: option.splits)
    from addConstraintLoop_graphOK[OF l]
    have "set (constraintTypeVariables c) \<subseteq> dom (graphNode g0)" by simp
    moreover from addConstraintLoop_opFrame[OF l] Cons.prems(4)
    have "set typeVars \<subseteq> dom (graphNode g0)" unfolding opFrame_def by blast
    moreover from g1 have "graphNode g1 = graphNode g0" by simp
    ultimately have tvs: "set (constraintTypeVariables c @ typeVars) \<subseteq> dom (graphNode g1)"
      by simp
    have ok1: "graphOK g1" by (rule addConstraint_graphOK[OF s Cons.prems(1)])
    have inc1: "incidence (add_mset c M) g1" by (rule incidence_add[OF Cons.prems(2) s])
    have d1: "\<forall>c\<in>#add_mset c M. distinct (constraintTypeVariables c)"
      using Cons.prems(3) w(2) by simp
    from Cons.IH[OF ok1 inc1 d1 tvs w(4)] s a AddConstraintCall show ?thesis by simp
  next
    case (RemoveConstraintCall c)
    with Cons.prems(5) a have w: "c \<in># M" "wellFormedCalls typeVars (M - {#c#}) ms"
      by simp_all
    from Cons.prems(3) w(1) have d: "distinct (constraintTypeVariables c)" by simp
    from removeConstraint_total[OF Cons.prems(1,2) w(1) d, of "Suc fuel" cs] obtain g1 where
      s: "removeConstraint (Suc fuel) cs c g = Some g1" ..
    have ok1: "graphOK g1" by (rule removeConstraint_graphOK[OF s Cons.prems(1)])
    have inc1: "incidence (M - {#c#}) g1" by (rule incidence_remove[OF Cons.prems(2) s])
    have d1: "\<forall>c\<in>#M - {#c#}. distinct (constraintTypeVariables c)"
      using Cons.prems(3) by (auto dest: in_diffD)
    have tvs: "set typeVars \<subseteq> dom (graphNode g1)"
    proof -
      from s obtain g0 where
        l: "removeConstraintLoop (Suc fuel) cs c (constraintTypeVariables c) g = Some g0"
        by (auto simp: removeConstraint_def split: option.splits)
      with s have "graphNode g1 = graphNode g0"
        by (auto simp: removeConstraint_def split: option.splits if_splits)
      moreover from removeConstraintLoop_opFrame[OF l] Cons.prems(4)
      have "set typeVars \<subseteq> dom (graphNode g0)" unfolding opFrame_def by blast
      ultimately show ?thesis by simp
    qed
    from Cons.IH[OF ok1 inc1 d1 tvs w(2)] s a RemoveConstraintCall show ?thesis by simp
  qed (use Cons.prems(5) a in simp_all)
qed

text \<open>
  Claim C2. After any sequence of calls of the mutation interface on the empty graph
  that returns (no assertion fails), in particular any sequence of \<^verbatim>\<open>addConstraint\<close>
  and \<^verbatim>\<open>removeConstraint\<close> calls: a registered constraint is in the constraint list
  of the node of every type variable it mentions; a constraint in the list of the
  node of \<open>tv\<close> mentions \<open>tv\<close> (and is registered); and the orphaned constraints are
  exactly the registered constraints that mention no type variable. And every
  well-formed sequence of \<^verbatim>\<open>addConstraint\<close> and \<^verbatim>\<open>removeConstraint\<close> calls returns.
\<close>

theorem incidence_after_calls:
  "(applyMutations fuel ms emptyGraph = Some g \<longrightarrow>
      (\<forall>c tv. c \<in># registered ms \<and> tv \<in> set (constraintTypeVariables c)
            \<longrightarrow> c \<in> set (constraintsOf g tv)) \<and>
      (\<forall>tv c. c \<in> set (constraintsOf g tv)
            \<longrightarrow> tv \<in> set (constraintTypeVariables c) \<and> c \<in># registered ms) \<and>
      set (OrphanedConstraints g)
           = {c. c \<in># registered ms \<and> constraintTypeVariables c = []}) \<and>
   (wellFormedCalls [] {#} ms \<longrightarrow> (\<exists>g'. applyMutations (Suc fuel) ms emptyGraph = Some g'))"
proof (rule conjI; rule impI)
  assume w: "wellFormedCalls [] {#} ms"
  show "\<exists>g'. applyMutations (Suc fuel) ms emptyGraph = Some g'"
    by (rule wellFormedCalls_return[OF graphOK_emptyGraph incidence_emptyGraph _ _ w]) simp_all
next
  assume a: "applyMutations fuel ms emptyGraph = Some g"
  from incidence_steps[OF incidence_emptyGraph a]
  have inc: "incidence (registered ms) g" by (simp add: registered_def)
  then have nodes: "\<And>tv. mset (constraintsOf g tv)
      = filter_mset (\<lambda>c. tv \<in> set (constraintTypeVariables c)) (registered ms)"
    and orph: "mset (OrphanedConstraints g)
      = filter_mset (\<lambda>c. constraintTypeVariables c = []) (registered ms)"
    by (simp_all add: incidence_def)
  have m: "\<And>tv c. c \<in> set (constraintsOf g tv) \<longleftrightarrow>
      tv \<in> set (constraintTypeVariables c) \<and> c \<in># registered ms"
  proof -
    fix tv c
    have "c \<in> set (constraintsOf g tv) \<longleftrightarrow> c \<in># mset (constraintsOf g tv)" by simp
    also have "\<dots> \<longleftrightarrow> tv \<in> set (constraintTypeVariables c) \<and> c \<in># registered ms"
      unfolding nodes by auto
    finally show "c \<in> set (constraintsOf g tv) \<longleftrightarrow>
      tv \<in> set (constraintTypeVariables c) \<and> c \<in># registered ms" .
  qed
  have b: "set (OrphanedConstraints g)
      = {c. c \<in># registered ms \<and> constraintTypeVariables c = []}"
  proof -
    have "set (OrphanedConstraints g) = set_mset (mset (OrphanedConstraints g))" by simp
    also have "\<dots> = {c. c \<in># registered ms \<and> constraintTypeVariables c = []}"
      unfolding orph by auto
    finally show ?thesis .
  qed
  from m b show "(\<forall>c tv. c \<in># registered ms \<and> tv \<in> set (constraintTypeVariables c)
            \<longrightarrow> c \<in> set (constraintsOf g tv)) \<and>
      (\<forall>tv c. c \<in> set (constraintsOf g tv)
            \<longrightarrow> tv \<in> set (constraintTypeVariables c) \<and> c \<in># registered ms) \<and>
      set (OrphanedConstraints g)
           = {c. c \<in># registered ms \<and> constraintTypeVariables c = []}"
    by blast
qed

definition otherOrphan :: Constraint where
  "otherOrphan = \<lparr>cid = 8, getKind = OtherKind 1, getFirstType = NominalType 2 [],
     getSecondType = NominalType 3 [], constraintTypeVariables = []\<rparr>"

text \<open>Two constraints on type variables and two orphaned constraints are added; the
  first orphaned constraint and the first of the others are removed again.\<close>

definition incidenceCalls :: "(ConstraintSystem \<times> Mutation) list" where
  "incidenceCalls =
     [(unboundSystem, AddConstraintCall bind01),
      (unboundSystem, AddConstraintCall orphanConstraint),
      (unboundSystem, AddConstraintCall otherOrphan),
      (unboundSystem, AddConstraintCall equal12),
      (unboundSystem, RemoveConstraintCall orphanConstraint),
      (unboundSystem, RemoveConstraintCall bind01)]"

theorem incidence_after_calls_witness:
  "wellFormedCalls [] {#} incidenceCalls \<and>
   map_option (\<lambda>g. (map (constraintsOf g) [0, 1, 2], OrphanedConstraints g))
     (applyMutations 1 incidenceCalls emptyGraph)
     = Some ([[], [equal12], [equal12]], [otherOrphan]) \<and>
   equal12 \<in> set (constraintsOf (the (applyMutations 1 incidenceCalls emptyGraph)) 1) \<and>
   bind01 \<notin> set (constraintsOf (the (applyMutations 1 incidenceCalls emptyGraph)) 1) \<and>
   set (OrphanedConstraints (the (applyMutations 1 incidenceCalls emptyGraph))) = {otherOrphan}"
proof -
  have ne: "bind01 \<noteq> equal12" "bind01 \<noteq> orphanConstraint" "equal12 \<noteq> orphanConstraint"
    "bind01 \<noteq> otherOrphan" "equal12 \<noteq> otherOrphan" "orphanConstraint \<noteq> otherOrphan"
    by (simp_all add: bind01_def equal12_def orphanConstraint_def otherOrphan_def)
  have tv: "constraintTypeVariables equal12 = [1, 2]" "constraintTypeVariables bind01 = [0, 1]"
    "constraintTypeVariables orphanConstraint = []" "constraintTypeVariables otherOrphan = []"
    by (simp_all add: equal12_def bind01_def orphanConstraint_def otherOrphan_def)
  have w: "wellFormedCalls [] {#} incidenceCalls"
    using ne by (simp add: incidenceCalls_def tv unboundSystem_def)
  from incidence_after_calls[of 0 incidenceCalls emptyGraph, THEN conjunct2] w
  obtain g where a: "applyMutations 1 incidenceCalls emptyGraph = Some g" by auto
  have r: "registered incidenceCalls = {#equal12, otherOrphan#}"
    using ne by (simp add: registered_def incidenceCalls_def)
  from incidence_after_calls[of 1 incidenceCalls g] a
  have t: "(\<forall>c tv. c \<in># {#equal12, otherOrphan#} \<and> tv \<in> set (constraintTypeVariables c)
            \<longrightarrow> c \<in> set (constraintsOf g tv)) \<and>
      (\<forall>tv c. c \<in> set (constraintsOf g tv)
            \<longrightarrow> tv \<in> set (constraintTypeVariables c) \<and> c \<in># {#equal12, otherOrphan#}) \<and>
      set (OrphanedConstraints g)
           = {c. c \<in># {#equal12, otherOrphan#} \<and> constraintTypeVariables c = []}"
    unfolding r by blast
  from t have p1: "equal12 \<in># {#equal12, otherOrphan#} \<and> 1 \<in> set (constraintTypeVariables equal12)
      \<longrightarrow> equal12 \<in> set (constraintsOf g 1)"
    by blast
  from t have p2: "bind01 \<in> set (constraintsOf g 1) \<longrightarrow> bind01 \<in># {#equal12, otherOrphan#}"
    by blast
  from t have p3: "set (OrphanedConstraints g)
      = {c. c \<in># {#equal12, otherOrphan#} \<and> constraintTypeVariables c = []}"
    by blast
  from p1 tv have "equal12 \<in> set (constraintsOf g 1)" by simp
  moreover from p2 ne have "bind01 \<notin> set (constraintsOf g 1)" by auto
  moreover from p3 tv have "set (OrphanedConstraints g) = {otherOrphan}" by auto
  moreover have "map_option (\<lambda>g. (map (constraintsOf g) [0, 1, 2], OrphanedConstraints g))
     (applyMutations 1 incidenceCalls emptyGraph)
     = Some ([[], [equal12], [equal12]], [otherOrphan])"
    by (simp add: incidenceCalls_def graph_eval bind01_def equal12_def orphanConstraint_def
        otherOrphan_def)
  ultimately show ?thesis using a w by simp
qed

subsection \<open>The union-find structure\<close>

text \<open>\<^verbatim>\<open>unionSets\<close> reparents the representative with the higher ID, and path
  compression moves a type variable to a representative above its parent: every
  parent link goes to a lower ID.\<close>

definition parentsBelow :: "(tvar \<rightharpoonup> tvar) \<Rightarrow> bool" where
  "parentsBelow representatives \<longleftrightarrow> (\<forall>x p. representatives x = Some p \<longrightarrow> p < x)"

text \<open>The end of the chain of parent links from a type variable: at most \<open>n\<close>
  links are followed, and the ID of the variable is enough.\<close>

fun rootFrom :: "nat \<Rightarrow> (tvar \<rightharpoonup> tvar) \<Rightarrow> tvar \<Rightarrow> tvar" where
  "rootFrom 0 representatives x = x"
| "rootFrom (Suc n) representatives x =
     (case representatives x of None \<Rightarrow> x | Some p \<Rightarrow> rootFrom n representatives p)"

definition rootOf :: "(tvar \<rightharpoonup> tvar) \<Rightarrow> tvar \<Rightarrow> tvar" where
  "rootOf representatives x = rootFrom x representatives x"

lemma rootFrom_enough:
  "parentsBelow m \<Longrightarrow> x \<le> n \<Longrightarrow> rootFrom n m x = rootFrom x m x"
proof (induction x arbitrary: n rule: less_induct)
  case (less x)
  show ?case
  proof (cases "m x")
    case None
    then show ?thesis by (cases n; cases x) simp_all
  next
    case (Some p)
    with less.prems(1) have px: "p < x" by (simp add: parentsBelow_def)
    with less.prems(2) obtain k l where n: "n = Suc k" and x: "x = Suc l" and pk: "p \<le> k"
      and pl: "p \<le> l"
      by (cases n; cases x) auto
    from less.IH[OF px less.prems(1) pk] less.IH[OF px less.prems(1) pl] Some n x
    show ?thesis by simp
  qed
qed

lemma rootOf_step:
  "parentsBelow m \<Longrightarrow> rootOf m x = (case m x of None \<Rightarrow> x | Some p \<Rightarrow> rootOf m p)"
proof (cases "m x")
  case None
  then show ?thesis by (cases x) (simp_all add: rootOf_def)
next
  case (Some p)
  assume pb: "parentsBelow m"
  with Some have px: "p < x" by (simp add: parentsBelow_def)
  then obtain l where x: "x = Suc l" and pl: "p \<le> l" by (cases x) auto
  from rootFrom_enough[OF pb pl] Some x show ?thesis by (simp add: rootOf_def)
qed

lemma rootOf_le: "parentsBelow m \<Longrightarrow> rootOf m x \<le> x"
proof (induction x rule: less_induct)
  case (less x)
  show ?case
  proof (cases "m x")
    case None
    with less.prems show ?thesis by (simp add: rootOf_step)
  next
    case (Some p)
    with less.prems have px: "p < x" by (simp add: parentsBelow_def)
    from less.IH[OF px less.prems] px Some less.prems show ?thesis by (simp add: rootOf_step)
  qed
qed

lemma rootOf_root: "parentsBelow m \<Longrightarrow> m (rootOf m x) = None"
proof (induction x rule: less_induct)
  case (less x)
  show ?case
  proof (cases "m x")
    case None
    with less.prems show ?thesis by (simp add: rootOf_step)
  next
    case (Some p)
    with less.prems have px: "p < x" by (simp add: parentsBelow_def)
    from less.IH[OF px less.prems] Some less.prems show ?thesis by (simp add: rootOf_step)
  qed
qed

text \<open>Path compression changes no root.\<close>

lemma rootOf_compress:
  assumes pb: "parentsBelow m" and x: "m x = Some p"
  shows "parentsBelow (m(x \<mapsto> rootOf m x))"
    and "rootOf (m(x \<mapsto> rootOf m x)) y = rootOf m y"
proof -
  let ?r = "rootOf m x"
  let ?m = "m(x \<mapsto> ?r)"
  from pb x have px: "p < x" by (simp add: parentsBelow_def)
  from pb x have r: "?r = rootOf m p" by (simp add: rootOf_step)
  with rootOf_le[OF pb, of p] px have rx: "?r < x" by simp
  with pb show pb': "parentsBelow ?m" by (auto simp: parentsBelow_def)
  from rootOf_root[OF pb, of x] rx have rr: "?m ?r = None" by simp
  show "rootOf ?m y = rootOf m y"
  proof (induction y rule: less_induct)
    case (less y)
    show ?case
    proof (cases "y = x")
      case True
      have "rootOf ?m ?r = (case ?m ?r of None \<Rightarrow> ?r | Some q \<Rightarrow> rootOf ?m q)"
        by (rule rootOf_step[OF pb'])
      with rr have fx: "rootOf ?m ?r = ?r" by simp
      have "rootOf ?m x = (case ?m x of None \<Rightarrow> x | Some q \<Rightarrow> rootOf ?m q)"
        by (rule rootOf_step[OF pb'])
      also have "\<dots> = rootOf ?m ?r" by simp
      finally have "rootOf ?m x = rootOf ?m ?r" .
      from trans[OF this fx] show ?thesis unfolding True .
    next
      case False
      have s': "rootOf ?m y = (case ?m y of None \<Rightarrow> y | Some q \<Rightarrow> rootOf ?m q)"
        by (rule rootOf_step[OF pb'])
      have s: "rootOf m y = (case m y of None \<Rightarrow> y | Some q \<Rightarrow> rootOf m q)"
        by (rule rootOf_step[OF pb])
      from False have e: "?m y = m y" by simp
      show ?thesis
      proof (cases "m y")
        case None
        show ?thesis by (subst s', subst s) (simp only: e None option.case)
      next
        case (Some q)
        with pb have "q < y" by (simp add: parentsBelow_def)
        from less.IH[OF this] show ?thesis
          by (subst s', subst s) (simp only: e Some option.case)
      qed
    qed
  qed
qed

text \<open>\<^verbatim>\<open>findRepresentative\<close> returns the root when the fuel is at least the ID; the
  compressed links are below, and no root changes.\<close>

lemma findRepresentative_root:
  "parentsBelow m \<Longrightarrow> x \<le> fuel \<Longrightarrow>
   \<exists>m'. findRepresentative fuel m x = Some (rootOf m x, m') \<and> parentsBelow m' \<and>
        (\<forall>y. rootOf m' y = rootOf m y) \<and> (\<forall>y. x < y \<longrightarrow> m' y = m y)"
proof (induction x arbitrary: fuel m rule: less_induct)
  case (less x)
  note pb = less.prems(1)
  show ?case
  proof (cases "m x")
    case None
    with pb show ?thesis by (simp add: findRepresentative_unfold rootOf_step)
  next
    case (Some p)
    with pb have px: "p < x" by (simp add: parentsBelow_def)
    with less.prems(2) obtain f where fuel: "fuel = Suc f" and pf: "p \<le> f"
      by (cases fuel) auto
    from less.IH[OF px pb pf] obtain m1 where
      f1: "findRepresentative f m p = Some (rootOf m p, m1)" and pb1: "parentsBelow m1"
      and r1: "\<forall>y. rootOf m1 y = rootOf m y" and k1: "\<forall>y. p < y \<longrightarrow> m1 y = m y"
      by blast
    from pb Some have rx: "rootOf m x = rootOf m p" by (simp add: rootOf_step)
    from k1 px Some have m1x: "m1 x = Some p" by simp
    from r1 have r1x: "rootOf m1 x = rootOf m x" by simp
    show ?thesis
    proof (cases "rootOf m p = p")
      case True
      with f1 Some fuel rx have "findRepresentative fuel m x = Some (rootOf m x, m1)"
        by (simp add: findRepresentative_unfold)
      with pb1 r1 k1 px show ?thesis by auto
    next
      case False
      with f1 Some fuel rx
      have "findRepresentative fuel m x = Some (rootOf m x, m1(x \<mapsto> rootOf m x))"
        by (simp add: findRepresentative_unfold)
      moreover from rootOf_compress[OF pb1 m1x] r1x
      have "parentsBelow (m1(x \<mapsto> rootOf m x))"
        "\<forall>y. rootOf (m1(x \<mapsto> rootOf m x)) y = rootOf m1 y" by simp_all
      moreover have "\<forall>y. x < y \<longrightarrow> (m1(x \<mapsto> rootOf m x)) y = m y"
        using k1 px by auto
      ultimately show ?thesis using r1 by auto
    qed
  qed
qed

subsection \<open>The postorder search over the one-way digraph\<close>

definition outOf :: "digraph \<Rightarrow> tvar \<Rightarrow> tvar list" where
  "outOf d x = (case map_of d x of None \<Rightarrow> [] | Some r \<Rightarrow> outAdjacencies r)"

definition inOf :: "digraph \<Rightarrow> tvar \<Rightarrow> tvar list" where
  "inOf d x = (case map_of d x of None \<Rightarrow> [] | Some r \<Rightarrow> inAdjacencies r)"

text \<open>The index of the component of a type variable, if its component has an
  unbound type variable; the adjacencies that the first search follows from a type
  variable; and the type variables that it records for component \<open>i\<close>.\<close>

definition componentOf :: "(tvar \<times> nat) list \<Rightarrow> (tvar \<rightharpoonup> tvar) \<Rightarrow> tvar \<Rightarrow> nat option" where
  "componentOf idxMap m x = map_of idxMap (rootOf m x)"

definition searched :: "(tvar \<times> nat) list \<Rightarrow> digraph \<Rightarrow> (tvar \<rightharpoonup> tvar) \<Rightarrow> tvar \<Rightarrow> tvar list" where
  "searched idxMap d m x = (case componentOf idxMap m x of None \<Rightarrow> [] | Some i \<Rightarrow> outOf d x)"

definition recorded :: "(tvar \<times> nat) list \<Rightarrow> digraph \<Rightarrow> (tvar \<rightharpoonup> tvar) \<Rightarrow> nat \<Rightarrow> tvar \<Rightarrow> bool" where
  "recorded idxMap d m i x \<longleftrightarrow> map_of d x \<noteq> None \<and> componentOf idxMap m x = Some i"

definition ordersOf ::
  "(tvar \<times> nat) list \<Rightarrow> digraph \<Rightarrow> (tvar \<rightharpoonup> tvar) \<Rightarrow> nat \<Rightarrow> tvar list \<Rightarrow> tvar list list" where
  "ordersOf idxMap d m n P = map (\<lambda>i. filter (recorded idxMap d m i) P) [0..<n]"

lemma outgoingAdjacencies_pure:
  assumes pb: "parentsBelow m'" and r: "\<forall>y. rootOf m' y = rootOf m y" and x: "x \<le> fuel"
  shows "\<exists>m''. outgoingAdjacencies fuel idxMap d x (m', orders)
           = Some (searched idxMap d m x, m'', orders) \<and>
         parentsBelow m'' \<and> (\<forall>y. rootOf m'' y = rootOf m y)"
proof -
  from findRepresentative_root[OF pb x] obtain m'' where
    f: "findRepresentative fuel m' x = Some (rootOf m' x, m'')" and pb': "parentsBelow m''"
    and r': "\<forall>y. rootOf m'' y = rootOf m' y" by blast
  from f r have "outgoingAdjacencies fuel idxMap d x (m', orders)
           = Some (searched idxMap d m x, m'', orders)"
    by (simp add: outgoingAdjacencies_def searched_def componentOf_def outOf_def
        split: option.splits)
  with pb' r r' show ?thesis by auto
qed

lemma ordersOf_snoc:
  assumes b: "\<forall>rep i. map_of idxMap rep = Some i \<longrightarrow> i < n"
  shows "ordersOf idxMap d m n (P @ [x]) =
     (case map_of d x of
        None \<Rightarrow> ordersOf idxMap d m n P
      | Some r \<Rightarrow>
          (case componentOf idxMap m x of
             None \<Rightarrow> ordersOf idxMap d m n P
           | Some i \<Rightarrow> (ordersOf idxMap d m n P)[i := ordersOf idxMap d m n P ! i @ [x]]))"
proof (cases "map_of d x")
  case None
  then show ?thesis by (simp add: ordersOf_def recorded_def)
next
  case (Some r)
  show ?thesis
  proof (cases "componentOf idxMap m x")
    case None
    with Some show ?thesis by (simp add: ordersOf_def recorded_def)
  next
    case (Some i)
    with b have i: "i < n" by (auto simp: componentOf_def)
    have "ordersOf idxMap d m n (P @ [x]) =
        (ordersOf idxMap d m n P)[i := ordersOf idxMap d m n P ! i @ [x]]"
      by (rule nth_equalityI)
         (use i Some \<open>map_of d x = Some r\<close> in
           \<open>auto simp: ordersOf_def recorded_def nth_list_update\<close>)
    with Some \<open>map_of d x = Some r\<close> show ?thesis by simp
  qed
qed

lemma recordDependencyOrder_pure:
  assumes pb: "parentsBelow m'" and r: "\<forall>y. rootOf m' y = rootOf m y" and x: "x \<le> fuel"
    and b: "\<forall>rep i. map_of idxMap rep = Some i \<longrightarrow> i < n"
  shows "\<exists>m''. recordDependencyOrder fuel idxMap d x (m', ordersOf idxMap d m n P)
           = Some (m'', ordersOf idxMap d m n (P @ [x])) \<and>
         parentsBelow m'' \<and> (\<forall>y. rootOf m'' y = rootOf m y)"
proof (cases "map_of d x")
  case None
  with pb r show ?thesis
    by (simp add: recordDependencyOrder_def ordersOf_snoc[OF b])
next
  case (Some raw)
  from findRepresentative_root[OF pb x] obtain m'' where
    f: "findRepresentative fuel m' x = Some (rootOf m' x, m'')" and pb': "parentsBelow m''"
    and r': "\<forall>y. rootOf m'' y = rootOf m' y" by blast
  have len: "length (ordersOf idxMap d m n P) = n" by (simp add: ordersOf_def)
  show ?thesis
  proof (cases "componentOf idxMap m x")
    case None
    with Some f r have "recordDependencyOrder fuel idxMap d x (m', ordersOf idxMap d m n P)
           = Some (m'', ordersOf idxMap d m n (P @ [x]))"
      by (simp add: recordDependencyOrder_def ordersOf_snoc[OF b] componentOf_def)
    with pb' r r' show ?thesis by auto
  next
    case (Some i)
    with b have "i < n" by (auto simp: componentOf_def)
    with Some \<open>map_of d x = Some raw\<close> f r len
    have "recordDependencyOrder fuel idxMap d x (m', ordersOf idxMap d m n P)
           = Some (m'', ordersOf idxMap d m n (P @ [x]))"
      by (simp add: recordDependencyOrder_def ordersOf_snoc[OF b] componentOf_def)
    with pb' r r' show ?thesis by auto
  qed
qed

text \<open>The place of a type variable in the postorder.\<close>

definition position :: "tvar list \<Rightarrow> tvar \<Rightarrow> nat" where
  "position P x = length (takeWhile (\<lambda>z. z \<noteq> x) P)"

lemma position_append: "x \<in> set P \<Longrightarrow> position (P @ Q) x = position P x"
  by (simp add: position_def takeWhile_append1)

lemma position_less: "x \<in> set P \<Longrightarrow> position P x < length P"
  unfolding position_def by (induction P) auto

lemma position_last: "x \<notin> set P \<Longrightarrow> position (P @ [x]) x = length P"
  unfolding position_def by (induction P) auto

text \<open>
  The state of the first search: the links of the representatives go down and the
  roots are those at the start; the dependency orders are the postorder \<open>P\<close> so far,
  split by component; what is in the postorder has been visited; and in the postorder
  a type variable comes after the type variables that the search follows from it.
\<close>

definition searchState ::
  "(tvar \<times> nat) list \<Rightarrow> digraph \<Rightarrow> (tvar \<rightharpoonup> tvar) \<Rightarrow> nat \<Rightarrow> tvar set \<Rightarrow> tvar list \<Rightarrow> tvar list
    \<Rightarrow> (tvar \<rightharpoonup> tvar) \<times> tvar list list \<Rightarrow> bool" where
  "searchState idxMap d m n N visited P st \<longleftrightarrow>
     parentsBelow (fst st) \<and> (\<forall>y. rootOf (fst st) y = rootOf m y) \<and>
     snd st = ordersOf idxMap d m n P \<and>
     set P \<subseteq> set visited \<and> set visited \<subseteq> N \<and> distinct P \<and>
     (\<forall>z\<in>set P. \<forall>y\<in>set (searched idxMap d m z). y \<in> set P \<and> position P y < position P z)"

lemma searchState_visit:
  assumes s: "searchState idxMap d m n N visited P (m', orders)"
    and pb: "parentsBelow m''" and r: "\<forall>y. rootOf m'' y = rootOf m y" and x: "x \<in> N"
  shows "searchState idxMap d m n N (x # visited) P (m'', orders)"
  using assms by (auto simp: searchState_def)

lemma searchState_post:
  assumes s: "searchState idxMap d m n N visited P (m', orders)"
    and pb: "parentsBelow m''" and r: "\<forall>y. rootOf m'' y = rootOf m y"
    and x: "x \<in> set visited" "x \<notin> set P"
    and adj: "set (searched idxMap d m x) \<subseteq> set P"
  shows "searchState idxMap d m n N visited (P @ [x])
           (m'', ordersOf idxMap d m n (P @ [x]))"
proof -
  from s have tp: "\<forall>z\<in>set P. \<forall>y\<in>set (searched idxMap d m z).
      y \<in> set P \<and> position P y < position P z"
    and sub: "set P \<subseteq> set visited" "set visited \<subseteq> N" and dist: "distinct P"
    by (simp_all add: searchState_def)
  have "\<forall>z\<in>set (P @ [x]). \<forall>y\<in>set (searched idxMap d m z).
      y \<in> set (P @ [x]) \<and> position (P @ [x]) y < position (P @ [x]) z"
  proof (intro ballI)
    fix z y assume z: "z \<in> set (P @ [x])" and y: "y \<in> set (searched idxMap d m z)"
    show "y \<in> set (P @ [x]) \<and> position (P @ [x]) y < position (P @ [x]) z"
    proof (cases "z \<in> set P")
      case True
      with tp y have "y \<in> set P" "position P y < position P z" by auto
      with True show ?thesis by (simp add: position_append)
    next
      case False
      with z have zx: "z = x" by simp
      with y adj have yP: "y \<in> set P" by auto
      from position_less[OF yP] position_last[OF x(2)] yP zx show ?thesis
        by (simp add: position_append)
    qed
  qed
  with sub dist x pb r show ?thesis by (simp add: searchState_def)
qed

lemma postorderDepthFirstSearchRec_visited:
  "x \<in> set visited \<Longrightarrow>
   postorderDepthFirstSearchRec k getAdjacencies postVisit x (st, visited) = Some (st, visited)"
  by (simp add: postorderDepthFirstSearchRec.simps)

lemma postorderDepthFirstSearchRec_new:
  "x \<notin> set visited \<Longrightarrow>
   postorderDepthFirstSearchRec (Suc k) getAdjacencies postVisit x (st, visited) =
     (case getAdjacencies x st of
        None \<Rightarrow> None
      | Some (adjacencies, st1) \<Rightarrow>
          (case postorderDepthFirstSearchAll k getAdjacencies postVisit adjacencies
                  (st1, x # visited) of
             None \<Rightarrow> None
           | Some (st2, visited2) \<Rightarrow>
               (case postVisit x st2 of
                  None \<Rightarrow> None
                | Some st3 \<Rightarrow> Some (st3, visited2))))"
  by (simp add: postorderDepthFirstSearchRec.simps)

text \<open>
  The first search returns, and it keeps the state of the search, when the digraph
  has no cycle: a function \<open>rank\<close> decreases along every edge that the search follows.
  \<open>N\<close> is a finite set of type variables that holds the adjacencies of its members;
  the fuel of the search covers the members of \<open>N\<close> that are not visited, and the fuel
  of the callbacks covers the IDs. The type variables that are visited and not in the
  postorder are those on the stack, and the search starts from a type variable of
  lower rank than these.
\<close>

lemma outgoingSearch:
  fixes rank :: "tvar \<Rightarrow> nat"
  assumes fuelF: "\<forall>x\<in>N. x \<le> fuel"
    and closed: "\<forall>x\<in>N. set (searched idxMap d m x) \<subseteq> N"
    and acyc: "\<forall>x y. y \<in> set (searched idxMap d m x) \<longrightarrow> rank y < rank x"
    and bound: "\<forall>rep i. map_of idxMap rep = Some i \<longrightarrow> i < n"
    and fin: "finite N"
  shows "searchState idxMap d m n N visited P st \<Longrightarrow> x \<in> N \<Longrightarrow>
         card (N - set visited) \<le> k \<Longrightarrow> \<forall>g\<in>set visited - set P. rank x < rank g \<Longrightarrow>
         \<exists>st' visited' Q.
           postorderDepthFirstSearchRec k (outgoingAdjacencies fuel idxMap d)
             (recordDependencyOrder fuel idxMap d) x (st, visited) = Some (st', visited') \<and>
           searchState idxMap d m n N visited' (P @ Q) st' \<and> set visited \<subseteq> set visited' \<and>
           set visited' - set (P @ Q) = set visited - set P \<and> x \<in> set (P @ Q)"
    and "searchState idxMap d m n N visited P st \<Longrightarrow> set xs \<subseteq> N \<Longrightarrow>
         card (N - set visited) \<le> k \<Longrightarrow>
         \<forall>x\<in>set xs. \<forall>g\<in>set visited - set P. rank x < rank g \<Longrightarrow>
         \<exists>st' visited' Q.
           postorderDepthFirstSearchAll k (outgoingAdjacencies fuel idxMap d)
             (recordDependencyOrder fuel idxMap d) xs (st, visited) = Some (st', visited') \<and>
           searchState idxMap d m n N visited' (P @ Q) st' \<and> set visited \<subseteq> set visited' \<and>
           set visited' - set (P @ Q) = set visited - set P \<and> set xs \<subseteq> set (P @ Q)"
proof (induction k arbitrary: x xs st visited P)
  case 0
  {
    case 1
    have "x \<in> set visited"
    proof (rule ccontr)
      assume "x \<notin> set visited"
      with "1.prems"(2) have "x \<in> N - set visited" by simp
      with fin have "0 < card (N - set visited)" by (auto simp: card_gt_0_iff)
      with "1.prems"(3) show False by simp
    qed
    moreover from this "1.prems"(4) have "x \<in> set P" by auto
    ultimately show ?case using "1.prems"(1)
      by (intro exI[of _ st] exI[of _ visited] exI[of _ "[]"])
         (simp add: postorderDepthFirstSearchRec_visited)
  next
    case 2
    have rec: "\<And>x st visited P. searchState idxMap d m n N visited P st \<Longrightarrow> x \<in> N \<Longrightarrow>
         card (N - set visited) \<le> 0 \<Longrightarrow> \<forall>g\<in>set visited - set P. rank x < rank g \<Longrightarrow>
         postorderDepthFirstSearchRec 0 (outgoingAdjacencies fuel idxMap d)
             (recordDependencyOrder fuel idxMap d) x (st, visited) = Some (st, visited) \<and>
         x \<in> set P"
    proof -
      fix x :: tvar and st visited P
      assume a: "x \<in> N" "card (N - set visited) \<le> 0"
        "\<forall>g\<in>set visited - set P. rank x < rank g"
      have v: "x \<in> set visited"
      proof (rule ccontr)
        assume "x \<notin> set visited"
        with a(1) have "x \<in> N - set visited" by simp
        with fin have "0 < card (N - set visited)" by (auto simp: card_gt_0_iff)
        with a(2) show False by simp
      qed
      moreover from v a(3) have "x \<in> set P" by auto
      ultimately show "postorderDepthFirstSearchRec 0 (outgoingAdjacencies fuel idxMap d)
             (recordDependencyOrder fuel idxMap d) x (st, visited) = Some (st, visited) \<and>
         x \<in> set P"
        by (simp add: postorderDepthFirstSearchRec_visited)
    qed
    from "2.prems" show ?case
    proof (induction xs)
      case Nil
      then show ?case
        by (intro exI[of _ st] exI[of _ visited] exI[of _ "[]"]) simp
    next
      case (Cons a xs)
      from rec[OF Cons.prems(1), of a] Cons.prems(2,3,4)
      have r: "postorderDepthFirstSearchRec 0 (outgoingAdjacencies fuel idxMap d)
             (recordDependencyOrder fuel idxMap d) a (st, visited) = Some (st, visited)"
        and aP: "a \<in> set P" by simp_all
      from Cons.IH[OF Cons.prems(1)] Cons.prems(2,3,4) obtain st' visited' Q where
        "postorderDepthFirstSearchAll 0 (outgoingAdjacencies fuel idxMap d)
             (recordDependencyOrder fuel idxMap d) xs (st, visited) = Some (st', visited')"
        "searchState idxMap d m n N visited' (P @ Q) st'" "set visited \<subseteq> set visited'"
        "set visited' - set (P @ Q) = set visited - set P" "set xs \<subseteq> set (P @ Q)"
        by auto
      with r aP show ?case
        by (intro exI[of _ st'] exI[of _ visited'] exI[of _ Q]) simp
    qed
  }
next
  case (Suc k)
  have rec: "\<And>x st visited P. searchState idxMap d m n N visited P st \<Longrightarrow> x \<in> N \<Longrightarrow>
         card (N - set visited) \<le> Suc k \<Longrightarrow> \<forall>g\<in>set visited - set P. rank x < rank g \<Longrightarrow>
         \<exists>st' visited' Q.
           postorderDepthFirstSearchRec (Suc k) (outgoingAdjacencies fuel idxMap d)
             (recordDependencyOrder fuel idxMap d) x (st, visited) = Some (st', visited') \<and>
           searchState idxMap d m n N visited' (P @ Q) st' \<and> set visited \<subseteq> set visited' \<and>
           set visited' - set (P @ Q) = set visited - set P \<and> x \<in> set (P @ Q)"
  proof -
    fix x :: tvar and st :: "(tvar \<rightharpoonup> tvar) \<times> tvar list list" and visited P
    assume s: "searchState idxMap d m n N visited P st" and xN: "x \<in> N"
      and c: "card (N - set visited) \<le> Suc k"
      and g: "\<forall>g\<in>set visited - set P. rank x < rank g"
    obtain m' orders where st: "st = (m', orders)" by (cases st)
    show "\<exists>st' visited' Q.
           postorderDepthFirstSearchRec (Suc k) (outgoingAdjacencies fuel idxMap d)
             (recordDependencyOrder fuel idxMap d) x (st, visited) = Some (st', visited') \<and>
           searchState idxMap d m n N visited' (P @ Q) st' \<and> set visited \<subseteq> set visited' \<and>
           set visited' - set (P @ Q) = set visited - set P \<and> x \<in> set (P @ Q)"
    proof (cases "x \<in> set visited")
      case True
      with g have "x \<in> set P" by auto
      with True s show ?thesis
        by (intro exI[of _ st] exI[of _ visited] exI[of _ "[]"])
           (simp add: postorderDepthFirstSearchRec_visited)
    next
      case False
      from s st have pb: "parentsBelow m'" and r: "\<forall>y. rootOf m' y = rootOf m y"
        and o: "orders = ordersOf idxMap d m n P" and PV: "set P \<subseteq> set visited"
        by (simp_all add: searchState_def)
      from fuelF xN have xf: "x \<le> fuel" by simp
      from outgoingAdjacencies_pure[OF pb r xf, where idxMap = idxMap and d = d and orders = orders] obtain m1 where
        a: "outgoingAdjacencies fuel idxMap d x (m', orders)
              = Some (searched idxMap d m x, m1, orders)"
        and pb1: "parentsBelow m1" and r1: "\<forall>y. rootOf m1 y = rootOf m y" by blast
      have s1: "searchState idxMap d m n N (x # visited) P (m1, orders)"
        by (rule searchState_visit[OF s[unfolded st] pb1 r1 xN])
      from closed xN have sub: "set (searched idxMap d m x) \<subseteq> N" by simp
      from False xN fin c have c1: "card (N - set (x # visited)) \<le> k"
      proof -
        have "N - set (x # visited) = (N - set visited) - {x}" by auto
        moreover from False xN have "x \<in> N - set visited" by simp
        ultimately have "card (N - set (x # visited)) = card (N - set visited) - 1"
          using fin by (simp add: card_Diff_singleton)
        with c show ?thesis by simp
      qed
      have g1: "\<forall>y\<in>set (searched idxMap d m x). \<forall>g\<in>set (x # visited) - set P.
          rank y < rank g"
      proof (intro ballI)
        fix y g' assume y: "y \<in> set (searched idxMap d m x)"
          and g': "g' \<in> set (x # visited) - set P"
        from acyc y have yx: "rank y < rank x" by simp
        show "rank y < rank g'"
        proof (cases "g' = x")
          case True
          with yx show ?thesis by simp
        next
          case False
          with g' g have "rank x < rank g'" by auto
          with yx show ?thesis by simp
        qed
      qed
      from Suc.IH(2)[OF s1 sub c1 g1] obtain st2 visited2 Q where
        all: "postorderDepthFirstSearchAll k (outgoingAdjacencies fuel idxMap d)
             (recordDependencyOrder fuel idxMap d) (searched idxMap d m x)
             ((m1, orders), x # visited) = Some (st2, visited2)"
        and s2: "searchState idxMap d m n N visited2 (P @ Q) st2"
        and v2: "set (x # visited) \<subseteq> set visited2"
        and g2: "set visited2 - set (P @ Q) = set (x # visited) - set P"
        and adj2: "set (searched idxMap d m x) \<subseteq> set (P @ Q)"
        by blast
      obtain m2 orders2 where st2: "st2 = (m2, orders2)" by (cases st2)
      from s2 st2 have pb2: "parentsBelow m2" and r2: "\<forall>y. rootOf m2 y = rootOf m y"
        and o2: "orders2 = ordersOf idxMap d m n (P @ Q)"
        by (simp_all add: searchState_def)
      from recordDependencyOrder_pure[OF pb2 r2 xf bound, where d = d and P = "P @ Q"] o2 obtain m3 where
        p: "recordDependencyOrder fuel idxMap d x (m2, orders2)
              = Some (m3, ordersOf idxMap d m n ((P @ Q) @ [x]))"
        and pb3: "parentsBelow m3" and r3: "\<forall>y. rootOf m3 y = rootOf m y" by blast
      from False PV have xP: "x \<notin> set P" by auto
      with g2 have xg: "x \<in> set visited2 - set (P @ Q)" by auto
      then have xv: "x \<in> set visited2" and xPQ: "x \<notin> set (P @ Q)" by auto
      have s3: "searchState idxMap d m n N visited2 ((P @ Q) @ [x])
           (m3, ordersOf idxMap d m n ((P @ Q) @ [x]))"
        by (rule searchState_post[OF s2[unfolded st2] pb3 r3 xv xPQ adj2])
      have res: "postorderDepthFirstSearchRec (Suc k) (outgoingAdjacencies fuel idxMap d)
             (recordDependencyOrder fuel idxMap d) x (st, visited)
           = Some ((m3, ordersOf idxMap d m n ((P @ Q) @ [x])), visited2)"
        using False a all p st st2 by (simp add: postorderDepthFirstSearchRec_new)
      have gray: "set visited2 - set (P @ (Q @ [x])) = set visited - set P"
        using g2 False xP by auto
      from res s3 v2 gray show ?thesis
        by (intro exI[of _ "(m3, ordersOf idxMap d m n ((P @ Q) @ [x]))"]
            exI[of _ visited2] exI[of _ "Q @ [x]"]) simp
    qed
  qed
  {
    case 1
    from rec[OF "1.prems"] show ?case .
  next
    case 2
    from "2.prems" show ?case
    proof (induction xs arbitrary: st visited P)
      case Nil
      then show ?case
        by (intro exI[of _ st] exI[of _ visited] exI[of _ "[]"]) simp
    next
      case (Cons a xs)
      from Cons.prems(2,4) have aN: "a \<in> N"
        and ga: "\<forall>g\<in>set visited - set P. rank a < rank g" by simp_all
      from rec[OF Cons.prems(1) aN Cons.prems(3) ga] obtain st1 visited1 Q1 where
        r: "postorderDepthFirstSearchRec (Suc k) (outgoingAdjacencies fuel idxMap d)
             (recordDependencyOrder fuel idxMap d) a (st, visited) = Some (st1, visited1)"
        and s1: "searchState idxMap d m n N visited1 (P @ Q1) st1"
        and v1: "set visited \<subseteq> set visited1"
        and g1: "set visited1 - set (P @ Q1) = set visited - set P"
        and a1: "a \<in> set (P @ Q1)"
        by blast
      from v1 have "N - set visited1 \<subseteq> N - set visited" by auto
      with fin have "card (N - set visited1) \<le> card (N - set visited)"
        by (simp add: card_mono)
      with Cons.prems(3) have c1: "card (N - set visited1) \<le> Suc k" by simp
      from Cons.prems(2) have xsN: "set xs \<subseteq> N" by simp
      from Cons.prems(4) g1 have gx: "\<forall>x\<in>set xs. \<forall>g\<in>set visited1 - set (P @ Q1).
          rank x < rank g" by simp
      from Cons.IH[OF s1 xsN c1 gx] obtain st' visited' Q where
        all: "postorderDepthFirstSearchAll (Suc k) (outgoingAdjacencies fuel idxMap d)
             (recordDependencyOrder fuel idxMap d) xs (st1, visited1) = Some (st', visited')"
        and s': "searchState idxMap d m n N visited' ((P @ Q1) @ Q) st'"
        and v': "set visited1 \<subseteq> set visited'"
        and g': "set visited' - set ((P @ Q1) @ Q) = set visited1 - set (P @ Q1)"
        and x': "set xs \<subseteq> set ((P @ Q1) @ Q)"
        by blast
      from r all s' v1 v' g1 g' a1 x' show ?case
        by (intro exI[of _ st'] exI[of _ visited'] exI[of _ "Q1 @ Q"]) auto
    qed
  }
qed

subsection \<open>The searches for the dependencies return\<close>

lemma incomingAdjacencies_inOf: "incomingAdjacencies d y deps = Some (inOf d y, deps)"
  by (simp add: incomingAdjacencies_def inOf_def split: option.splits)

text \<open>The second search, backwards from a type variable \<open>x\<close>, returns when every type
  variable that it can reach, other than \<open>x\<close>, has a subcomponent index: \<open>S\<close> holds the
  incoming adjacencies of its members.\<close>

lemma incomingSearch:
  assumes closed: "\<forall>y\<in>S. set (inOf d y) \<subseteq> S"
    and known: "\<forall>y\<in>S. y = x \<or> map_of idxs y \<noteq> None"
    and fin: "finite S"
  shows "z \<in> S \<Longrightarrow> card (S - set visited) \<le> k \<Longrightarrow>
         \<exists>deps' visited'.
           postorderDepthFirstSearchRec k (incomingAdjacencies d) (recordDependsOn idxs x) z
             (deps, visited) = Some (deps', visited') \<and> set visited \<subseteq> set visited'"
    and "set zs \<subseteq> S \<Longrightarrow> card (S - set visited) \<le> k \<Longrightarrow>
         \<exists>deps' visited'.
           postorderDepthFirstSearchAll k (incomingAdjacencies d) (recordDependsOn idxs x) zs
             (deps, visited) = Some (deps', visited') \<and> set visited \<subseteq> set visited'"
proof (induction k arbitrary: z zs deps visited)
  case 0
  have rec: "\<And>z deps visited. z \<in> S \<Longrightarrow> card (S - set visited) \<le> 0 \<Longrightarrow>
      postorderDepthFirstSearchRec 0 (incomingAdjacencies d) (recordDependsOn idxs x) z
             (deps, visited) = Some (deps, visited)"
  proof -
    fix z :: tvar and deps :: "nat list" and visited
    assume a: "z \<in> S" "card (S - set visited) \<le> 0"
    have "z \<in> set visited"
    proof (rule ccontr)
      assume "z \<notin> set visited"
      with a(1) have "z \<in> S - set visited" by simp
      with fin have "0 < card (S - set visited)" by (auto simp: card_gt_0_iff)
      with a(2) show False by simp
    qed
    then show "postorderDepthFirstSearchRec 0 (incomingAdjacencies d) (recordDependsOn idxs x) z
             (deps, visited) = Some (deps, visited)"
      by (rule postorderDepthFirstSearchRec_visited)
  qed
  {
    case 1
    from rec[OF "1.prems"] show ?case by simp
  next
    case 2
    then show ?case
    proof (induction zs)
      case Nil
      then show ?case by simp
    next
      case (Cons a zs)
      from Cons.prems have "a \<in> S" by simp
      from rec[OF this Cons.prems(2)] Cons.IH Cons.prems show ?case by simp
    qed
  }
next
  case (Suc k)
  have rec: "\<And>z deps visited. z \<in> S \<Longrightarrow> card (S - set visited) \<le> Suc k \<Longrightarrow>
      \<exists>deps' visited'.
           postorderDepthFirstSearchRec (Suc k) (incomingAdjacencies d) (recordDependsOn idxs x) z
             (deps, visited) = Some (deps', visited') \<and> set visited \<subseteq> set visited'"
  proof -
    fix z :: tvar and deps :: "nat list" and visited
    assume zS: "z \<in> S" and c: "card (S - set visited) \<le> Suc k"
    show "\<exists>deps' visited'.
           postorderDepthFirstSearchRec (Suc k) (incomingAdjacencies d) (recordDependsOn idxs x) z
             (deps, visited) = Some (deps', visited') \<and> set visited \<subseteq> set visited'"
    proof (cases "z \<in> set visited")
      case True
      then show ?thesis by (simp add: postorderDepthFirstSearchRec_visited)
    next
      case False
      have c1: "card (S - set (z # visited)) \<le> k"
      proof -
        have "S - set (z # visited) = (S - set visited) - {z}" by auto
        moreover from False zS have "z \<in> S - set visited" by simp
        ultimately have "card (S - set (z # visited)) = card (S - set visited) - 1"
          using fin by (simp add: card_Diff_singleton)
        with c show ?thesis by simp
      qed
      from closed zS have "set (inOf d z) \<subseteq> S" by simp
      from Suc.IH(2)[OF this c1, of deps] obtain deps2 visited2 where
        all: "postorderDepthFirstSearchAll k (incomingAdjacencies d) (recordDependsOn idxs x)
           (inOf d z) (deps, z # visited) = Some (deps2, visited2)"
        and v2: "set (z # visited) \<subseteq> set visited2" by blast
      from known zS have "\<exists>deps3. recordDependsOn idxs x z deps2 = Some deps3"
        by (auto simp: recordDependsOn_def)
      then obtain deps3 where p: "recordDependsOn idxs x z deps2 = Some deps3" ..
      from False all p v2 show ?thesis
        by (simp add: postorderDepthFirstSearchRec_new incomingAdjacencies_inOf)
    qed
  qed
  {
    case 1
    from rec[OF "1.prems"] show ?case .
  next
    case 2
    then show ?case
    proof (induction zs arbitrary: deps visited)
      case Nil
      then show ?case by simp
    next
      case (Cons a zs)
      from Cons.prems have aS: "a \<in> S" and zsS: "set zs \<subseteq> S" by simp_all
      from rec[OF aS Cons.prems(2), of deps] obtain deps1 visited1 where
        r: "postorderDepthFirstSearchRec (Suc k) (incomingAdjacencies d) (recordDependsOn idxs x) a
             (deps, visited) = Some (deps1, visited1)" and v1: "set visited \<subseteq> set visited1"
        by blast
      from v1 have "S - set visited1 \<subseteq> S - set visited" by auto
      with fin have "card (S - set visited1) \<le> card (S - set visited)" by (simp add: card_mono)
      with Cons.prems(2) have c1: "card (S - set visited1) \<le> Suc k" by simp
      from Cons.IH[OF zsS c1, of deps1] obtain deps' visited' where
        "postorderDepthFirstSearchAll (Suc k) (incomingAdjacencies d) (recordDependsOn idxs x) zs
             (deps1, visited1) = Some (deps', visited')" "set visited1 \<subseteq> set visited'"
        by blast
      with r v1 show ?case by auto
    qed
  }
qed

text \<open>In the order in which the one-way components of a component are formed, the
  type variables from which a type variable has incoming edges come first.\<close>

fun producersFirst :: "digraph \<Rightarrow> tvar list \<Rightarrow> tvar list \<Rightarrow> bool" where
  "producersFirst d formed [] = True"
| "producersFirst d formed (z # rest) =
     (z \<notin> set formed \<and> set (inOf d z) \<subseteq> insert z (set formed) \<and>
      producersFirst d (z # formed) rest)"

lemma formOneWayComponents_total:
  "producersFirst d formed todo \<Longrightarrow> dom (map_of idxs) = set formed \<Longrightarrow>
   \<forall>z\<in>set formed. set (inOf d z) \<subseteq> set formed \<Longrightarrow> length (formed @ todo) \<le> fuel \<Longrightarrow>
   \<exists>res. formOneWayComponents fuel d todo (oneWay, idxs) = Some res"
proof (induction todo arbitrary: formed idxs oneWay)
  case Nil
  then show ?case by simp
next
  case (Cons z todo)
  let ?idxs = "idxs @ [(z, length oneWay)]"
  let ?S = "insert z (set formed)"
  from Cons.prems(1) have zf: "z \<notin> set formed" and inz: "set (inOf d z) \<subseteq> ?S"
    and rest: "producersFirst d (z # formed) todo" by simp_all
  from zf Cons.prems(2) have fresh: "map_of idxs z = None" by (auto simp: dom_def)
  have closed: "\<forall>y\<in>?S. set (inOf d y) \<subseteq> ?S" using inz Cons.prems(3) by auto
  have known: "\<forall>y\<in>?S. y = z \<or> map_of ?idxs y \<noteq> None"
    using Cons.prems(2) by (auto simp: map_of_snoc dom_def split: option.splits)
  have "card ?S \<le> length (z # formed)"
    by (metis card_length list.simps(15))
  with Cons.prems(4) have c: "card (?S - set []) \<le> fuel" by simp
  from incomingSearch(1)[OF closed known _ _ c, of z "[]"] obtain deps visited where
    s: "postorderDepthFirstSearchRec fuel (incomingAdjacencies d) (recordDependsOn ?idxs z) z
          ([], []) = Some (deps, visited)" by auto
  have d': "dom (map_of ?idxs) = set (z # formed)"
    using Cons.prems(2) by (auto simp: map_of_snoc dom_def split: option.splits)
  have c': "\<forall>y\<in>set (z # formed). set (inOf d y) \<subseteq> set (z # formed)"
    using closed by simp
  from Cons.prems(4) have l': "length ((z # formed) @ todo) \<le> fuel" by simp
  from Cons.IH[OF rest d' c' l'] fresh s show ?case by (simp add: Let_def)
qed

lemma position_middle: "a \<notin> set A \<Longrightarrow> position (A @ a # B) a = length A"
  unfolding position_def by (induction A) auto

lemma producersFirst_filter:
  "distinct (A @ B) \<Longrightarrow>
   \<forall>z\<in>set (A @ B). f z \<longrightarrow>
      (\<forall>y\<in>set (inOf d z). y \<in> set (A @ B) \<and> f y \<and> position (A @ B) z < position (A @ B) y) \<Longrightarrow>
   producersFirst d (filter f B) (rev (filter f A))"
proof (induction A arbitrary: B rule: rev_induct)
  case Nil
  show ?case by simp
next
  case (snoc a A)
  have same: "(A @ [a]) @ B = A @ (a # B)" by simp
  from snoc.prems(1) have dist: "distinct (A @ (a # B))" by (simp only: same)
  from snoc.prems(2) have p: "\<forall>z\<in>set (A @ a # B). f z \<longrightarrow>
      (\<forall>y\<in>set (inOf d z). y \<in> set (A @ a # B) \<and> f y \<and>
         position (A @ a # B) z < position (A @ a # B) y)"
    by (simp only: same)
  have ih: "producersFirst d (filter f (a # B)) (rev (filter f A))"
    by (rule snoc.IH[OF dist p])
  show ?case
  proof (cases "f a")
    case False
    with ih show ?thesis by simp
  next
    case True
    from dist have aA: "a \<notin> set A" and aB: "a \<notin> set B" by auto
    note pa = position_middle[OF aA, of B]
    have ain: "a \<in> set (A @ a # B)" by simp
    from p[rule_format, OF ain True]
    have pa': "\<And>y. y \<in> set (inOf d a) \<Longrightarrow> y \<in> set (A @ a # B) \<and> f y \<and>
         position (A @ a # B) a < position (A @ a # B) y" by blast
    have sub: "set (inOf d a) \<subseteq> insert a (set (filter f B))"
    proof
      fix y assume y: "y \<in> set (inOf d a)"
      from pa'[OF y] have yin: "y \<in> set (A @ a # B)" and fy: "f y"
        and lt: "position (A @ a # B) a < position (A @ a # B) y" by blast+
      have "y \<notin> set A"
      proof
        assume yA: "y \<in> set A"
        from position_append[OF yA, of "a # B"] position_less[OF yA] lt pa
        show False by simp
      qed
      with yin fy show "y \<in> insert a (set (filter f B))" by auto
    qed
    from aB have nf: "a \<notin> set (filter f B)" by simp
    from True have e1: "rev (filter f (A @ [a])) = a # rev (filter f A)" by simp
    from True have e2: "filter f (a # B) = a # filter f B" by simp
    show ?thesis unfolding e1 using nf sub ih[unfolded e2] by simp
  qed
qed

lemma populateComponents_total:
  "length orders = length cmps \<Longrightarrow>
   \<forall>L\<in>set orders. \<forall>oneWay. \<exists>res. formOneWayComponents fuel d (rev L) (oneWay, []) = Some res \<Longrightarrow>
   \<exists>cmps'. populateComponents fuel d orders cmps = Some cmps'"
proof (induction fuel d orders cmps rule: populateComponents.induct)
  case (1 fuel d cmps)
  then show ?case by simp
next
  case (2 fuel d dependencyOrder orders)
  then show ?case by simp
next
  case (3 fuel d dependencyOrder orders component cmps)
  from "3.prems"(2) obtain res where
    f: "formOneWayComponents fuel d (rev dependencyOrder) (oneWayComponents component, [])
          = Some res" by fastforce
  obtain oneWay idxs where res: "res = (oneWay, idxs)" by (cases res)
  define component' where "component' =
    (if dependencyOrder = [] then component else component\<lparr>oneWayComponents := oneWay\<rparr>)"
  have c: "(if dependencyOrder = [] then Some component
            else map_option (\<lambda>(oneWay, idxs). component\<lparr>oneWayComponents := oneWay\<rparr>)
                   (formOneWayComponents fuel d (rev dependencyOrder)
                      (oneWayComponents component, []))) = Some component'"
    using f res by (simp add: component'_def)
  from "3.prems" have "\<exists>cmps'. populateComponents fuel d orders cmps = Some cmps'"
    by (intro "3.IH"[OF c]) simp_all
  with c show ?case by auto
qed

lemma ordersOf_Nil: "ordersOf idxMap d m n [] = replicate n []"
  by (simp add: ordersOf_def map_replicate_const)

lemma searched_subset: "set (searched idxMap d m x) \<subseteq> set (outOf d x)"
  by (cases "componentOf idxMap m x") (simp_all add: searched_def)

lemma outOf_key: "y \<in> set (outOf d x) \<Longrightarrow> map_of d x \<noteq> None"
  by (cases "map_of d x") (simp_all add: outOf_def)

text \<open>
  \<^verbatim>\<open>populateOneWayComponentDependencies\<close> returns, that is, the assertion that a
  type variable on which a one-way component depends has a subcomponent index holds,
  when: the links of the representatives go down; the fuel exceeds the IDs; the type
  variables of the digraph are among those given; an edge goes to a type variable of
  the digraph and is recorded at both ends; the digraph has no cycle (\<open>rank\<close>
  decreases along every edge); the two ends of an edge are in the same component; and
  the component indices are those of components.
\<close>

lemma populateOneWayComponentDependencies_total:
  fixes rank :: "tvar \<Rightarrow> nat"
  assumes pb: "parentsBelow m"
    and fuelN: "\<forall>x\<in>set typeVars. x < fuel"
    and keys: "\<forall>x. map_of d x \<noteq> None \<longrightarrow> x \<in> set typeVars"
    and adjKeys: "\<forall>x y. y \<in> set (outOf d x) \<longrightarrow> map_of d y \<noteq> None"
    and sym: "\<forall>x y. y \<in> set (inOf d x) \<longrightarrow> x \<in> set (outOf d y)"
    and acyc: "\<forall>x y. y \<in> set (outOf d x) \<longrightarrow> rank y < rank x"
    and comp: "\<forall>x y. y \<in> set (outOf d x) \<longrightarrow>
        componentOf idxMap m y = componentOf idxMap m x"
    and bound: "\<forall>rep i. map_of idxMap rep = Some i \<longrightarrow> i < length cmps"
  shows "\<exists>res. populateOneWayComponentDependencies fuel typeVars d idxMap cmps m = Some res"
proof -
  define N where "N = set typeVars"
  define n where "n = length cmps"
  have fin: "finite N" by (simp add: N_def)
  have fuelF: "\<forall>x\<in>N. x \<le> fuel" using fuelN by (auto simp: N_def)
  have closed: "\<forall>x\<in>N. set (searched idxMap d m x) \<subseteq> N"
    using searched_subset adjKeys keys unfolding N_def by blast
  have acyc': "\<forall>x y. y \<in> set (searched idxMap d m x) \<longrightarrow> rank y < rank x"
    using searched_subset acyc by blast
  have bound': "\<forall>rep i. map_of idxMap rep = Some i \<longrightarrow> i < n"
    using bound by (simp add: n_def)
  have s0: "searchState idxMap d m n N [] [] (m, replicate n [])"
    using pb by (simp add: searchState_def ordersOf_Nil)
  have "N \<subseteq> {..<fuel}" using fuelN by (auto simp: N_def)
  then have "card N \<le> card {..<fuel}" by (intro card_mono) simp_all
  then have c0: "card (N - set []) \<le> fuel" by simp
  have sub0: "set typeVars \<subseteq> N" by (simp add: N_def)
  from outgoingSearch(2)[OF fuelF closed acyc' bound' fin s0 sub0 c0]
  obtain st' visited' P where
    all: "postorderDepthFirstSearchAll fuel (outgoingAdjacencies fuel idxMap d)
             (recordDependencyOrder fuel idxMap d) typeVars ((m, replicate n []), [])
           = Some (st', visited')"
    and s': "searchState idxMap d m n N visited' ([] @ P) st'"
    and vP: "set typeVars \<subseteq> set ([] @ P)"
    by auto
  obtain m' orders where st': "st' = (m', orders)" by (cases st')
  from s' st' have o: "orders = ordersOf idxMap d m n P" and dist: "distinct P"
    and PV: "set P \<subseteq> set visited'" and VN: "set visited' \<subseteq> N"
    and tp: "\<forall>z\<in>set P. \<forall>y\<in>set (searched idxMap d m z).
        y \<in> set P \<and> position P y < position P z"
    by (simp_all add: searchState_def)
  from vP have VP: "set typeVars \<subseteq> set P" by simp
  have lenP: "length P \<le> fuel"
  proof -
    from dist have "length P = card (set P)" by (simp add: distinct_card)
    also from PV VN \<open>N \<subseteq> {..<fuel}\<close> have "\<dots> \<le> card {..<fuel}"
      by (intro card_mono) auto
    finally show ?thesis by simp
  qed
  have form: "\<forall>L\<in>set orders. \<forall>oneWay.
      \<exists>res. formOneWayComponents fuel d (rev L) (oneWay, []) = Some res"
  proof (intro ballI allI)
    fix L oneWay assume "L \<in> set orders"
    with o obtain i where L: "L = filter (recorded idxMap d m i) P"
      by (auto simp: ordersOf_def)
    have star: "\<forall>z\<in>set (P @ []). recorded idxMap d m i z \<longrightarrow>
        (\<forall>y\<in>set (inOf d z). y \<in> set (P @ []) \<and> recorded idxMap d m i y \<and>
           position (P @ []) z < position (P @ []) y)"
    proof (intro ballI impI)
      fix z y assume z: "z \<in> set (P @ [])" and rz: "recorded idxMap d m i z"
        and y: "y \<in> set (inOf d z)"
      from sym y have zy: "z \<in> set (outOf d y)" by simp
      then have ky: "map_of d y \<noteq> None" by (rule outOf_key)
      with keys VP have yP: "y \<in> set P" by auto
      from comp zy rz have cy: "componentOf idxMap m y = Some i"
        by (simp add: recorded_def)
      with zy have "z \<in> set (searched idxMap d m y)" by (simp add: searched_def)
      with tp yP have "position P z < position P y" by auto
      with yP ky cy show "y \<in> set (P @ []) \<and> recorded idxMap d m i y \<and>
           position (P @ []) z < position (P @ []) y"
        by (simp add: recorded_def)
    qed
    have d0: "distinct (P @ [])" using dist by simp
    from producersFirst_filter[OF d0 star]
    have pf: "producersFirst d [] (rev L)" by (simp add: L)
    have "length ([] @ rev L) \<le> fuel" using lenP L
      by (simp add: le_trans[OF length_filter_le])
    from formOneWayComponents_total[OF pf _ _ this, of "[]" oneWay]
    show "\<exists>res. formOneWayComponents fuel d (rev L) (oneWay, []) = Some res" by simp
  qed
  have "length orders = length cmps" using o by (simp add: ordersOf_def n_def)
  from populateComponents_total[OF this form] obtain cmps' where
    "populateComponents fuel d orders cmps = Some cmps'" ..
  with all st' show ?thesis
    by (simp add: populateOneWayComponentDependencies_def n_def)
qed

text \<open>More fuel changes no result of \<^verbatim>\<open>findRepresentative\<close>; so every result is the
  root, also when the fuel is less than the ID.\<close>

lemma findRepresentative_more_fuel:
  "findRepresentative fuel m x = Some res \<Longrightarrow> findRepresentative (fuel + k) m x = Some res"
proof (induction fuel arbitrary: x res)
  case 0
  then show ?case
    by (cases "m x"; cases k) (simp_all add: findRepresentative.simps)
next
  case (Suc fuel)
  show ?case
  proof (cases "m x")
    case None
    with Suc.prems show ?thesis by (simp add: findRepresentative.simps)
  next
    case (Some p)
    with Suc.prems obtain res1 where r: "findRepresentative fuel m p = Some res1"
      by (auto simp: findRepresentative.simps split: option.splits)
    from Suc.IH[OF r] r Suc.prems Some show ?thesis
      by (simp add: findRepresentative.simps)
  qed
qed

lemma findRepresentative_result:
  assumes pb: "parentsBelow m" and f: "findRepresentative fuel m x = Some (r, m')"
  shows "r = rootOf m x" and "parentsBelow m'" and "rootOf m' y = rootOf m y"
proof -
  from findRepresentative_more_fuel[OF f, of x]
  have "findRepresentative (fuel + x) m x = Some (r, m')" .
  moreover from findRepresentative_root[OF pb, of x "fuel + x"] obtain m'' where
    "findRepresentative (fuel + x) m x = Some (rootOf m x, m'')" "parentsBelow m''"
    "\<forall>y. rootOf m'' y = rootOf m y" by auto
  ultimately show "r = rootOf m x" and "parentsBelow m'" and "rootOf m' y = rootOf m y"
    by simp_all
qed

text \<open>The links stay below through every phase of \<^verbatim>\<open>ConnectedComponents\<close>: a union
  links the greater of two roots to the lesser.\<close>

lemma unionSets_parentsBelow:
  assumes pb: "parentsBelow m" and u: "unionSets fuel a b m = Some (unioned, m')"
  shows "parentsBelow m'"
proof -
  from u obtain r1 m1 r2 m2 where
    f1: "findRepresentative fuel m a = Some (r1, m1)" and
    f2: "findRepresentative fuel m1 b = Some (r2, m2)" and
    m': "m' = (if r1 = r2 then m2 else if r1 < r2 then m2(r2 \<mapsto> r1) else m2(r1 \<mapsto> r2))"
    by (auto simp: unionSets_def split: option.splits if_splits)
  from findRepresentative_result(2)[OF pb f1] have pb1: "parentsBelow m1" .
  from findRepresentative_result(2)[OF pb1 f2] have pb2: "parentsBelow m2" .
  then show ?thesis unfolding m' by (auto simp: parentsBelow_def)
qed

lemma unionWithAll_parentsBelow:
  "parentsBelow m \<Longrightarrow> unionWithAll fuel a bs (u, m) = Some (u', m') \<Longrightarrow> parentsBelow m'"
proof (induction bs arbitrary: u m)
  case Nil
  then show ?case by simp
next
  case (Cons b bs)
  from Cons.prems(2) obtain u1 m1 where
    s: "unionSets fuel a b m = Some (u1, m1)" and
    r: "unionWithAll fuel a bs (u \<or> u1, m1) = Some (u', m')"
    by (auto split: option.splits)
  from Cons.IH[OF unionSets_parentsBelow[OF Cons.prems(1) s] r] show ?case .
qed

lemma unionSetsViaConstraint_parentsBelow:
  "parentsBelow m \<Longrightarrow> unionSetsViaConstraint fuel c m = Some (u', m') \<Longrightarrow> parentsBelow m'"
  by (auto simp: unionSetsViaConstraint_def Let_def split: if_splits
      dest: unionWithAll_parentsBelow)

lemma unionNodeConstraints_parentsBelow:
  "unionNodeConstraints fuel cs' (m, vis, ow) = Some (m', vis', ow') \<Longrightarrow> parentsBelow m \<Longrightarrow>
   parentsBelow m'"
proof (induction cs' arbitrary: m vis ow)
  case Nil
  then show ?case by simp
next
  case (Cons c rest)
  show ?case
  proof (cases "c \<in> set vis \<or> isOneWay c")
    case True
    with Cons.prems(1) obtain vis1 ow1 where
      "unionNodeConstraints fuel rest (m, vis1, ow1) = Some (m', vis', ow')"
      by (auto split: if_splits)
    from Cons.IH[OF this Cons.prems(2)] show ?thesis .
  next
    case False
    with Cons.prems(1) obtain u m1 where
      s: "unionSetsViaConstraint fuel c m = Some (u, m1)" and
      r: "unionNodeConstraints fuel rest (m1, c # vis, ow) = Some (m', vis', ow')"
      by (auto split: option.splits)
    from Cons.IH[OF r unionSetsViaConstraint_parentsBelow[OF Cons.prems(2) s]] show ?thesis .
  qed
qed

lemma getEquivalenceClass_nodes:
  assumes "getEquivalenceClass cs tv g = Some (g', equivs)"
  shows "dom (graphNode g') = dom (graphNode g)" and "graphOK g \<Longrightarrow> graphOK g'"
proof -
  from assms obtain n where n: "graphNode g tv = Some n"
    and g': "g' = setNode tv (materialize n) g"
    by (auto simp: getEquivalenceClass_def split: option.splits if_splits)
  from n show "dom (graphNode g') = dom (graphNode g)"
    by (auto simp: g' setNode_def)
  assume "graphOK g"
  with n show "graphOK g'" by (auto simp: g' setNode_def graphOK_def)
qed

text \<open>The loop of \<^verbatim>\<open>connectedComponents\<close> keeps the graph well formed and leaves a node
  for every type variable it was given.\<close>

lemma connectedComponentsLoop_result:
  "connectedComponentsLoop fuel cs tvs (g, m, vis, ow) = Some (g', m', vis', ow') \<Longrightarrow>
   (parentsBelow m \<longrightarrow> parentsBelow m') \<and> (graphOK g \<longrightarrow> graphOK g') \<and>
   dom (graphNode g) \<subseteq> dom (graphNode g') \<and> set tvs \<subseteq> dom (graphNode g')"
proof (induction tvs arbitrary: g m vis ow)
  case Nil
  then show ?case by simp
next
  case (Cons tv tvs)
  from Cons.prems obtain g1 g2 equivs u1 m1 g3 u2 m2 m3 vis3 ow3 where
    l1: "lookupNode fuel cs (getRepresentative cs tv) g = Some g1" and
    e: "getEquivalenceClass cs (getRepresentative cs tv) g1 = Some (g2, equivs)" and
    w1: "unionWithAll fuel tv equivs (False, m) = Some (u1, m1)" and
    l2: "lookupNode fuel cs tv g2 = Some g3" and
    w2: "unionWithAll fuel tv (fixedBindingsOf g3 tv) (False, m1) = Some (u2, m2)" and
    n: "unionNodeConstraints fuel (constraintsOf g3 tv) (m2, vis, ow) = Some (m3, vis3, ow3)" and
    r: "connectedComponentsLoop fuel cs tvs (g3, m3, vis3, ow3) = Some (g', m', vis', ow')"
    by (auto simp: Let_def split: option.splits)
  note ih = Cons.IH[OF r]
  have pb: "parentsBelow m \<longrightarrow> parentsBelow m'"
  proof
    assume "parentsBelow m"
    from unionWithAll_parentsBelow[OF this w1] have "parentsBelow m1" .
    from unionWithAll_parentsBelow[OF this w2] have "parentsBelow m2" .
    from unionNodeConstraints_parentsBelow[OF n this] ih show "parentsBelow m'" by simp
  qed
  have ok: "graphOK g \<longrightarrow> graphOK g'"
    using graphOK_ops(1)[OF l1] getEquivalenceClass_nodes(2)[OF e] graphOK_ops(1)[OF l2] ih
    by blast
  have d1: "dom (graphNode g) \<subseteq> dom (graphNode g1)"
    using opFrame_ops(1)[OF l1] by (simp add: opFrame_def)
  have d2: "dom (graphNode g2) \<subseteq> dom (graphNode g3)"
    using opFrame_ops(1)[OF l2] by (simp add: opFrame_def)
  from d1 d2 getEquivalenceClass_nodes(1)[OF e] ih
  have d: "dom (graphNode g) \<subseteq> dom (graphNode g')" by blast
  from graphOK_ops(1)[OF l2] have "tv \<in> dom (graphNode g3)" by simp
  with ih have "set (tv # tvs) \<subseteq> dom (graphNode g')" by auto
  with pb ok d show ?case by blast
qed

lemma getRepresentativesInType_parentsBelow:
  "getRepresentativesInType fuel tvs (res, m) = Some (res', m') \<Longrightarrow> parentsBelow m \<Longrightarrow>
   parentsBelow m'"
proof (induction tvs arbitrary: res m)
  case Nil
  then show ?case by simp
next
  case (Cons tv tvs)
  from Cons.prems(1) obtain rep m1 where
    f: "findRepresentative fuel m tv = Some (rep, m1)" and
    r: "getRepresentativesInType fuel tvs (insertIfUnique res rep, m1) = Some (res', m')"
    by (auto split: option.splits)
  from Cons.IH[OF r findRepresentative_result(2)[OF Cons.prems(2) f]] show ?case .
qed

text \<open>The digraph of the one-way constraints: an entry after \<open>modifyEntry\<close>, and the
  adjacencies after \<^verbatim>\<open>addEdge\<close>.\<close>

lemma map_of_modifyEntry:
  "map_of (modifyEntry tv f d) x =
     (if x = tv then Some (f (case map_of d tv of None \<Rightarrow> emptyRawOneWayComponent | Some v \<Rightarrow> v))
      else map_of d x)"
proof (cases "map_of d tv")
  case None
  then show ?thesis by (auto simp: modifyEntry_def map_add_def split: option.splits)
next
  case (Some v)
  have "map_of (map (\<lambda>(k, v). if k = tv then (k, f v) else (k, v)) d) x =
      (if x = tv then map_option f (map_of d tv) else map_of d x)"
    by (induction d) auto
  with Some show ?thesis by (simp add: modifyEntry_def)
qed

lemma outOf_addEdge:
  "outOf (addEdge l r d) x = (if x = r then insertIfUnique (outOf d r) l else outOf d x)"
  by (simp add: outOf_def addEdge_def map_of_modifyEntry emptyRawOneWayComponent_def
      split: option.splits)

lemma inOf_addEdge:
  "inOf (addEdge l r d) x = (if x = l then insertIfUnique (inOf d l) r else inOf d x)"
  by (simp add: inOf_def addEdge_def map_of_modifyEntry emptyRawOneWayComponent_def
      split: option.splits)

lemma set_insertIfUnique [simp]: "set (insertIfUnique xs x) = insert x (set xs)"
  by (auto simp: insertIfUnique_def)

text \<open>Every edge is recorded at both of its ends.\<close>

definition edgesPaired :: "digraph \<Rightarrow> bool" where
  "edgesPaired d \<longleftrightarrow> (\<forall>x y. y \<in> set (outOf d x) \<longleftrightarrow> x \<in> set (inOf d y))"

lemma edgesPaired_Nil [simp]: "edgesPaired []"
  by (simp add: edgesPaired_def outOf_def inOf_def)

lemma edgesPaired_addEdge: "edgesPaired d \<Longrightarrow> edgesPaired (addEdge l r d)"
  by (auto simp: edgesPaired_def outOf_addEdge inOf_addEdge)

lemma edgesPaired_fold_inner: "edgesPaired d \<Longrightarrow> edgesPaired (fold (addEdge l) rs d)"
  by (induction rs arbitrary: d) (simp_all add: edgesPaired_addEdge)

lemma edgesPaired_fold:
  "edgesPaired d \<Longrightarrow> edgesPaired (fold (\<lambda>l d'. fold (addEdge l) rs d') ls d)"
  by (induction ls arbitrary: d) (simp_all add: edgesPaired_fold_inner)

lemma addOneWayEdges_result:
  "addOneWayEdges fuel cs' (d, m) = Some (d', m') \<Longrightarrow>
   (parentsBelow m \<longrightarrow> parentsBelow m') \<and> (edgesPaired d \<longrightarrow> edgesPaired d')"
proof (induction cs' arbitrary: d m)
  case Nil
  then show ?case by simp
next
  case (Cons c rest)
  from Cons.prems obtain ls m1 rs m2 where
    l: "getRepresentativesInType fuel (getTypeVariables (getFirstType c)) ([], m) = Some (ls, m1)"
    and r: "getRepresentativesInType fuel (getTypeVariables (getSecondType c)) ([], m1)
              = Some (rs, m2)"
    and rest: "addOneWayEdges fuel rest
        (fold (\<lambda>lhsTypeRep d'. fold (addEdge lhsTypeRep) rs d') ls d, m2) = Some (d', m')"
    by (auto split: option.splits)
  from Cons.IH[OF rest] getRepresentativesInType_parentsBelow[OF l]
    getRepresentativesInType_parentsBelow[OF r] edgesPaired_fold[of d rs ls]
  show ?case by blast
qed

lemma placeTypeVars_result:
  "placeTypeVars fuel tvs (d, m) = Some (d', m') \<Longrightarrow>
   (parentsBelow m \<longrightarrow> parentsBelow m') \<and> (edgesPaired d \<longrightarrow> edgesPaired d')"
proof (induction tvs arbitrary: d m)
  case Nil
  then show ?case by simp
next
  case (Cons tv tvs)
  from Cons.prems obtain rep m1 where
    f: "findRepresentative fuel m tv = Some (rep, m1)" and
    r: "placeTypeVars fuel tvs
          (case map_of d rep of None \<Rightarrow> d
           | Some _ \<Rightarrow> modifyEntry rep (\<lambda>r. r\<lparr>rawTypeVars := rawTypeVars r @ [tv]\<rparr>) d, m1)
        = Some (d', m')"
    by (auto split: option.splits)
  let ?d = "case map_of d rep of None \<Rightarrow> d
           | Some _ \<Rightarrow> modifyEntry rep (\<lambda>r. r\<lparr>rawTypeVars := rawTypeVars r @ [tv]\<rparr>) d"
  have o: "outOf ?d = outOf d" and i: "inOf ?d = inOf d"
    by (auto simp: fun_eq_iff outOf_def inOf_def map_of_modifyEntry split: option.splits)
  then have "edgesPaired ?d = edgesPaired d" by (simp add: edgesPaired_def)
  with Cons.IH[OF r] findRepresentative_result(2)[OF _ f] show ?case by blast
qed

lemma unionOneWayConstraints_parentsBelow:
  "unionOneWayConstraints fuel cs' m = Some m' \<Longrightarrow> parentsBelow m \<Longrightarrow> parentsBelow m'"
proof (induction cs' arbitrary: m)
  case Nil
  then show ?case by simp
next
  case (Cons c rest)
  from Cons.prems(1) obtain u m1 where
    s: "unionSetsViaConstraint fuel c m = Some (u, m1)" and
    r: "unionOneWayConstraints fuel rest m1 = Some m'"
    by (auto split: option.splits)
  from Cons.IH[OF r unionSetsViaConstraint_parentsBelow[OF Cons.prems(2) s]] show ?case .
qed

text \<open>What \<^verbatim>\<open>ConnectedComponents\<close> returns: links that go down, a digraph whose edges
  are recorded at both ends, and a well-formed graph with a node for every type
  variable given.\<close>

lemma ConnectedComponents_result:
  assumes "ConnectedComponents fuel cs typeVars g = Some (g1, m, d)"
  shows "parentsBelow m" and "edgesPaired d" and "graphOK g \<Longrightarrow> graphOK g1"
    and "set typeVars \<subseteq> dom (graphNode g1)"
proof -
  from assms obtain m0 vis ow where
    l: "connectedComponentsLoop fuel cs typeVars (g, Map.empty, [], []) = Some (g1, m0, vis, ow)"
    and rest: "(if ow = [] then Some (g1, m0, [])
          else case buildOneWayConstraintGraph fuel typeVars ow m0 of
              None \<Rightarrow> None
            | Some (d, representatives1) \<Rightarrow>
                (case unionOneWayConstraints fuel ow representatives1 of
                   None \<Rightarrow> None
                 | Some representatives2 \<Rightarrow> Some (g1, representatives2, d))) = Some (g1, m, d)"
    by (auto simp: ConnectedComponents_def split: option.splits if_splits)
  have e: "parentsBelow Map.empty" by (simp add: parentsBelow_def)
  from connectedComponentsLoop_result[OF l] e have pb0: "parentsBelow m0"
    and ok: "graphOK g \<longrightarrow> graphOK g1" and n: "set typeVars \<subseteq> dom (graphNode g1)"
    by simp_all
  from ok show "graphOK g \<Longrightarrow> graphOK g1" by simp
  from n show "set typeVars \<subseteq> dom (graphNode g1)" .
  show "parentsBelow m" and "edgesPaired d"
  proof -
    have "parentsBelow m \<and> edgesPaired d"
    proof (cases "ow = []")
      case True
      with rest pb0 show ?thesis by simp
    next
      case False
      with rest obtain d0 m1 m2 where
        a: "addOneWayEdges fuel ow ([], m0) = Some (d0, m1)" and
        p: "placeTypeVars fuel typeVars (d0, m1) = Some (d, m2)" and
        u: "unionOneWayConstraints fuel ow m2 = Some m"
        by (auto simp: buildOneWayConstraintGraph_def split: option.splits)
      from addOneWayEdges_result[OF a] pb0 have "parentsBelow m1" "edgesPaired d0" by simp_all
      with placeTypeVars_result[OF p] have "parentsBelow m2" "edgesPaired d" by simp_all
      with unionOneWayConstraints_parentsBelow[OF u] show ?thesis by simp
    qed
    then show "parentsBelow m" and "edgesPaired d" by simp_all
  qed
qed

lemma inOf_key: "y \<in> set (inOf d x) \<Longrightarrow> map_of d x \<noteq> None"
  by (cases "map_of d x") (simp_all add: inOf_def)

text \<open>The first loop of \<^verbatim>\<open>getComponents\<close> only finds representatives: it returns when
  the fuel is at least the IDs, and changes no root.\<close>

lemma componentsWithUnbound_total:
  "parentsBelow m \<Longrightarrow> \<forall>x\<in>set tvs. x \<le> fuel \<Longrightarrow>
   \<exists>unbound m'. componentsWithUnbound fuel cs tvs (u, m) = Some (unbound, m') \<and>
      parentsBelow m' \<and> (\<forall>y. rootOf m' y = rootOf m y)"
proof (induction tvs arbitrary: u m)
  case Nil
  then show ?case by simp
next
  case (Cons tv tvs)
  show ?case
  proof (cases "getFixedType cs tv \<noteq> None")
    case True
    with Cons.IH[OF Cons.prems(1), of u] Cons.prems(2) show ?thesis by simp
  next
    case False
    from Cons.prems(2) have "tv \<le> fuel" by simp
    from findRepresentative_root[OF Cons.prems(1) this] obtain m1 where
      f: "findRepresentative fuel m tv = Some (rootOf m tv, m1)" and pb1: "parentsBelow m1"
      and r1: "\<forall>y. rootOf m1 y = rootOf m y" by blast
    from Cons.IH[OF pb1, of "List.insert (rootOf m tv) u"] Cons.prems(2) obtain unbound m' where
      "componentsWithUnbound fuel cs tvs (List.insert (rootOf m tv) u, m1) = Some (unbound, m')"
      "parentsBelow m'" "\<forall>y. rootOf m' y = rootOf m1 y" by auto
    with False f r1 show ?thesis by simp
  qed
qed

text \<open>The state of the second loop of \<^verbatim>\<open>getComponents\<close>: every index of
  \<^verbatim>\<open>componentIdxMap\<close> is the index of a component.\<close>

definition assignmentOK :: "Assignment \<Rightarrow> bool" where
  "assignmentOK a \<longleftrightarrow>
     parentsBelow (asRepresentatives a) \<and> graphOK (asGraph a) \<and>
     length (componentIdxMap a) = length (components a) \<and>
     (\<forall>rep i. map_of (componentIdxMap a) rep = Some i \<longrightarrow> i < length (components a))"

lemma allocateComponent_OK:
  assumes ok: "assignmentOK a"
  shows "assignmentOK (allocateComponent rep a)"
    and "\<exists>i. map_of (componentIdxMap (allocateComponent rep a)) rep = Some i"
    and "asGraph (allocateComponent rep a) = asGraph a"
    and "asRepresentatives (allocateComponent rep a) = asRepresentatives a"
proof -
  show "assignmentOK (allocateComponent rep a)"
  proof (cases "map_of (componentIdxMap a) rep")
    case None
    with ok show ?thesis
      by (auto simp: assignmentOK_def allocateComponent_def map_of_snoc less_Suc_eq
          split: option.splits if_splits)
  next
    case (Some i)
    with ok show ?thesis by (simp add: allocateComponent_def)
  qed
  show "\<exists>i. map_of (componentIdxMap (allocateComponent rep a)) rep = Some i"
    by (cases "map_of (componentIdxMap a) rep") (simp_all add: allocateComponent_def map_add_def)
  show "asGraph (allocateComponent rep a) = asGraph a"
    and "asRepresentatives (allocateComponent rep a) = asRepresentatives a"
    by (simp_all add: allocateComponent_def split: option.splits)
qed

lemma recordTypeVar_total:
  assumes ok: "assignmentOK a" and n: "graphNode (asGraph a) tv \<noteq> None"
    and i: "map_of (componentIdxMap a) rep = Some idx"
  shows "\<exists>a'. recordTypeVar fuel cs tv idx a = Some a' \<and> assignmentOK a' \<and>
     asGraph a' = asGraph a \<and> asRepresentatives a' = asRepresentatives a"
proof -
  from ok i have idx: "idx < length (components a)" by (simp add: assignmentOK_def)
  from ok have "graphOK (asGraph a)" by (simp add: assignmentOK_def)
  from lookupNode_existing_total[OF this n]
  have l: "lookupNode fuel cs tv (asGraph a) = Some (asGraph a)" .
  from idx l ok show ?thesis
    by (simp add: recordTypeVar_def Let_def assignmentOK_def)
qed

lemma assignComponents_total:
  "assignmentOK a \<Longrightarrow> set tvs \<subseteq> dom (graphNode (asGraph a)) \<Longrightarrow> \<forall>x\<in>set tvs. x \<le> fuel \<Longrightarrow>
   \<exists>a'. assignComponents fuel cs unbound tvs a = Some a' \<and> assignmentOK a' \<and>
      asGraph a' = asGraph a \<and>
      (\<forall>y. rootOf (asRepresentatives a') y = rootOf (asRepresentatives a) y)"
proof (induction tvs arbitrary: a)
  case Nil
  then show ?case by simp
next
  case (Cons tv tvs)
  let ?m = "asRepresentatives a"
  from Cons.prems(1) have pb: "parentsBelow ?m" by (simp add: assignmentOK_def)
  from Cons.prems(3) have "tv \<le> fuel" by simp
  from findRepresentative_root[OF pb this] obtain m1 where
    f: "findRepresentative fuel ?m tv = Some (rootOf ?m tv, m1)" and pb1: "parentsBelow m1"
    and r1: "\<forall>y. rootOf m1 y = rootOf ?m y" by blast
  let ?a0 = "a\<lparr>asRepresentatives := m1\<rparr>"
  from Cons.prems(1) pb1 have ok0: "assignmentOK ?a0" by (simp add: assignmentOK_def)
  from Cons.prems(3) have fl: "\<forall>x\<in>set tvs. x \<le> fuel" by simp
  show ?case
  proof (cases "rootOf ?m tv \<in> set unbound")
    case False
    from Cons.IH[OF ok0 _ fl] Cons.prems(2) obtain a' where
      "assignComponents fuel cs unbound tvs ?a0 = Some a'" "assignmentOK a'"
      "asGraph a' = asGraph ?a0"
      "\<forall>y. rootOf (asRepresentatives a') y = rootOf (asRepresentatives ?a0) y"
      by auto
    with False f r1 show ?thesis by simp
  next
    case True
    let ?a1 = "allocateComponent (rootOf ?m tv) ?a0"
    note al = allocateComponent_OK[OF ok0, of "rootOf ?m tv"]
    from al(2) obtain idx where idx: "map_of (componentIdxMap ?a1) (rootOf ?m tv) = Some idx" ..
    from Cons.prems(2) al(3) have n1: "graphNode (asGraph ?a1) tv \<noteq> None" by auto
    from recordTypeVar_total[OF al(1) n1 idx] obtain a2 where
      rt: "recordTypeVar fuel cs tv idx ?a1 = Some a2" and ok2: "assignmentOK a2"
      and g2: "asGraph a2 = asGraph ?a1" and m2: "asRepresentatives a2 = asRepresentatives ?a1"
      by blast
    from g2 al(3) Cons.prems(2) have d2: "set tvs \<subseteq> dom (graphNode (asGraph a2))" by simp
    from Cons.IH[OF ok2 d2 fl] obtain a' where
      r: "assignComponents fuel cs unbound tvs a2 = Some a'" and ok': "assignmentOK a'"
      and g': "asGraph a' = asGraph a2"
      and m': "\<forall>y. rootOf (asRepresentatives a') y = rootOf (asRepresentatives a2) y"
      by blast
    from m' m2 al(4) r1 have "\<forall>y. rootOf (asRepresentatives a') y = rootOf ?m y" by simp
    moreover from g' g2 al(3) have "asGraph a' = asGraph a" by simp
    moreover from True f idx rt r
    have "assignComponents fuel cs unbound (tv # tvs) a = Some a'" by (simp add: Let_def)
    ultimately show ?thesis using ok' by blast
  qed
qed

text \<open>
  \<^verbatim>\<open>getComponents\<close> returns for what \<^verbatim>\<open>ConnectedComponents\<close> built when the type variables
  of the digraph are among those given, the digraph has no cycle (\<open>rank\<close> decreases
  along every edge) and the two ends of each edge have the same representative.
\<close>

lemma getComponents_total:
  fixes rank :: "tvar \<Rightarrow> nat"
  assumes pb: "parentsBelow m" and ep: "edgesPaired d" and ok: "graphOK g1"
    and nodes: "set typeVars \<subseteq> dom (graphNode g1)"
    and fuelN: "\<forall>x\<in>set typeVars. x < fuel"
    and keys: "\<forall>x. map_of d x \<noteq> None \<longrightarrow> x \<in> set typeVars"
    and edges: "\<forall>x y. y \<in> set (outOf d x) \<longrightarrow> rank y < rank x \<and> rootOf m y = rootOf m x"
  shows "\<exists>cmps. getComponents fuel cs typeVars (g1, m, d) = Some (g1, cmps)"
proof -
  from fuelN have fl: "\<forall>x\<in>set typeVars. x \<le> fuel" by auto
  from componentsWithUnbound_total[OF pb fl, of cs "[]"] obtain unbound m1 where
    cu: "componentsWithUnbound fuel cs typeVars ([], m) = Some (unbound, m1)"
    and pb1: "parentsBelow m1" and r1: "\<forall>y. rootOf m1 y = rootOf m y" by blast
  let ?a0 = "\<lparr>asGraph = g1, asRepresentatives = m1, components = [],
              componentIdxMap = [], knownConstraints = []\<rparr>"
  from pb1 ok have ok0: "assignmentOK ?a0" by (simp add: assignmentOK_def)
  from nodes have n0: "set typeVars \<subseteq> dom (graphNode (asGraph ?a0))" by simp
  from assignComponents_total[OF ok0 n0 fl, of cs unbound] obtain a where
    ac: "assignComponents fuel cs unbound typeVars ?a0 = Some a" and oka: "assignmentOK a"
    and ga: "asGraph a = g1"
    and ra: "\<forall>y. rootOf (asRepresentatives a) y = rootOf m1 y" by auto
  show ?thesis
  proof (cases "d = []")
    case True
    with cu ac ga show ?thesis by (simp add: getComponents_def)
  next
    case False
    from oka have pba: "parentsBelow (asRepresentatives a)"
      and bound: "\<forall>rep i. map_of (componentIdxMap a) rep = Some i \<longrightarrow> i < length (components a)"
      by (simp_all add: assignmentOK_def)
    have adjKeys: "\<forall>x y. y \<in> set (outOf d x) \<longrightarrow> map_of d y \<noteq> None"
      using ep inOf_key unfolding edgesPaired_def by blast
    have sym: "\<forall>x y. y \<in> set (inOf d x) \<longrightarrow> x \<in> set (outOf d y)"
      using ep unfolding edgesPaired_def by blast
    have acyc: "\<forall>x y. y \<in> set (outOf d x) \<longrightarrow> rank y < rank x" using edges by blast
    have comp: "\<forall>x y. y \<in> set (outOf d x) \<longrightarrow>
        componentOf (componentIdxMap a) (asRepresentatives a) y
          = componentOf (componentIdxMap a) (asRepresentatives a) x"
      using edges ra r1 by (simp add: componentOf_def)
    from populateOneWayComponentDependencies_total[OF pba fuelN keys adjKeys sym acyc comp bound]
    obtain res where "populateOneWayComponentDependencies fuel typeVars d (componentIdxMap a)
        (components a) (asRepresentatives a) = Some res" ..
    with False cu ac ga show ?thesis by (cases res) (simp add: getComponents_def)
  qed
qed

subsection \<open>The one-way components are ordered producers first\<close>

text \<open>The producer comes last in the list of type variables: \<open>Equal(T0, T1)\<close>,
  \<open>Equal(T2, T3)\<close>, \<open>OneWayBind(T2, T0)\<close>, which binds \<open>T2\<close> to what \<open>T0\<close> is.\<close>

definition oneWay20 :: Constraint where
  "oneWay20 = \<lparr>cid = 9, getKind = OneWayBind, getFirstType = TypeVariableType 2,
     getSecondType = TypeVariableType 0, constraintTypeVariables = [2, 0]\<rparr>"

definition producerFirstCalls :: "(ConstraintSystem \<times> Mutation) list" where
  "producerFirstCalls =
     [(unboundSystem, AddConstraintCall equal01), (unboundSystem, AddConstraintCall equal23),
      (unboundSystem, AddConstraintCall oneWay20)]"

lemma producerFirstCalls_connected:
  "map_option (\<lambda>(g1, representatives, d). (map representatives [0, 1, 2, 3], d))
     (Option.bind (applyMutations 1 producerFirstCalls emptyGraph)
        (ConnectedComponents 4 unboundSystem [0, 1, 2, 3]))
   = Some ([None, Some 0, Some 0, Some 2],
           [(0, \<lparr>rawTypeVars = [0, 1], outAdjacencies = [2], inAdjacencies = []\<rparr>),
            (2, \<lparr>rawTypeVars = [2, 3], outAdjacencies = [], inAdjacencies = [0]\<rparr>)])"
  by (simp add: graph_eval components_eval oneWay20_def producerFirstCalls_def)

lemma producerFirstCalls_components:
  "map_option (\<lambda>(g1, cmps). map (\<lambda>component.
        map (\<lambda>c. (oneWayTypeVars c, dependsOn c)) (oneWayComponents component)) cmps)
     (Option.bind (applyMutations 1 producerFirstCalls emptyGraph)
        (computeConnectedComponents 4 unboundSystem [0, 1, 2, 3]))
   = Some [[([0, 1], []), ([2, 3], [0])]]"
  by (simp add: graph_eval components_eval oneWay20_def producerFirstCalls_def)

lemma applyMutations_graphOK:
  "applyMutations fuel ms g = Some g' \<Longrightarrow> graphOK g \<Longrightarrow> graphOK g'"
proof (induction ms arbitrary: g)
  case Nil
  then show ?case by simp
next
  case (Cons a ms)
  obtain cs m where a: "a = (cs, m)" by (cases a)
  from Cons.prems(1) a obtain g1 where
    s: "applyMutation fuel cs m g = Some g1" and r: "applyMutations fuel ms g1 = Some g'"
    by (auto split: option.splits)
  from Cons.IH[OF r applyMutation_graphOK[OF s Cons.prems(2)]] show ?case .
qed

text \<open>
  Claim C4. In every component that \<^verbatim>\<open>computeConnectedComponents\<close> returns, every
  index in the \<^verbatim>\<open>dependsOn\<close> list of a one-way component is less than the index of
  that one-way component in \<^verbatim>\<open>oneWayComponents\<close>. And it does return such components
  for the representatives and the digraph that \<^verbatim>\<open>ConnectedComponents\<close> built from a
  well-formed graph, when the fuel exceeds the IDs of the type variables given, the
  type variables of the digraph are among those given, the digraph has no cycle
  (\<open>rank\<close> decreases along every edge) and the two ends of every edge have the same
  representative: the first search then records every type variable after those its
  edges lead to, so that the second search, backwards from a type variable, meets
  only type variables whose sub-component is formed already.
\<close>

theorem one_way_dependencies_backwards:
  fixes rank :: "tvar \<Rightarrow> nat"
  shows "(computeConnectedComponents fuel cs typeVars g = Some (g', cmps) \<longrightarrow>
      (\<forall>component\<in>set cmps. \<forall>i<length (oneWayComponents component).
         \<forall>j\<in>set (dependsOn (oneWayComponents component ! i)). j < i)) \<and>
    (ConnectedComponents fuel cs typeVars g = Some (g1, representatives, d) \<and> graphOK g \<and>
     (\<forall>x\<in>set typeVars. x < fuel) \<and> (\<forall>x. map_of d x \<noteq> None \<longrightarrow> x \<in> set typeVars) \<and>
     (\<forall>x y. y \<in> set (outOf d x) \<longrightarrow>
        rank y < rank x \<and> rootOf representatives y = rootOf representatives x) \<longrightarrow>
     (\<exists>cmps'. computeConnectedComponents fuel cs typeVars g = Some (g1, cmps') \<and>
        (\<forall>component\<in>set cmps'. \<forall>i<length (oneWayComponents component).
           \<forall>j\<in>set (dependsOn (oneWayComponents component ! i)). j < i)))"
proof -
  have backwards: "\<forall>component\<in>set cmps. \<forall>i<length (oneWayComponents component).
           \<forall>j\<in>set (dependsOn (oneWayComponents component ! i)). j < i"
    if c: "computeConnectedComponents fuel cs typeVars g = Some (g', cmps)" for g' cmps
  proof -
    from c obtain g1 reps d where
      gc: "getComponents fuel cs typeVars (g1, reps, d) = Some (g', cmps)"
      by (auto simp: computeConnectedComponents_def split: option.splits)
    then obtain unbound reps1 a where
      a: "assignComponents fuel cs unbound typeVars
            \<lparr>asGraph = g1, asRepresentatives = reps1, components = [],
             componentIdxMap = [], knownConstraints = []\<rparr> = Some a"
      and fin: "(if d = [] then Some (asGraph a, components a)
                 else map_option (\<lambda>(cmps, representatives2). (asGraph a, cmps))
                        (populateOneWayComponentDependencies fuel typeVars d
                           (componentIdxMap a) (components a) (asRepresentatives a)))
                = Some (g', cmps)"
      by (auto simp: getComponents_def split: option.splits prod.splits)
    from assignComponents_oneWay[OF a] have e: "\<forall>c\<in>set (components a). oneWayComponents c = []"
      by simp
    have "\<forall>c\<in>set cmps. dependenciesBackwards (oneWayComponents c)"
    proof (cases "d = []")
      case True
      with fin e show ?thesis by auto
    next
      case False
      with fin obtain orders where
        "populateComponents fuel d orders (components a) = Some cmps"
        by (auto simp: populateOneWayComponentDependencies_def split: option.splits prod.splits)
      from populateComponents_backwards[OF this e] show ?thesis .
    qed
    then show ?thesis by (simp add: dependenciesBackwards_def)
  qed
  have returns: "\<exists>cmps'. computeConnectedComponents fuel cs typeVars g = Some (g1, cmps') \<and>
        (\<forall>component\<in>set cmps'. \<forall>i<length (oneWayComponents component).
           \<forall>j\<in>set (dependsOn (oneWayComponents component ! i)). j < i)"
    if cc: "ConnectedComponents fuel cs typeVars g = Some (g1, representatives, d)"
      and ok: "graphOK g" and fuelN: "\<forall>x\<in>set typeVars. x < fuel"
      and keys: "\<forall>x. map_of d x \<noteq> None \<longrightarrow> x \<in> set typeVars"
      and edges: "\<forall>x y. y \<in> set (outOf d x) \<longrightarrow>
        rank y < rank x \<and> rootOf representatives y = rootOf representatives x"
  proof -
    note r = ConnectedComponents_result[OF cc]
    from getComponents_total[OF r(1) r(2) r(3)[OF ok] r(4) fuelN keys edges, of cs]
    obtain cmps' where "getComponents fuel cs typeVars (g1, representatives, d) = Some (g1, cmps')"
      ..
    with cc have c: "computeConnectedComponents fuel cs typeVars g = Some (g1, cmps')"
      by (simp add: computeConnectedComponents_def)
    from backwards[OF c] c show ?thesis by blast
  qed
  from backwards returns show ?thesis by blast
qed

theorem one_way_dependencies_backwards_witness:
  "map_option (\<lambda>(g1, representatives, d). (map representatives [0, 1, 2, 3], d))
     (Option.bind (applyMutations 1 producerFirstCalls emptyGraph)
        (ConnectedComponents 4 unboundSystem [0, 1, 2, 3]))
   = Some ([None, Some 0, Some 0, Some 2],
           [(0, \<lparr>rawTypeVars = [0, 1], outAdjacencies = [2], inAdjacencies = []\<rparr>),
            (2, \<lparr>rawTypeVars = [2, 3], outAdjacencies = [], inAdjacencies = [0]\<rparr>)]) \<and>
   Option.bind (applyMutations 1 producerFirstCalls emptyGraph)
     (computeConnectedComponents 4 unboundSystem [0, 1, 2, 3]) \<noteq> None \<and>
   list_all (\<lambda>component. dependenciesBackwards (oneWayComponents component))
     (snd (the (Option.bind (applyMutations 1 producerFirstCalls emptyGraph)
        (computeConnectedComponents 4 unboundSystem [0, 1, 2, 3])))) \<and>
   map (\<lambda>component. map (\<lambda>c. (oneWayTypeVars c, dependsOn c)) (oneWayComponents component))
     (snd (the (Option.bind (applyMutations 1 producerFirstCalls emptyGraph)
        (computeConnectedComponents 4 unboundSystem [0, 1, 2, 3]))))
   = [[([0, 1], []), ([2, 3], [0])]]"
proof -
  let ?d = "[(0, \<lparr>rawTypeVars = [0, 1], outAdjacencies = [2], inAdjacencies = []\<rparr>),
            (2, \<lparr>rawTypeVars = [2, 3], outAdjacencies = [], inAdjacencies = [0::nat]\<rparr>)]"
  from producerFirstCalls_connected obtain g g1 m where
    g: "applyMutations 1 producerFirstCalls emptyGraph = Some g" and
    cc: "ConnectedComponents 4 unboundSystem [0, 1, 2, 3] g = Some (g1, m, ?d)" and
    m: "m 0 = None" "m 2 = Some 0"
    by (cases "applyMutations 1 producerFirstCalls emptyGraph")
       (auto simp: bind_eq_Some_conv)
  from applyMutations_graphOK[OF g graphOK_emptyGraph] have ok: "graphOK g" .
  have fuelN: "\<forall>x\<in>set [0, 1, 2, 3::nat]. x < 4" by simp
  have keys: "\<forall>x. map_of ?d x \<noteq> None \<longrightarrow> x \<in> set [0, 1, 2, 3::nat]"
    by (auto split: if_splits)
  have r2: "rootOf m 2 = 0" using m by (simp add: rootOf_def numeral_2_eq_2)
  have r0: "rootOf m 0 = 0" by (simp add: rootOf_def)
  have edges: "\<forall>x y. y \<in> set (outOf ?d x) \<longrightarrow>
      (2 - y) < (2 - x) \<and> rootOf m y = rootOf m x"
    using r0 r2 by (auto simp: outOf_def split: if_splits)
  from one_way_dependencies_backwards[of 4 unboundSystem "[0, 1, 2, 3]" g _ _ g1 m ?d
      "\<lambda>x. 2 - x", THEN conjunct2] cc ok fuelN keys edges
  obtain cmps where
    c: "computeConnectedComponents 4 unboundSystem [0, 1, 2, 3] g = Some (g1, cmps)"
    by blast
  from one_way_dependencies_backwards[of 4 unboundSystem "[0, 1, 2, 3]" g g1 cmps g1 m ?d
      "\<lambda>x. 2 - x", THEN conjunct1] c
  have b: "\<forall>component\<in>set cmps. \<forall>i<length (oneWayComponents component).
           \<forall>j\<in>set (dependsOn (oneWayComponents component ! i)). j < i"
    by blast
  from b have "list_all (\<lambda>component. dependenciesBackwards (oneWayComponents component)) cmps"
    by (simp add: list_all_iff dependenciesBackwards_def)
  moreover from producerFirstCalls_components g c
  have "map (\<lambda>component. map (\<lambda>c. (oneWayTypeVars c, dependsOn c)) (oneWayComponents component))
      cmps = [[([0, 1], []), ([2, 3], [0])]]"
    by simp
  ultimately show ?thesis using g c producerFirstCalls_connected by simp
qed

subsection \<open>The graph after a scope is destroyed\<close>

text \<open>The constraint list of a node is restored only up to its order: the undo of a
  removal adds the constraint at the end. Node 0 has \<open>equal01\<close> and \<open>oneWay02\<close>; a scope
  is opened, \<open>equal01\<close> is removed and the scope is destroyed.\<close>

lemma scope_constraint_order_evaluation:
  "map_option (\<lambda>g. map (constraintsOf g) [0, 1, 2])
     (applyMutations 1 [(unboundSystem, AddConstraintCall equal01),
        (unboundSystem, AddConstraintCall oneWay02)] emptyGraph)
   = Some [[equal01, oneWay02], [equal01], [oneWay02]] \<and>
   map_option (\<lambda>g. (map (constraintsOf g) [0, 1, 2], Changes g, ActiveScope g))
     (Option.bind
        (Option.bind
           (applyMutations 1 [(unboundSystem, AddConstraintCall equal01),
              (unboundSystem, AddConstraintCall oneWay02)] emptyGraph)
           (\<lambda>g. removeConstraint 0 unboundSystem equal01 (openScope g)))
        (closeScope 0 unboundSystem))
   = Some ([[oneWay02, equal01], [equal01], [oneWay02]], [], [])"
  by (simp add: graph_eval equal01_def oneWay02_def)

text \<open>
  Claim C1. In \<open>starGraph\<close> node 0 has the fixed bindings 1 and 2. A scope is opened,
  0 is bound to \<open>selfType\<close>, a type over 0 and 3, which creates the node of 3 and adds
  the one pair of 0 and 3; then the scope is destroyed. The vector of type variables,
  the constraint lists, the equivalence classes, the orphaned constraints and the
  journal are as they were when the scope was opened, and the fixed bindings of node
  0 are not: both are gone.
\<close>

theorem scope_fixed_bindings_not_restored_evaluation:
  "(TypeVariables starGraph, map (constraintsOf starGraph) [0, 1, 2],
    map (equivalenceClassOf starGraph) [0, 1, 2], map (fixedBindingsOf starGraph) [0, 1, 2],
    OrphanedConstraints starGraph, Changes starGraph, ActiveScope starGraph)
   = ([1, 0, 2], [[], [], []], [[0], [1], [2]], [[1, 2], [0], [0]], [], [], []) \<and>
   map_option (\<lambda>g. (TypeVariables g, map (constraintsOf g) [0, 1, 2, 3],
       map (equivalenceClassOf g) [0, 1, 2, 3], map (fixedBindingsOf g) [0, 1, 2, 3],
       OrphanedConstraints g, Changes g, ActiveScope g))
     (bindTypeVariable 1 unboundSystem 0 selfType (openScope starGraph))
   = Some ([1, 0, 2, 3], [[], [], [], []], [[0], [1], [2], [3]],
        [[1, 2, 3], [0], [0], [0]], [],
        [AddedTypeVariable 3, BoundTypeVariable 0 selfType], [0]) \<and>
   map_option (\<lambda>g. (TypeVariables g, map (constraintsOf g) [0, 1, 2],
       map (equivalenceClassOf g) [0, 1, 2], map (fixedBindingsOf g) [0, 1, 2],
       OrphanedConstraints g, Changes g, ActiveScope g))
     (Option.bind (bindTypeVariable 1 unboundSystem 0 selfType (openScope starGraph))
        (closeScope 0 unboundSystem))
   = Some ([1, 0, 2], [[], [], []], [[0], [1], [2]], [[], [0], [0]], [], [], [])"
  by (simp add: graph_eval starGraph_def selfType_def)

end
